(* ===== verification/Prelude.thy ===== *)
theory Prelude
  imports Main "HOL-Library.Word"
begin

text \<open>
  Shared material of the development: the machine types of the x86-64 program, the result type
  of code that may abort, byte windows of a flat memory (\<open>wr\<close>, \<open>rd\<close>), the little-endian
  encoding of integers in memory, and the generic lemmas on words and lists that the component
  theories use. The named collections \<open>word_nat\<close>, \<open>mem_simps\<close> and \<open>log_simps\<close> gather the
  rewrite rules that carry most component proofs.
\<close>

unbundle bit_operations_syntax

named_theorems word_nat \<open>comparisons and arithmetic of words moved to the naturals\<close>
named_theorems mem_simps \<open>reading a memory window after writing one\<close>
named_theorems log_simps \<open>constants of the undo log\<close>

section \<open>Machine types\<close>

type_synonym byte = "8 word"
type_synonym u32 = "32 word"
type_synonym u64 = "64 word"
type_synonym addr = u64
type_synonym mem = "addr \<Rightarrow> byte"

section \<open>Code that may abort\<close>

text \<open>
  A failing \<open>DR_ASSERT\<close>, \<open>DR_ASSERT_MSG\<close> or \<open>assert\<close> ends the process. The result of
  code that may do so is a sum: \<open>Inl\<close> with the violated condition, or \<open>Inr\<close> of the value.
  \<open>Undefined\<close> stands for undefined behaviour of the source, \<open>Abort\<close> for a call of \<open>abort\<close>,
  \<open>Longjmp\<close> for a jump out of the code.
\<close>

datatype failure = Assertion string | Undefined string | Abort | Longjmp

type_synonym 'a result = "failure + 'a"

definition dr_assert :: "bool \<Rightarrow> string \<Rightarrow> 'a result \<Rightarrow> 'a result" where
  "dr_assert c msg k = (if c then k else Inl (Assertion msg))"

lemma dr_assert_True [simp]: "dr_assert True msg k = k"
  by (simp add: dr_assert_def)

lemma dr_assert_False [simp]: "dr_assert False msg k = Inl (Assertion msg)"
  by (simp add: dr_assert_def)

lemma dr_assert_Inr [simp]: "dr_assert c msg k = Inr v \<longleftrightarrow> c \<and> k = Inr v"
  by (simp add: dr_assert_def)

definition bind_result :: "'a result \<Rightarrow> ('a \<Rightarrow> 'b result) \<Rightarrow> 'b result" where
  "bind_result r f = (case r of Inl e \<Rightarrow> Inl e | Inr v \<Rightarrow> f v)"

lemma bind_result_simps [simp]:
  "bind_result (Inl e) f = Inl e"
  "bind_result (Inr v) f = f v"
  by (simp_all add: bind_result_def)

lemma bind_result_Inr: "bind_result r f = Inr w \<longleftrightarrow> (\<exists>v. r = Inr v \<and> f v = Inr w)"
  by (cases r) auto

text \<open>Code that may abort and may also not return.\<close>

definition bind_ro :: "'a result option \<Rightarrow> ('a \<Rightarrow> 'b result option) \<Rightarrow> 'b result option" where
  "bind_ro r f = (case r of None \<Rightarrow> None | Some (Inl e) \<Rightarrow> Some (Inl e) | Some (Inr v) \<Rightarrow> f v)"

lemma bind_ro_simps [simp]:
  "bind_ro None f = None"
  "bind_ro (Some (Inl e)) f = Some (Inl e)"
  "bind_ro (Some (Inr v)) f = f v"
  by (simp_all add: bind_ro_def)

lemma bind_ro_Inr: "bind_ro r f = Some (Inr w) \<longleftrightarrow> (\<exists>v. r = Some (Inr v) \<and> f v = Some (Inr w))"
  by (auto simp: bind_ro_def split: option.splits sum.splits)

section \<open>Words and naturals\<close>

lemma two_power_64 [simp]: "(2 :: nat) ^ 64 = 18446744073709551616"
  by simp

lemma unat_u64_less: "unat (x :: u64) < 18446744073709551616"
  using unsigned_less [of x] by simp

lemma unat_add_no_wrap [word_nat]:
  fixes a b :: u64
  assumes "unat a + unat b < 18446744073709551616"
  shows "unat (a + b) = unat a + unat b"
  using assms by (simp add: unat_word_ariths)

lemma unat_sub_le [word_nat]:
  fixes a b :: u64
  assumes "b \<le> a"
  shows "unat (a - b) = unat a - unat b"
  using assms by (simp add: unat_sub word_le_nat_alt)

lemma unat_of_nat_small [word_nat]:
  assumes "n < 18446744073709551616"
  shows "unat (of_nat n :: u64) = n"
  using assms by (simp add: unat_of_nat)

lemma unat_add_of_nat [word_nat]:
  fixes a :: u64
  assumes "unat a + n < 18446744073709551616"
  shows "unat (a + of_nat n) = unat a + n"
  using assms by (subst unat_add_no_wrap) (simp_all add: unat_of_nat_small)

lemma unat_ucast_u32 [word_nat]: "unat (ucast (w :: u32) :: u64) = unat w"
  by (simp add: unsigned_ucast_eq take_bit_nat_eq_self order.strict_trans [OF unsigned_less [of w]])

lemma word_eq_iff_unat: "(a :: 'a::len word) = b \<longleftrightarrow> unat a = unat b"
  by (simp add: word_unat_eq_iff)

lemma unat_diff_wrap:
  fixes a b :: u64
  shows "unat (a - b) = (if unat b \<le> unat a then unat a - unat b
                         else unat a + 18446744073709551616 - unat b)"
proof (cases "unat b \<le> unat a")
  case True
  then show ?thesis by (simp add: unat_sub_le word_le_nat_alt)
next
  case False
  then have "unat (a - b) = unat a + 2 ^ size a - unat b"
    by (simp add: unat_sub_if_size)
  with False show ?thesis by (simp add: word_size)
qed

lemma div_eq_iff_nat:
  fixes n :: nat
  assumes "0 < k"
  shows "n div k = q \<longleftrightarrow> k * q \<le> n \<and> n < k * q + k"
proof
  assume q: "n div k = q"
  have "k * (n div k) \<le> n" by simp
  moreover have "n < k * (n div k) + k"
    using assms dividend_less_times_div [of k n] by simp
  ultimately show "k * q \<le> n \<and> n < k * q + k" using q by simp
next
  assume "k * q \<le> n \<and> n < k * q + k"
  then show "n div k = q" by (auto intro: div_nat_eqI simp: mult.commute)
qed

text \<open>The window of \<open>n\<close> bytes from \<open>a\<close>, written without a sum that could wrap.\<close>

lemma window_iff:
  fixes a x :: u64
  assumes "unat a + n \<le> 18446744073709551616"
  shows "unat (x - a) < n \<longleftrightarrow> unat a \<le> unat x \<and> unat x < unat a + n"
  using assms unat_u64_less [of x] by (auto simp: unat_diff_wrap split: if_splits)

lemma unat_window_shift:
  fixes a x :: u64
  assumes "n < 18446744073709551616"
  shows "unat (x - (a + of_nat n)) =
      (if n \<le> unat (x - a) then unat (x - a) - n
       else unat (x - a) + 18446744073709551616 - n)"
  using assms by (simp add: diff_diff_eq [symmetric] unat_diff_wrap [of "x - a"] unat_of_nat_small)

lemma window_split:
  fixes a x :: u64
  assumes "k + n < 18446744073709551616"
  shows "unat (x - a) < k + n \<longleftrightarrow> unat (x - a) < k \<or> unat (x - (a + of_nat k)) < n"
  using assms unat_u64_less [of "x - a"] by (auto simp: unat_window_shift)

section \<open>Byte windows of a memory\<close>

definition wr :: "addr \<Rightarrow> byte list \<Rightarrow> mem \<Rightarrow> mem" where
  "wr a bs m = (\<lambda>x. if unat (x - a) < length bs then bs ! unat (x - a) else m x)"

definition rd :: "mem \<Rightarrow> addr \<Rightarrow> nat \<Rightarrow> byte list" where
  "rd m a n = map (\<lambda>i. m (a + of_nat i)) [0..<n]"

lemma length_rd [simp]: "length (rd m a n) = n"
  by (simp add: rd_def)

lemma rd_0 [simp]: "rd m a 0 = []"
  by (simp add: rd_def)

lemma nth_rd [simp]: "i < n \<Longrightarrow> rd m a n ! i = m (a + of_nat i)"
  by (simp add: rd_def)

lemma wr_Nil [simp]: "wr a [] m = m"
  by (simp add: wr_def)

lemma wr_in [mem_simps]: "unat (x - a) < length bs \<Longrightarrow> wr a bs m x = bs ! unat (x - a)"
  by (simp add: wr_def)

lemma wr_out [mem_simps]: "length bs \<le> unat (x - a) \<Longrightarrow> wr a bs m x = m x"
  by (simp add: wr_def)

lemma rd_cong: "(\<And>i. i < n \<Longrightarrow> m (a + of_nat i) = m' (a + of_nat i)) \<Longrightarrow> rd m a n = rd m' a n"
  by (simp add: rd_def)

lemma rd_append: "rd m a (n + k) = rd m a n @ rd m (a + of_nat n) k"
proof -
  have "rd m a (n + k) ! i = (rd m a n @ rd m (a + of_nat n) k) ! i" if "i < n + k" for i
    using that by (auto simp: nth_append algebra_simps of_nat_diff)
  then show ?thesis by (intro nth_equalityI) simp_all
qed

lemma rd_split:
  assumes "rd m a (length (xs @ ys)) = xs @ ys"
  shows "rd m a (length xs) = xs" and "rd m (a + of_nat (length xs)) (length ys) = ys"
  using assms unfolding length_append rd_append by simp_all

lemma rd_wr_same:
  assumes "length bs < 18446744073709551616"
  shows "rd (wr a bs m) a (length bs) = bs"
  by (rule nth_equalityI) (use assms in \<open>auto simp: wr_def unat_of_nat_small\<close>)

lemma wr_rd_self: "n < 18446744073709551616 \<Longrightarrow> wr a (rd m a n) m = m"
  by (rule ext) (auto simp: wr_def)

lemma wr_single: "wr a [b] m = m(a := b)"
proof
  fix x
  show "wr a [b] m x = (m(a := b)) x"
    by (cases "x = a") (auto simp: wr_def unat_0_iff)
qed

lemma wr_Cons:
  assumes "length bs < 18446744073709551615"
  shows "wr a (b # bs) m = wr (a + 1) bs (wr a [b] m)"
proof
  fix x
  show "wr a (b # bs) m x = wr (a + 1) bs (wr a [b] m) x"
  proof (cases "x = a")
    case True
    have "unat (- 1 :: u64) = 18446744073709551615"
      by (simp add: unsigned_minus_1_eq_mask mask_eq_exp_minus_1)
    with True assms show ?thesis by (simp add: wr_def)
  next
    case False
    then have "x - a \<noteq> 0" by simp
    then have pos: "0 < unat (x - a)" by (simp add: unat_gt_0)
    have "unat (x - (a + 1)) = unat (x - a) - 1"
      using pos \<open>x - a \<noteq> 0\<close> by (simp add: unat_minus_one diff_diff_eq [symmetric])
    with pos show ?thesis by (auto simp: wr_def nth_Cons')
  qed
qed

section \<open>Little-endian integers\<close>

fun le_bytes :: "nat \<Rightarrow> 'a::len word \<Rightarrow> byte list" where
  "le_bytes 0 w = []"
| "le_bytes (Suc n) w = ucast w # le_bytes n (drop_bit 8 w)"

fun le_word :: "byte list \<Rightarrow> 'a::len word" where
  "le_word [] = 0"
| "le_word (b # bs) = ucast b OR push_bit 8 (le_word bs)"

lemma length_le_bytes [simp]: "length (le_bytes n w) = n"
  by (induction n arbitrary: w) auto

lemma le_word_le_bytes_take: "le_word (le_bytes n w) = (take_bit (8 * n) w :: 'a::len word)"
proof (induction n arbitrary: w)
  case 0
  then show ?case by simp
next
  case (Suc n)
  show ?case
    by (rule bit_word_eqI) (auto simp: Suc bit_simps less_diff_conv2)
qed

lemma le_word_le_bytes [simp]: "le_word (le_bytes 8 w) = (w :: u64)"
  using take_bit_word_eq_self [of 64 w]
  by (simp add: le_word_le_bytes_take del: le_bytes.simps)

lemma le_word_le_bytes32 [simp]: "le_word (le_bytes 4 w) = (w :: u32)"
  using take_bit_word_eq_self [of 32 w]
  by (simp add: le_word_le_bytes_take del: le_bytes.simps)

lemma le_word_zeros [simp]: "le_word (replicate n 0) = 0"
  by (induction n) auto

lemma le_bytes_zero [simp]: "le_bytes n 0 = replicate n 0"
  by (induction n) auto

section \<open>Lists\<close>

lemma foldr_inv: "P z \<Longrightarrow> (\<And>x z. x \<in> set xs \<Longrightarrow> P z \<Longrightarrow> P (f x z)) \<Longrightarrow> P (foldr f xs z)"
  by (induction xs) auto

end
