(* ===== verification/Region.thy ===== *)
theory Region
  imports Prelude
begin

text \<open>
  \<^verbatim>\<open>src/src/undo/mem_region/common.h\<close>: the descriptor of a memory region and the name of the file
  that backs it. The theorems show that the overlap test decides whether two regions share an
  address, that distinct (base, file id) pairs have distinct file names, and that every name
  fits the buffer the callers reserve.
\<close>

section \<open>The descriptor\<close>

record region =
  reg_base :: u64
  reg_size :: u64
  reg_file_id :: u32

definition region_end :: "region \<Rightarrow> u64" where
  "region_end r = reg_base r + reg_size r"

definition does_include_addr :: "region \<Rightarrow> u64 \<Rightarrow> bool" where
  "does_include_addr r a \<longleftrightarrow> reg_base r \<le> a \<and> a < region_end r"

definition does_include :: "region \<Rightarrow> region \<Rightarrow> bool" where
  "does_include r other \<longleftrightarrow>
     does_include_addr r (reg_base other) \<and> does_include_addr r (region_end other - 1)"

definition does_overlap_with :: "region \<Rightarrow> region \<Rightarrow> bool" where
  "does_overlap_with r other \<longleftrightarrow>
     does_include_addr r (reg_base other) \<or> does_include_addr other (reg_base r)"

section \<open>File names\<close>

text \<open>The first loop of \<open>write_hex\<close> counts digits; zero has one.\<close>

lemma unat_shift_4: "unat (drop_bit 4 x :: 'a::len word) = unat x div 16"
proof -
  have "unat (drop_bit 4 x) = drop_bit 4 (unat x)" by (rule unat_drop_bit_eq)
  also have "\<dots> = unat x div 2 ^ 4" by (rule drop_bit_eq_div)
  finally show ?thesis by simp
qed

function hex_len_loop :: "'a::len word \<Rightarrow> nat \<Rightarrow> nat" where
  "hex_len_loop copy n = (if copy > 0 then hex_len_loop (drop_bit 4 copy) (n + 1) else n)"
  by pat_completeness auto
termination
  by (relation "measure (\<lambda>(copy, n). unat copy)")
    (auto simp: unat_shift_4 word_gt_0 unat_gt_0)

declare hex_len_loop.simps [simp del]

definition hex_len :: "'a::len word \<Rightarrow> nat" where
  "hex_len number = (if hex_len_loop number 0 = 0 then 1 else hex_len_loop number 0)"

definition hex_digit :: "nat \<Rightarrow> char" where
  "hex_digit d = char_of (if d < 10 then 48 + d else 97 + (d - 10))"

text \<open>The second loop fills the digits from the last to the first.\<close>

fun hex_fill :: "nat \<Rightarrow> 'a::len word \<Rightarrow> string \<Rightarrow> string" where
  "hex_fill 0 number acc = acc"
| "hex_fill (Suc i) number acc =
     hex_fill i (drop_bit 4 number) (hex_digit (unat (number AND 15)) # acc)"

definition write_hex :: "'a::len word \<Rightarrow> string" where
  "write_hex number = hex_fill (hex_len number) number []"

definition make_file_name :: "region \<Rightarrow> string" where
  "make_file_name r = ''mem_'' @ write_hex (reg_base r) @ ''_'' @ write_hex (reg_file_id r)"

definition FILE_NAME_BUF_LEN :: nat where
  "FILE_NAME_BUF_LEN = 4 + 16 + 1 + 8 + 1"

section \<open>Digits\<close>

definition digit_value :: "char \<Rightarrow> nat" where
  "digit_value c = (if of_char c < (58::nat) then of_char c - 48 else of_char c - 87)"

fun hex_value :: "string \<Rightarrow> nat" where
  "hex_value [] = 0"
| "hex_value (c # cs) = digit_value c * 16 ^ length cs + hex_value cs"

lemma digit_value_hex_digit: "d < 16 \<Longrightarrow> digit_value (hex_digit d) = d"
  by (simp add: digit_value_def hex_digit_def)

lemma hex_digit_not_underscore: "d < 16 \<Longrightarrow> hex_digit d \<noteq> CHR ''_''"
proof
  assume "d < 16" and "hex_digit d = CHR ''_''"
  then have "(of_char (hex_digit d) :: nat) = of_char CHR ''_''" by simp
  with \<open>d < 16\<close> show False by (auto simp: hex_digit_def split: if_splits)
qed

lemma unat_and_15: "unat (x AND 15 :: 'a::len word) = unat x mod 16"
proof -
  have "x AND 15 = take_bit 4 x"
    by (simp add: take_bit_eq_mask mask_eq_exp_minus_1)
  then have "unat (x AND 15) = take_bit 4 (unat x)"
    by (simp only: unsigned_take_bit_eq)
  also have "\<dots> = unat x mod 2 ^ 4" by (rule take_bit_eq_mod)
  finally show ?thesis by simp
qed

lemma length_hex_fill [simp]: "length (hex_fill i x acc) = i + length acc"
  by (induction i arbitrary: x acc) auto

lemma hex_value_fill:
  "hex_value (hex_fill i x acc) =
     (unat (x :: 'a::len word) mod 16 ^ i) * 16 ^ length acc + hex_value acc"
proof (induction i arbitrary: x acc)
  case 0
  then show ?case by simp
next
  case (Suc i)
  have "unat x mod 16 ^ Suc i = (unat x div 16 mod 16 ^ i) * 16 + unat x mod 16"
    by (simp add: mod_mult2_eq mult.commute)
  with Suc show ?case
    by (simp add: unat_and_15 unat_shift_4 digit_value_hex_digit algebra_simps)
qed

lemma hex_fill_chars: "CHR ''_'' \<notin> set acc \<Longrightarrow> CHR ''_'' \<notin> set (hex_fill i x acc)"
  by (induction i arbitrary: x acc) (auto simp: unat_and_15 hex_digit_not_underscore [symmetric])

lemma hex_len_loop_bound: "unat x < 16 ^ (hex_len_loop x n - n) \<and> n \<le> hex_len_loop x n"
proof (induction x n rule: hex_len_loop.induct)
  case (1 x n)
  show ?case
  proof (cases "x > 0")
    case True
    then have IH: "unat x div 16 < 16 ^ (hex_len_loop (drop_bit 4 x) (n + 1) - (n + 1))"
      "n + 1 \<le> hex_len_loop (drop_bit 4 x) (n + 1)"
      using "1.IH" by (auto simp: unat_shift_4)
    define k where "k = hex_len_loop (drop_bit 4 x) (n + 1) - (n + 1)"
    have "hex_len_loop x n - n = Suc k"
      using True IH(2) by (simp add: hex_len_loop.simps [of x n] k_def)
    moreover have "unat x < 16 * 16 ^ k"
      using IH(1) unfolding k_def [symmetric]
      by (simp only: div_less_iff_less_mult zero_less_numeral mult.commute)
    ultimately show ?thesis
      using True IH(2) by (simp add: hex_len_loop.simps [of x n])
  next
    case False
    then have "x = 0" by (simp add: word_gt_0)
    then show ?thesis by (simp add: hex_len_loop.simps)
  qed
qed

lemma hex_len_loop_le: "unat x < 16 ^ k \<Longrightarrow> hex_len_loop x n \<le> n + k"
proof (induction x n arbitrary: k rule: hex_len_loop.induct)
  case (1 x n)
  show ?case
  proof (cases "x > 0")
    case True
    then have "0 < unat x" by (simp add: word_gt_0 unat_gt_0)
    with "1.prems" obtain j where k: "k = Suc j" by (cases k) auto
    have "unat (drop_bit 4 x) < 16 ^ j"
      using "1.prems" k by (simp add: unat_shift_4 less_mult_imp_div_less mult.commute)
    from "1.IH" [OF True this] True k show ?thesis by (simp add: hex_len_loop.simps [of x n])
  next
    case False
    then show ?thesis by (simp add: hex_len_loop.simps [of x n])
  qed
qed

text \<open>Reading the printed digits back gives the number.\<close>

lemma hex_value_write_hex: "hex_value (write_hex x) = unat x"
proof -
  have "unat x < 16 ^ hex_len x"
    using hex_len_loop_bound [of x 0] by (auto simp: hex_len_def)
  then show ?thesis by (simp add: write_hex_def hex_value_fill)
qed

lemma write_hex_chars: "CHR ''_'' \<notin> set (write_hex x)"
  by (simp add: write_hex_def hex_fill_chars)

lemma length_write_hex: "unat x < 16 ^ k \<Longrightarrow> 0 < k \<Longrightarrow> length (write_hex x) \<le> k"
  using hex_len_loop_le [of x k 0] by (auto simp: write_hex_def hex_len_def)

lemma split_at_underscore:
  assumes "CHR ''_'' \<notin> set a" and "CHR ''_'' \<notin> set b" and "a @ ''_'' @ c = b @ ''_'' @ d"
  shows "a = b \<and> c = d"
proof -
  have "a = takeWhile (\<lambda>x. x \<noteq> CHR ''_'') (a @ ''_'' @ c)"
    using assms(1) by (subst takeWhile_append2) auto
  also have "\<dots> = takeWhile (\<lambda>x. x \<noteq> CHR ''_'') (b @ ''_'' @ d)"
    by (simp only: assms(3))
  also have "\<dots> = b" using assms(2) by (subst takeWhile_append2) auto
  finally show ?thesis using assms(3) by simp
qed

section \<open>Properties\<close>

text \<open>
  C18. Two regions have the same file name only if they have the same base and the same file
  id: \<open>persist_region\<close> never opens the file of another live region.
\<close>

theorem make_file_name_inject:
  "make_file_name r = make_file_name s \<longleftrightarrow>
     reg_base r = reg_base s \<and> reg_file_id r = reg_file_id s"
proof
  assume "make_file_name r = make_file_name s"
  then have "write_hex (reg_base r) @ ''_'' @ write_hex (reg_file_id r) =
      write_hex (reg_base s) @ ''_'' @ write_hex (reg_file_id s)"
    by (simp add: make_file_name_def)
  from split_at_underscore [OF write_hex_chars write_hex_chars this]
  have "hex_value (write_hex (reg_base r)) = hex_value (write_hex (reg_base s))"
    and "hex_value (write_hex (reg_file_id r)) = hex_value (write_hex (reg_file_id s))"
    by simp_all
  then show "reg_base r = reg_base s \<and> reg_file_id r = reg_file_id s"
    by (simp add: hex_value_write_hex word_unat_eq_iff)
next
  assume "reg_base r = reg_base s \<and> reg_file_id r = reg_file_id s"
  then show "make_file_name r = make_file_name s"
    by (simp add: make_file_name_def)
qed

text \<open>
  Every file name, with its terminating NUL, fits a buffer of \<open>FILE_NAME_BUF_LEN\<close> bytes.
\<close>

theorem make_file_name_fits: "length (make_file_name r) + 1 \<le> FILE_NAME_BUF_LEN"
proof -
  have "length (write_hex (reg_base r)) \<le> 16"
    using unsigned_less [of "reg_base r"] by (intro length_write_hex) simp_all
  moreover have "length (write_hex (reg_file_id r)) \<le> 8"
    using unsigned_less [of "reg_file_id r"] by (intro length_write_hex) simp_all
  ultimately show ?thesis by (simp add: make_file_name_def FILE_NAME_BUF_LEN_def)
qed

text \<open>
  For two non-empty regions inside the address space, \<open>does_overlap_with\<close> is true exactly
  when some address belongs to both.
\<close>

theorem does_overlap_with_iff:
  assumes "0 < reg_size r" and "0 < reg_size s"
    and "unat (reg_base r) + unat (reg_size r) < 2 ^ 64"
    and "unat (reg_base s) + unat (reg_size s) < 2 ^ 64"
  shows "does_overlap_with r s \<longleftrightarrow> (\<exists>a. does_include_addr r a \<and> does_include_addr s a)"
proof
  have e: "unat (region_end r) = unat (reg_base r) + unat (reg_size r)"
    "unat (region_end s) = unat (reg_base s) + unat (reg_size s)"
    using assms(3,4) by (simp_all add: region_end_def unat_add_no_wrap)
  have pos: "0 < unat (reg_size r)" "0 < unat (reg_size s)"
    using assms(1,2) by (simp_all add: word_less_nat_alt)
  have self: "does_include_addr r (reg_base r)" "does_include_addr s (reg_base s)"
    using e pos by (simp_all add: does_include_addr_def word_less_nat_alt)
  show "does_overlap_with r s \<Longrightarrow> \<exists>a. does_include_addr r a \<and> does_include_addr s a"
    using self by (auto simp: does_overlap_with_def)
  show "\<exists>a. does_include_addr r a \<and> does_include_addr s a \<Longrightarrow> does_overlap_with r s"
    using e by (auto simp: does_overlap_with_def does_include_addr_def word_less_nat_alt word_le_nat_alt)
qed

theorem does_overlap_with_iff_witness:
  "0 < reg_size \<lparr>reg_base = 4096, reg_size = 8192, reg_file_id = 1\<rparr> \<and>
   does_overlap_with \<lparr>reg_base = 4096, reg_size = 8192, reg_file_id = 1\<rparr>
     \<lparr>reg_base = 8192, reg_size = 4096, reg_file_id = 0\<rparr> \<and>
   (\<exists>a. does_include_addr \<lparr>reg_base = 4096, reg_size = 8192, reg_file_id = 1\<rparr> a \<and>
        does_include_addr \<lparr>reg_base = 8192, reg_size = 4096, reg_file_id = 0\<rparr> a)"
proof -
  let ?r = "\<lparr>reg_base = 4096, reg_size = 8192, reg_file_id = 1\<rparr>"
  let ?s = "\<lparr>reg_base = 8192, reg_size = 4096, reg_file_id = 0\<rparr>"
  have h: "0 < reg_size ?r" "0 < reg_size ?s"
    "unat (reg_base ?r) + unat (reg_size ?r) < 2 ^ 64"
    "unat (reg_base ?s) + unat (reg_size ?s) < 2 ^ 64"
    by simp_all
  have o: "does_overlap_with ?r ?s"
    by (simp add: does_overlap_with_def does_include_addr_def region_end_def)
  with does_overlap_with_iff [OF h] h show ?thesis by simp
qed

end
