(* ===== verification/Pmem.thy ===== *)
theory Pmem
  imports Prelude
begin

text \<open>
  Persistent memory as the code under \<^verbatim>\<open>src/src/undo/flush.h\<close> uses it: stores go to the cache, a
  cache line may reach the persistence domain at any moment, \<open>pmem_flush\<close> (\<^verbatim>\<open>clwb\<close>) and
  \<open>pmem_flush_invalidate\<close> (\<^verbatim>\<open>clflushopt\<close>) start a write-back of one line, and \<open>pmem_drain\<close>
  (\<^verbatim>\<open>sfence\<close>) waits for the write-backs and non-temporal stores issued before it. The state keeps,
  beside the contents that loads see, the contents each line may have in the persistence domain
  now (\<open>pv\<close>) and after the next fence (\<open>fv\<close>). \<open>crash_image\<close> says which memories a power
  failure may leave; \<open>safe_run\<close> is the Hoare-style judgement that a predicate holds before,
  after and between all primitive steps of an operation.
\<close>

section \<open>State and primitive steps\<close>

definition line :: "addr \<Rightarrow> u64" where
  "line a = drop_bit 6 a"

datatype pevent =
    Store addr "byte list"
  | NTStore addr "byte list"
  | Flush addr
  | Fence

record pmem =
  cur :: mem
  pv :: "u64 \<Rightarrow> mem list"
  fv :: "u64 \<Rightarrow> mem list"
  trace :: "pevent list"

definition lines_of :: "addr \<Rightarrow> nat \<Rightarrow> u64 list" where
  "lines_of a n = map (\<lambda>i. line (a + of_nat i)) [0..<n]"

text \<open>
  A store appends the new contents to what every line may hold (for the lines it does not touch
  the new contents are the old ones). A flush leaves, after the next fence, only the contents
  from now on; a non-temporal store does the same for the lines it writes.
\<close>

fun pm_step :: "pevent \<Rightarrow> pmem \<Rightarrow> pmem" where
  "pm_step (Store a bs) P =
     (let m = wr a bs (cur P) in
      P\<lparr>cur := m, pv := (\<lambda>l. m # pv P l), fv := (\<lambda>l. m # fv P l),
        trace := trace P @ [Store a bs]\<rparr>)"
| "pm_step (NTStore a bs) P =
     (let m = wr a bs (cur P) in
      P\<lparr>cur := m, pv := (\<lambda>l. m # pv P l),
        fv := (\<lambda>l. if l \<in> set (lines_of a (length bs)) then [m] else m # fv P l),
        trace := trace P @ [NTStore a bs]\<rparr>)"
| "pm_step (Flush a) P = P\<lparr>fv := (fv P)(line a := [cur P]), trace := trace P @ [Flush a]\<rparr>"
| "pm_step Fence P = P\<lparr>pv := fv P, trace := trace P @ [Fence]\<rparr>"

definition pmem_flush :: "addr \<Rightarrow> pmem \<Rightarrow> pmem" where
  "pmem_flush a P = pm_step (Flush a) P"

definition pmem_flush_invalidate :: "addr \<Rightarrow> pmem \<Rightarrow> pmem" where
  "pmem_flush_invalidate a P = pm_step (Flush a) P"

definition pmem_drain :: "pmem \<Rightarrow> pmem" where
  "pmem_drain P = pm_step Fence P"

text \<open>
  \<open>memcpy\<close> makes no promise about the width of its stores: byte by byte is the weakest choice.
  An aligned 8-byte field is one store.
\<close>

fun store_bytes :: "addr \<Rightarrow> byte list \<Rightarrow> pmem \<Rightarrow> pmem" where
  "store_bytes a [] P = P"
| "store_bytes a (b # bs) P = store_bytes (a + 1) bs (pm_step (Store a [b]) P)"

definition store_u64 :: "addr \<Rightarrow> u64 \<Rightarrow> pmem \<Rightarrow> pmem" where
  "store_u64 a w P = pm_step (Store a (le_bytes 8 w)) P"

definition load_u64 :: "mem \<Rightarrow> addr \<Rightarrow> u64" where
  "load_u64 m a = le_word (rd m a 8)"

fun pm_run :: "pevent list \<Rightarrow> pmem \<Rightarrow> pmem" where
  "pm_run [] P = P"
| "pm_run (e # es) P = pm_run es (pm_step e P)"

text \<open>A machine that has just started on a memory all of which is persistent.\<close>

definition boot :: "mem \<Rightarrow> pmem" where
  "boot m = \<lparr>cur = m, pv = (\<lambda>_. [m]), fv = (\<lambda>_. [m]), trace = []\<rparr>"

section \<open>Power failures\<close>

definition crash_image :: "pmem \<Rightarrow> mem \<Rightarrow> bool" where
  "crash_image P img \<longleftrightarrow>
     (\<forall>l. \<exists>m \<in> set (pv P l). \<forall>a. line a = l \<longrightarrow> img a = m a)"

text \<open>A failure at some point of the steps taken since \<open>P\<close>, \<open>P'\<close> being the state after them.\<close>

definition crash_during :: "pmem \<Rightarrow> pmem \<Rightarrow> mem \<Rightarrow> bool" where
  "crash_during P P' img \<longleftrightarrow>
     (\<exists>k. crash_image (pm_run (take k (drop (length (trace P)) (trace P'))) P) img)"

definition wf_pm :: "pmem \<Rightarrow> bool" where
  "wf_pm P \<longleftrightarrow> (\<forall>l. cur P \<in> set (fv P l) \<and> set (fv P l) \<subseteq> set (pv P l))"

lemma wf_boot [simp]: "wf_pm (boot m)"
  by (simp add: wf_pm_def boot_def)

lemma cur_boot [simp]: "cur (boot m) = m"
  by (simp add: boot_def)

lemma pv_boot [simp]: "pv (boot m) l = [m]"
  by (simp add: boot_def)

lemma fv_boot [simp]: "fv (boot m) l = [m]"
  by (simp add: boot_def)

lemma cur_step [simp]:
  "cur (pm_step (Store a bs) P) = wr a bs (cur P)"
  "cur (pm_step (NTStore a bs) P) = wr a bs (cur P)"
  "cur (pm_step (Flush a) P) = cur P"
  "cur (pm_step Fence P) = cur P"
  by (simp_all add: Let_def)

lemma pv_step [simp]:
  "pv (pm_step (Store a bs) P) l = wr a bs (cur P) # pv P l"
  "pv (pm_step (NTStore a bs) P) l = wr a bs (cur P) # pv P l"
  "pv (pm_step (Flush a) P) l = pv P l"
  "pv (pm_step Fence P) l = fv P l"
  by (simp_all add: Let_def)

lemma fv_step [simp]:
  "fv (pm_step (Store a bs) P) l = wr a bs (cur P) # fv P l"
  "fv (pm_step (NTStore a bs) P) l =
     (if l \<in> set (lines_of a (length bs)) then [wr a bs (cur P)] else wr a bs (cur P) # fv P l)"
  "fv (pm_step (Flush a) P) l = (if l = line a then [cur P] else fv P l)"
  "fv (pm_step Fence P) l = fv P l"
  by (simp_all add: Let_def)

lemma trace_pm_step [simp]: "trace (pm_step e P) = trace P @ [e]"
  by (cases e) (auto simp: Let_def)

declare pm_step.simps [simp del]

lemma wf_pm_step: "wf_pm P \<Longrightarrow> wf_pm (pm_step e P)"
  by (cases e) (auto simp: wf_pm_def)

lemma wf_pm_run: "wf_pm P \<Longrightarrow> wf_pm (pm_run es P)"
  by (induction es arbitrary: P) (auto simp: wf_pm_step)

lemma pm_run_append [simp]: "pm_run (es @ fs) P = pm_run fs (pm_run es P)"
  by (induction es arbitrary: P) auto

lemma trace_pm_run [simp]: "trace (pm_run es P) = trace P @ es"
  by (induction es arbitrary: P) auto

lemma crash_image_cur: "wf_pm P \<Longrightarrow> crash_image P (cur P)"
  unfolding crash_image_def wf_pm_def by blast

section \<open>Predicates that hold at every step\<close>

fun throughout :: "(pmem \<Rightarrow> bool) \<Rightarrow> pevent list \<Rightarrow> pmem \<Rightarrow> bool" where
  "throughout I [] P = I P"
| "throughout I (e # es) P = (I P \<and> throughout I es (pm_step e P))"

lemma throughout_start: "throughout I es P \<Longrightarrow> I P"
  by (cases es) auto

lemma throughout_end: "throughout I es P \<Longrightarrow> I (pm_run es P)"
  by (induction es arbitrary: P) auto

lemma throughout_append:
  "throughout I (es @ fs) P \<longleftrightarrow> throughout I es P \<and> throughout I fs (pm_run es P)"
  by (induction es arbitrary: P) (auto simp: throughout_start)

lemma throughout_take: "throughout I es P \<Longrightarrow> I (pm_run (take k es) P)"
proof (induction es arbitrary: P k)
  case Nil
  then show ?case by simp
next
  case (Cons e es)
  then show ?case by (cases k) auto
qed

lemma throughout_mono: "throughout I es P \<Longrightarrow> (\<And>Q. I Q \<Longrightarrow> J Q) \<Longrightarrow> throughout J es P"
  by (induction es arbitrary: P) auto

definition safe_run :: "(pmem \<Rightarrow> bool) \<Rightarrow> pmem \<Rightarrow> pmem \<Rightarrow> bool" where
  "safe_run I P P' \<longleftrightarrow> (\<exists>es. P' = pm_run es P \<and> throughout I es P)"

lemma safe_run_refl [intro]: "I P \<Longrightarrow> safe_run I P P"
  unfolding safe_run_def by (rule exI [of _ "[]"]) simp

lemma safe_run_step: "I P \<Longrightarrow> I (pm_step e P) \<Longrightarrow> safe_run I P (pm_step e P)"
  unfolding safe_run_def by (rule exI [of _ "[e]"]) simp

lemma safe_run_trans [trans]: "safe_run I P Q \<Longrightarrow> safe_run I Q R \<Longrightarrow> safe_run I P R"
  unfolding safe_run_def by (metis pm_run_append throughout_append)

lemma safe_run_mono: "safe_run I P Q \<Longrightarrow> (\<And>R. I R \<Longrightarrow> J R) \<Longrightarrow> safe_run J P Q"
  unfolding safe_run_def using throughout_mono by blast

lemma safe_run_end: "safe_run I P Q \<Longrightarrow> I Q"
  unfolding safe_run_def using throughout_end by blast

lemma safe_run_start: "safe_run I P Q \<Longrightarrow> I P"
  unfolding safe_run_def using throughout_start by blast

lemma safe_run_crash:
  assumes "safe_run I P P'" and "crash_during P P' img"
  obtains Q where "I Q" and "crash_image Q img"
proof -
  from assms(1) obtain es where es: "P' = pm_run es P" "throughout I es P"
    unfolding safe_run_def by blast
  from assms(2) obtain k where "crash_image (pm_run (take k es) P) img"
    unfolding crash_during_def es(1) by auto
  with throughout_take [OF es(2)] that show thesis by blast
qed

section \<open>Effect of the compound stores\<close>

lemma cur_store_bytes [simp]:
  "length bs < 18446744073709551616 \<Longrightarrow> cur (store_bytes a bs P) = wr a bs (cur P)"
proof (induction bs arbitrary: a P)
  case Nil
  then show ?case by simp
next
  case (Cons b bs)
  then show ?case by (simp add: wr_Cons [of bs a b])
qed

lemma cur_store_u64 [simp]: "cur (store_u64 a w P) = wr a (le_bytes 8 w) (cur P)"
  unfolding store_u64_def by (simp del: le_bytes.simps)

lemma cur_flush [simp]:
  "cur (pmem_flush a P) = cur P"
  "cur (pmem_flush_invalidate a P) = cur P"
  "cur (pmem_drain P) = cur P"
  by (simp_all add: pmem_flush_def pmem_flush_invalidate_def pmem_drain_def)

lemma wf_store_bytes: "wf_pm P \<Longrightarrow> wf_pm (store_bytes a bs P)"
  by (induction bs arbitrary: a P) (auto simp: wf_pm_step)

lemma safe_run_store_bytes:
  assumes "I P" and "\<And>Q x. I Q \<Longrightarrow> x < length bs \<Longrightarrow> I (pm_step (Store (a + of_nat x) [bs ! x]) Q)"
  shows "safe_run I P (store_bytes a bs P)"
  using assms
proof (induction bs arbitrary: a P)
  case Nil
  then show ?case by auto
next
  case (Cons b bs)
  have I1: "I (pm_step (Store a [b]) P)"
    using Cons.prems(2) [of P 0] Cons.prems(1) by simp
  have "safe_run I (pm_step (Store a [b]) P) (store_bytes (a + 1) bs (pm_step (Store a [b]) P))"
  proof (rule Cons.IH [OF I1])
    fix Q x
    assume "I Q" and "x < length bs"
    then show "I (pm_step (Store (a + 1 + of_nat x) [bs ! x]) Q)"
      using Cons.prems(2) [of Q "Suc x"] by (simp add: add.assoc)
  qed
  with safe_run_step [OF Cons.prems(1) I1] show ?case
    unfolding store_bytes.simps by (rule safe_run_trans)
qed

lemma load_store_u64: "load_u64 (wr a (le_bytes 8 w) m) a = w"
  unfolding load_u64_def using rd_wr_same [of "le_bytes 8 w" a m]
  by (simp del: le_bytes.simps)

section \<open>Cache lines\<close>

lemma unat_line [word_nat]: "unat (line a) = unat a div 64"
  unfolding line_def by (simp add: unat_drop_bit_eq drop_bit_eq_div unat_div)

lemma line_eq_iff: "line a = line b \<longleftrightarrow> unat a div 64 = unat b div 64"
  by (simp add: word_eq_iff_unat unat_line)

text \<open>The bytes of the line that starts at an aligned address.\<close>

lemma line_window:
  assumes "unat e mod 64 = 0"
  shows "line x = line e \<longleftrightarrow> unat (x - e) < 64"
proof -
  from assms obtain q where q: "unat e = 64 * q" by auto
  have e: "unat e + 64 \<le> 18446744073709551616"
    using unat_u64_less [of e] q by simp
  have "unat x div 64 = q \<longleftrightarrow> 64 * q \<le> unat x \<and> unat x < 64 * q + 64"
    by (rule div_eq_iff_nat) simp
  then show ?thesis using window_iff [OF e] q by (simp add: line_eq_iff)
qed

text \<open>Fields of a line-sized structure read the same in two memories that agree on its line.\<close>

lemma rd_line_cong:
  assumes e: "unat e mod 64 = 0" and k: "k + n \<le> 64"
    and agree: "\<And>x. line x = line e \<Longrightarrow> m x = m' x"
  shows "rd m (e + of_nat k) n = rd m' (e + of_nat k) n"
proof (rule rd_cong)
  fix i
  assume "i < n"
  then have "unat (of_nat (k + i) :: u64) < 64"
    using k by (simp only: unat_of_nat_small)
  then have "line (e + of_nat k + of_nat i) = line e"
    using line_window [OF e, of "e + of_nat k + of_nat i"] by (simp add: add.assoc)
  then show "m (e + of_nat k + of_nat i) = m' (e + of_nat k + of_nat i)"
    by (rule agree)
qed

end
