(* ===== verification/Memset_NT.thy ===== *)
theory Memset_NT
  imports Pmem
begin

text \<open>
  \<^verbatim>\<open>src/src/undo/memset_nt_avx.cc\<close>: the non-temporal \<open>memset\<close> behind \<open>pmem_memset\<close>. Vector
  registers are byte lists; every intrinsic store is one step of the persistent memory. The
  theorems show that the routine, with its unrolled blocks, its head and tail pieces and its
  overlapping stores, fills exactly the window it is asked to fill, and that on line-aligned
  input every line it fills is durable after the next fence.
\<close>

section \<open>The code\<close>

type_synonym m256i = "byte list"

definition m256_get16b :: "m256i \<Rightarrow> byte list" where
  "m256_get16b ymm = take 16 ymm"

definition m256_get8b :: "m256i \<Rightarrow> byte list" where
  "m256_get8b ymm = take 8 ymm"

definition m256_get4b :: "m256i \<Rightarrow> byte list" where
  "m256_get4b ymm = take 4 ymm"

definition m256_get2b :: "m256i \<Rightarrow> byte list" where
  "m256_get2b ymm = take 2 ymm"

text \<open>The \<open>i\<close>-th \<^verbatim>\<open>_mm256_stream_si256((__m256i *)dest + i, ymm)\<close> of an unrolled block.\<close>

definition stream_si256 :: "addr \<Rightarrow> m256i \<Rightarrow> nat \<Rightarrow> pmem \<Rightarrow> pmem" where
  "stream_si256 dest ymm i P = pm_step (NTStore (dest + of_nat (32 * i)) ymm) P"

definition memset_movnt8x64b :: "addr \<Rightarrow> m256i \<Rightarrow> pmem \<Rightarrow> pmem" where
  "memset_movnt8x64b dest ymm P = fold (stream_si256 dest ymm) [0..<16] P"

definition memset_movnt4x64b :: "addr \<Rightarrow> m256i \<Rightarrow> pmem \<Rightarrow> pmem" where
  "memset_movnt4x64b dest ymm P = fold (stream_si256 dest ymm) [0..<8] P"

definition memset_movnt2x64b :: "addr \<Rightarrow> m256i \<Rightarrow> pmem \<Rightarrow> pmem" where
  "memset_movnt2x64b dest ymm P = fold (stream_si256 dest ymm) [0..<4] P"

definition memset_movnt1x64b :: "addr \<Rightarrow> m256i \<Rightarrow> pmem \<Rightarrow> pmem" where
  "memset_movnt1x64b dest ymm P = fold (stream_si256 dest ymm) [0..<2] P"

definition memset_movnt1x32b :: "addr \<Rightarrow> m256i \<Rightarrow> pmem \<Rightarrow> pmem" where
  "memset_movnt1x32b dest ymm P = pm_step (NTStore dest ymm) P"

definition memset_movnt1x16b :: "addr \<Rightarrow> m256i \<Rightarrow> pmem \<Rightarrow> pmem" where
  "memset_movnt1x16b dest ymm P = pm_step (NTStore dest (m256_get16b ymm)) P"

definition memset_movnt1x8b :: "addr \<Rightarrow> m256i \<Rightarrow> pmem \<Rightarrow> pmem" where
  "memset_movnt1x8b dest ymm P = pm_step (NTStore dest (m256_get8b ymm)) P"

definition memset_movnt1x4b :: "addr \<Rightarrow> m256i \<Rightarrow> pmem \<Rightarrow> pmem" where
  "memset_movnt1x4b dest ymm P = pm_step (NTStore dest (m256_get4b ymm)) P"

text \<open>
  The assertion \<open>len <= 64\<close> of \<open>memset_small_avx\<close> holds at both calls: the head piece ends at the next line, and the stages of
  \<open>memset_movnt_avx\<close> leave less than a line.
\<close>

definition memset_small_avx :: "addr \<Rightarrow> m256i \<Rightarrow> nat \<Rightarrow> pmem \<Rightarrow> pmem" where
  "memset_small_avx dest ymm len P =
     (if len \<le> 8 then
        (if len \<le> 2 then
           (if len = 2 then pm_step (Store dest (m256_get2b ymm)) P
            else pm_step (Store dest (take 1 (m256_get2b ymm))) P)
         else if len > 4 then
           pm_step (Store (dest + of_nat len - 4) (m256_get4b ymm))
             (pm_step (Store dest (m256_get4b ymm)) P)
         else
           pm_step (Store (dest + of_nat len - 2) (m256_get2b ymm))
             (pm_step (Store dest (m256_get2b ymm)) P))
      else if len \<le> 32 then
        (if len > 16 then
           pm_step (Store (dest + of_nat len - 16) (m256_get16b ymm))
             (pm_step (Store dest (m256_get16b ymm)) P)
         else
           pm_step (Store (dest + of_nat len - 8) (m256_get8b ymm))
             (pm_step (Store dest (m256_get8b ymm)) P))
      else
        pm_step (Store (dest + of_nat len - 32) ymm) (pm_step (Store dest ymm) P))"

definition util_is_pow2 :: "u64 \<Rightarrow> bool" where
  "util_is_pow2 v \<longleftrightarrow> v \<noteq> 0 \<and> (v AND (v - 1)) = 0"

text \<open>
  \<open>dest\<close>, \<open>len\<close> and the memory are updated together by the stages of the routine. The head
  piece runs up to the next line boundary.
\<close>

type_synonym mstate = "addr \<times> nat \<times> pmem"

fun memset_head :: "m256i \<Rightarrow> mstate \<Rightarrow> mstate" where
  "memset_head ymm (dest, len, P) =
     (let cnt0 = unat (dest AND 63) in
      if cnt0 > 0
      then let cnt = (if 64 - cnt0 > len then len else 64 - cnt0)
           in (dest + of_nat cnt, len - cnt, memset_small_avx dest ymm cnt P)
      else (dest, len, P))"

text \<open>The \<open>while (len >= 8 * 64)\<close> loop.\<close>

function memset_blocks :: "m256i \<Rightarrow> mstate \<Rightarrow> mstate" where
  "memset_blocks ymm (dest, len, P) =
     (if len \<ge> 8 * 64 then
        memset_blocks ymm (dest + 8 * 64, len - 8 * 64, memset_movnt8x64b dest ymm P)
      else (dest, len, P))"
  by pat_completeness auto
termination
  by (relation "measure (\<lambda>(ymm, dest, len, P). len)") auto

declare memset_blocks.simps [simp del]

text \<open>One \<open>if (len >= n * 64)\<close> stage with the unrolled block \<open>f\<close>.\<close>

fun memset_stage :: "nat \<Rightarrow> (addr \<Rightarrow> m256i \<Rightarrow> pmem \<Rightarrow> pmem) \<Rightarrow> m256i \<Rightarrow> mstate \<Rightarrow> mstate" where
  "memset_stage n f ymm (dest, len, P) =
     (if len \<ge> n * 64 then (dest + of_nat (n * 64), len - n * 64, f dest ymm P)
      else (dest, len, P))"

text \<open>The code from \<^verbatim>\<open>if (len == 0) goto end\<close> on.\<close>

fun memset_rest :: "m256i \<Rightarrow> mstate \<Rightarrow> pmem" where
  "memset_rest ymm (dest, len, P) =
     (if len = 0 then P
      else if util_is_pow2 (of_nat len) \<and> len = 32 then memset_movnt1x32b dest ymm P
      else if util_is_pow2 (of_nat len) \<and> len = 16 then memset_movnt1x16b dest ymm P
      else if util_is_pow2 (of_nat len) \<and> len = 8 then memset_movnt1x8b dest ymm P
      else if util_is_pow2 (of_nat len) \<and> len = 4 then memset_movnt1x4b dest ymm P
      else memset_small_avx dest ymm len P)"

definition memset_movnt_avx :: "addr \<Rightarrow> u32 \<Rightarrow> nat \<Rightarrow> pmem \<Rightarrow> pmem" where
  "memset_movnt_avx dest c len P =
     (let ymm = replicate 32 (ucast c) in
      memset_rest ymm
        (memset_stage 1 memset_movnt1x64b ymm
          (memset_stage 2 memset_movnt2x64b ymm
            (memset_stage 4 memset_movnt4x64b ymm
              (memset_blocks ymm
                (memset_head ymm (dest, len, P)))))))"

section \<open>Filling a window\<close>

definition fill :: "addr \<Rightarrow> nat \<Rightarrow> byte \<Rightarrow> mem \<Rightarrow> mem" where
  "fill a n c m = wr a (replicate n c) m"

lemma fill_apply: "fill a n c m x = (if unat (x - a) < n then c else m x)"
  by (simp add: fill_def wr_def)

lemma fill_0 [simp]: "fill a 0 c m = m"
  by (simp add: fill_def)

text \<open>Two stores of the same byte whose windows touch or overlap fill the joined window.\<close>

lemma fill_fill:
  assumes "k \<le> j" and "j \<le> k + n" and "k + n < 18446744073709551616"
  shows "fill (a + of_nat k) n c (fill a j c m) = fill a (k + n) c m"
proof
  fix x
  show "fill (a + of_nat k) n c (fill a j c m) x = fill a (k + n) c m x"
    using assms by (auto simp: fill_apply unat_window_shift)
qed

lemma fill_adjacent:
  assumes "k + n < 18446744073709551616"
  shows "fill (a + of_nat k) n c (fill a k c m) = fill a (k + n) c m"
  using assms by (intro fill_fill) auto

lemma cur_store_fill:
  "cur (pm_step (Store a (replicate n c)) P) = fill a n c (cur P)"
  "cur (pm_step (NTStore a (replicate n c)) P) = fill a n c (cur P)"
  by (simp_all add: fill_def)

lemma cur_stream: "cur (stream_si256 a (replicate 32 c) i P) = fill (a + of_nat (32 * i)) 32 c (cur P)"
  by (simp add: stream_si256_def fill_def)

lemma cur_stream_fold:
  assumes "32 * k < 18446744073709551616"
  shows "cur (fold (stream_si256 a (replicate 32 c)) [0..<k] P) = fill a (32 * k) c (cur P)"
  using assms
proof (induction k)
  case 0
  then show ?case by simp
next
  case (Suc k)
  then have "cur (fold (stream_si256 a (replicate 32 c)) [0..<Suc k] P) =
      fill (a + of_nat (32 * k)) 32 c (fill a (32 * k) c (cur P))"
    unfolding upt_Suc_append [OF le0] fold_append comp_def
    by (simp add: cur_stream)
  then show ?case
    using fill_adjacent [of "32 * k" 32 a c "cur P"] Suc.prems by (simp add: ac_simps)
qed

lemma get_fill:
  "m256_get16b (replicate 32 c) = replicate 16 c"
  "m256_get8b (replicate 32 c) = replicate 8 c"
  "m256_get4b (replicate 32 c) = replicate 4 c"
  "m256_get2b (replicate 32 c) = replicate 2 c"
  by (simp_all add: m256_get16b_def m256_get8b_def m256_get4b_def m256_get2b_def take_replicate)

lemma two_overlapping:
  assumes "n \<le> len" and "len \<le> 2 * n" and "len \<le> 64"
  shows "cur (pm_step (Store (a + of_nat len - of_nat n) (replicate n c))
           (pm_step (Store a (replicate n c)) P)) = fill a len c (cur P)"
proof -
  have "a + of_nat len - of_nat n = a + of_nat (len - n)"
    using assms(1) by (simp add: of_nat_diff)
  then show ?thesis
    using fill_fill [of "len - n" n n a c "cur P"] assms
    by (simp only: cur_store_fill) simp
qed

lemma cur_memset_small:
  assumes "0 < len" and "len \<le> 64"
  shows "cur (memset_small_avx a (replicate 32 c) len P) = fill a len c (cur P)"
proof -
  consider "len = 1" | "len = 2" | "3 \<le> len" "len \<le> 4" | "5 \<le> len" "len \<le> 8"
    | "9 \<le> len" "len \<le> 16" | "17 \<le> len" "len \<le> 32" | "33 \<le> len" "len \<le> 64"
    using assms by linarith
  then show ?thesis
  proof cases
    case 1
    have "take 1 (replicate 2 c) = replicate 1 c"
      by (simp add: take_replicate)
    with 1 show ?thesis
      unfolding memset_small_avx_def get_fill by (simp add: fill_def)
  next
    case 2
    then show ?thesis
      unfolding memset_small_avx_def get_fill by (simp add: fill_def)
  next
    case 3
    then show ?thesis
      unfolding memset_small_avx_def get_fill
      using two_overlapping [of 2 len a c P] by simp
  next
    case 4
    then show ?thesis
      unfolding memset_small_avx_def get_fill
      using two_overlapping [of 4 len a c P] by simp
  next
    case 5
    then show ?thesis
      unfolding memset_small_avx_def get_fill
      using two_overlapping [of 8 len a c P] by simp
  next
    case 6
    then show ?thesis
      unfolding memset_small_avx_def get_fill
      using two_overlapping [of 16 len a c P] by simp
  next
    case 7
    then show ?thesis
      unfolding memset_small_avx_def get_fill
      using two_overlapping [of 32 len a c P] by simp
  qed
qed


section \<open>The whole routine\<close>

text \<open>What every stage keeps: the first \<open>L - l\<close> bytes are filled and \<open>d\<close> points past them.\<close>

definition filled_upto :: "addr \<Rightarrow> nat \<Rightarrow> byte \<Rightarrow> mem \<Rightarrow> mstate \<Rightarrow> bool" where
  "filled_upto a L c m = (\<lambda>(d, l, P). l \<le> L \<and> d = a + of_nat (L - l) \<and> cur P = fill a (L - l) c m)"

lemma filled_upto_step:
  assumes "filled_upto a L c m (d, l, P)" and "n \<le> l" and "L < 18446744073709551616"
    and "cur P' = fill d n c (cur P)"
  shows "filled_upto a L c m (d + of_nat n, l - n, P')"
proof -
  from assms(1) have l: "l \<le> L" and d: "d = a + of_nat (L - l)" and P: "cur P = fill a (L - l) c m"
    by (auto simp: filled_upto_def)
  have n: "L - (l - n) = (L - l) + n" using assms(2) l by simp
  have "cur P' = fill a (L - l + n) c m"
    using fill_adjacent [of "L - l" n a c m] assms(2,3,4) d P l by simp
  then show ?thesis using l n d by (simp add: filled_upto_def)
qed

lemma filled_upto_streams:
  assumes "filled_upto a L c m (d, l, P)" and "L < 18446744073709551616" and "32 * k \<le> l"
  shows "filled_upto a L c m
           (d + of_nat (32 * k), l - 32 * k, fold (stream_si256 d (replicate 32 c)) [0..<k] P)"
proof (rule filled_upto_step [OF assms(1,3,2)])
  have "l \<le> L" using assms(1) by (simp add: filled_upto_def)
  with assms(2,3) show "cur (fold (stream_si256 d (replicate 32 c)) [0..<k] P) = fill d (32 * k) c (cur P)"
    by (intro cur_stream_fold) linarith
qed

lemma filled_upto_blocks:
  assumes "filled_upto a L c m s" and "L < 18446744073709551616"
  shows "filled_upto a L c m (memset_blocks (replicate 32 c) s)"
  using assms(1)
proof (induction "replicate 32 c" s rule: memset_blocks.induct)
  case (1 d l P)
  show ?case
  proof (cases "l \<ge> 8 * 64")
    case True
    with filled_upto_streams [OF "1.prems" assms(2), of 16]
    have "filled_upto a L c m (d + 8 * 64, l - 8 * 64, memset_movnt8x64b d (replicate 32 c) P)"
      by (simp add: memset_movnt8x64b_def)
    with "1.hyps" True show ?thesis by (simp add: memset_blocks.simps [of _ d])
  next
    case False
    with "1.prems" show ?thesis by (simp add: memset_blocks.simps [of _ d])
  qed
qed

lemma memset_blocks_rest: "fst (snd (memset_blocks ymm s)) < 512"
  by (induction ymm s rule: memset_blocks.induct) (subst memset_blocks.simps, simp)

lemma filled_upto_stage:
  assumes "filled_upto a L c m s" and "L < 18446744073709551616"
    and f: "\<And>d P. f d (replicate 32 c) P = fold (stream_si256 d (replicate 32 c)) [0..<2 * n] P"
  shows "filled_upto a L c m (memset_stage n f (replicate 32 c) s)"
proof -
  obtain d l P where s: "s = (d, l, P)" by (cases s) auto
  show ?thesis
  proof (cases "n * 64 \<le> l")
    case True
    with filled_upto_streams [of a L c m d l P "2 * n"] assms(1,2)
    show ?thesis by (simp add: s f ac_simps)
  next
    case False
    with assms(1) show ?thesis by (simp add: s)
  qed
qed

lemma memset_stage_rest:
  "fst (snd s) < 2 * n * 64 \<Longrightarrow> fst (snd (memset_stage n f ymm s)) < n * 64"
  by (cases s) auto

lemma filled_upto_rest:
  assumes "filled_upto a L c m s" and "L < 18446744073709551616" and "fst (snd s) < 64"
  shows "cur (memset_rest (replicate 32 c) s) = fill a L c m"
proof -
  obtain d l P where s: "s = (d, l, P)" by (cases s) auto
  have "cur (memset_rest (replicate 32 c) s) = fill d l c (cur P)"
    using assms(3) unfolding s
    by (simp add: cur_memset_small memset_movnt1x32b_def memset_movnt1x16b_def
        memset_movnt1x8b_def memset_movnt1x4b_def get_fill fill_def [symmetric])
  then have "filled_upto a L c m (d + of_nat l, l - l, memset_rest (replicate 32 c) s)"
    using filled_upto_step [of a L c m d l P l] assms(1,2) s by simp
  then show ?thesis by (simp add: filled_upto_def)
qed

lemma unat_and_63: "unat (a AND 63) = unat (a :: u64) mod 64"
proof -
  have "a AND 63 = take_bit 6 a"
    by (simp add: take_bit_eq_mask mask_eq_exp_minus_1)
  then show ?thesis
    by (simp add: take_bit_eq_mod unat_mod)
qed

lemma filled_upto_head:
  assumes "L < 18446744073709551616" and "unat a mod 64 = 0 \<or> 0 < L"
  shows "filled_upto a L c (cur P) (memset_head (replicate 32 c) (a, L, P))"
proof (cases "unat a mod 64 > 0")
  case True
  define cnt where "cnt = (if 64 - unat a mod 64 > L then L else 64 - unat a mod 64)"
  have start: "filled_upto a L c (cur P) (a, L, P)"
    by (simp add: filled_upto_def)
  have "unat a mod 64 < 64" by simp
  then have "0 < cnt" "cnt \<le> 64" "cnt \<le> L"
    using assms(2) True by (auto simp: cnt_def)
  with filled_upto_step [OF start _ assms(1) cur_memset_small] True show ?thesis
    by (simp add: cnt_def Let_def unat_and_63)
next
  case False
  then show ?thesis by (simp add: filled_upto_def unat_and_63 Let_def)
qed

lemma memset_movnt_avx_fill:
  assumes "len < 2 ^ 64" and "unat dest mod 64 = 0 \<or> 0 < len"
  shows "cur (memset_movnt_avx dest c len P) = fill dest len (ucast c) (cur P)"
proof -
  let ?b = "ucast c :: byte" and ?m = "cur P"
  let ?y = "replicate 32 ?b"
  have len: "len < 18446744073709551616" using assms(1) by simp
  define s2 where "s2 = memset_blocks ?y (memset_head ?y (dest, len, P))"
  define s3 where "s3 = memset_stage 4 memset_movnt4x64b ?y s2"
  define s4 where "s4 = memset_stage 2 memset_movnt2x64b ?y s3"
  define s5 where "s5 = memset_stage 1 memset_movnt1x64b ?y s4"
  have f2: "filled_upto dest len ?b ?m s2"
    unfolding s2_def by (intro filled_upto_blocks filled_upto_head len assms(2))
  have f3: "filled_upto dest len ?b ?m s3"
    unfolding s3_def by (rule filled_upto_stage [OF f2 len]) (simp add: memset_movnt4x64b_def)
  have f4: "filled_upto dest len ?b ?m s4"
    unfolding s4_def by (rule filled_upto_stage [OF f3 len]) (simp add: memset_movnt2x64b_def)
  have f5: "filled_upto dest len ?b ?m s5"
    unfolding s5_def by (rule filled_upto_stage [OF f4 len]) (simp add: memset_movnt1x64b_def)
  have "fst (snd s2) < 2 * 4 * 64" unfolding s2_def using memset_blocks_rest by simp
  from memset_stage_rest [OF this] have "fst (snd s3) < 2 * 2 * 64" unfolding s3_def by simp
  from memset_stage_rest [OF this] have "fst (snd s4) < 2 * 1 * 64" unfolding s4_def by simp
  from memset_stage_rest [OF this] have "fst (snd s5) < 64" unfolding s5_def by simp
  with filled_upto_rest [OF f5 len] show ?thesis
    by (simp add: memset_movnt_avx_def s2_def s3_def s4_def s5_def Let_def)
qed

text \<open>
  C14. \<open>memset_movnt_avx\<close> writes the byte \<open>c\<close> to the \<open>len\<close> bytes from \<open>dest\<close> and to no
  other byte, for every alignment of \<open>dest\<close> and every length, except length 0 at an unaligned
  address.
\<close>

theorem memset_movnt_avx_fills:
  assumes "len < 2 ^ 64" and "unat dest mod 64 = 0 \<or> 0 < len"
  shows "cur (memset_movnt_avx dest c len P) =
           (\<lambda>x. if unat (x - dest) < len then ucast c else cur P x)"
  using memset_movnt_avx_fill [OF assms] by (simp add: fill_apply fun_eq_iff)


text \<open>
  The hypotheses hold for an unaligned 200-byte fill: head piece, two-line block and tail.
\<close>

theorem memset_movnt_avx_fills_witness:
  "(200::nat) < 2 ^ 64 \<and> (unat (4100 :: addr) mod 64 = 0 \<or> 0 < (200::nat)) \<and>
   cur (memset_movnt_avx 4100 7 200 (boot (\<lambda>_. 0))) 4299 = 7 \<and>
   cur (memset_movnt_avx 4100 7 200 (boot (\<lambda>_. 0))) 4300 = 0"
proof -
  have h: "(200::nat) < 2 ^ 64" "unat (4100 :: addr) mod 64 = 0 \<or> 0 < (200::nat)" by simp_all
  show ?thesis using h memset_movnt_avx_fills [OF h, of 7 "boot (\<lambda>_. 0)"] by simp
qed

text \<open>
  Length 0 at an unaligned address is the exception: the head piece calls
  \<open>memset_small_avx\<close> with length 0, whose last branch stores one byte, so a fill of nothing
  overwrites the byte at \<open>dest\<close>.
\<close>

theorem memset_movnt_avx_zero_length_writes:
  assumes "unat dest mod 64 \<noteq> 0"
  shows "cur (memset_movnt_avx dest c 0 P) = (cur P)(dest := ucast c)"
proof -
  have "cur (memset_small_avx dest (replicate 32 (ucast c)) 0 P) = (cur P)(dest := ucast c)"
    by (simp add: memset_small_avx_def get_fill wr_single numeral_2_eq_2)
  with assms show ?thesis
    by (simp add: memset_movnt_avx_def Let_def unat_and_63 memset_blocks.simps)
qed

theorem memset_movnt_avx_zero_length_writes_witness:
  "unat (4100 :: addr) mod 64 \<noteq> 0 \<and>
   cur (memset_movnt_avx 4100 7 0 (boot (\<lambda>_. 0))) = (\<lambda>_. 0)(4100 := 7)"
proof -
  have h: "unat (4100 :: addr) mod 64 \<noteq> 0" by simp
  show ?thesis using h memset_movnt_avx_zero_length_writes [OF h, of 7 "boot (\<lambda>_. 0)"] by simp
qed

section \<open>Durability on whole lines\<close>

definition durable_upto :: "addr \<Rightarrow> nat \<Rightarrow> byte \<Rightarrow> mstate \<Rightarrow> bool" where
  "durable_upto a L c = (\<lambda>(d, l, P).
     \<forall>x. unat (x - a) < L - l \<longrightarrow> (\<forall>m \<in> set (fv P (line x)). m x = c))"

lemma line_in_lines_of: "unat (x - a) < n \<Longrightarrow> line x \<in> set (lines_of a n)"
  unfolding lines_of_def by (auto intro!: image_eqI [of _ _ "unat (x - a)"])

lemma durable_streams:
  assumes "\<And>x. unat (x - a) < n \<Longrightarrow> (\<forall>m \<in> set (fv P (line x)). m x = c)"
    and "\<And>x. unat (x - a) < n \<Longrightarrow> cur P x = c"
    and "n + 32 * k < 18446744073709551616" and "unat (x - a) < n + 32 * k"
  shows "\<forall>m \<in> set (fv (fold (stream_si256 (a + of_nat n) (replicate 32 c)) [0..<k] P) (line x)). m x = c"
  using assms(3,4)
proof (induction k)
  case 0
  then show ?case using assms(1) by simp
next
  case (Suc k)
  let ?Q = "fold (stream_si256 (a + of_nat n) (replicate 32 c)) [0..<k] P"
  let ?d = "a + of_nat n + of_nat (32 * k)"
  have step: "fold (stream_si256 (a + of_nat n) (replicate 32 c)) [0..<Suc k] P =
      pm_step (NTStore ?d (replicate 32 c)) ?Q"
    by (simp add: stream_si256_def)
  have "cur ?Q = fill (a + of_nat n) (32 * k) c (cur P)"
    using Suc.prems by (intro cur_stream_fold) simp
  then have cur: "wr ?d (replicate 32 c) (cur ?Q) x = c"
    if "unat (x - a) < n + 32 * Suc k"
  proof -
    have "wr ?d (replicate 32 c) (cur ?Q) = fill (a + of_nat n) (32 * k + 32) c (cur P)"
      using fill_adjacent [of "32 * k" 32 "a + of_nat n" c "cur P"] Suc.prems(1)
        \<open>cur ?Q = _\<close> by (simp add: fill_def)
    then show ?thesis
      using that assms(2) [of x] Suc.prems(1) window_split [of n "32 * k + 32" x a]
      by (auto simp: fill_apply)
  qed
  show ?case
  proof (cases "unat (x - a) < n + 32 * k")
    case True
    with Suc.IH Suc.prems cur show ?thesis unfolding step by auto
  next
    case False
    then have "unat (x - (a + of_nat (n + 32 * k))) < 32"
      using Suc.prems window_split [of "n + 32 * k" 32 x a] by simp
    then have "unat (x - ?d) < 32"
      by (simp only: of_nat_add add.assoc)
    then have "line x \<in> set (lines_of ?d 32)" by (rule line_in_lines_of)
    with cur Suc.prems(2) show ?thesis unfolding step by simp
  qed
qed


lemma durable_stage_streams:
  assumes "durable_upto a L c (d, l, P)" and "filled_upto a L c m (d, l, P)"
    and "L < 18446744073709551616" and "32 * k \<le> l"
  shows "durable_upto a L c
           (d + of_nat (32 * k), l - 32 * k, fold (stream_si256 d (replicate 32 c)) [0..<k] P)"
proof -
  from assms(2) have l: "l \<le> L" and d: "d = a + of_nat (L - l)" and P: "cur P = fill a (L - l) c m"
    by (auto simp: filled_upto_def)
  have n: "L - (l - 32 * k) = (L - l) + 32 * k" using assms(4) l by simp
  have "\<forall>m \<in> set (fv (fold (stream_si256 (a + of_nat (L - l)) (replicate 32 c)) [0..<k] P) (line x)). m x = c"
    if "unat (x - a) < (L - l) + 32 * k" for x
  proof (rule durable_streams)
    show "\<forall>m \<in> set (fv P (line y)). m y = c" if "unat (y - a) < L - l" for y
      using that assms(1) by (simp add: durable_upto_def)
    show "cur P y = c" if "unat (y - a) < L - l" for y
      using that P by (simp add: fill_apply)
  qed (use that assms(3,4) l in auto)
  then show ?thesis by (simp add: durable_upto_def n d)
qed

lemma durable_blocks:
  assumes "durable_upto a L c s" and "filled_upto a L c m s" and "L < 18446744073709551616"
  shows "durable_upto a L c (memset_blocks (replicate 32 c) s)"
  using assms(1,2)
proof (induction "replicate 32 c" s rule: memset_blocks.induct)
  case (1 d l P)
  show ?case
  proof (cases "l \<ge> 8 * 64")
    case True
    with durable_stage_streams [OF "1.prems" assms(3), of 16] filled_upto_streams [OF "1.prems"(2) assms(3), of 16]
    have "durable_upto a L c (d + 8 * 64, l - 8 * 64, memset_movnt8x64b d (replicate 32 c) P)"
      and "filled_upto a L c m (d + 8 * 64, l - 8 * 64, memset_movnt8x64b d (replicate 32 c) P)"
      by (simp_all add: memset_movnt8x64b_def)
    with "1.hyps" True show ?thesis by (simp add: memset_blocks.simps [of _ d])
  next
    case False
    with "1.prems" show ?thesis by (simp add: memset_blocks.simps [of _ d])
  qed
qed

lemma durable_stage:
  assumes "durable_upto a L c s" and "filled_upto a L c m s" and "L < 18446744073709551616"
    and f: "\<And>d P. f d (replicate 32 c) P = fold (stream_si256 d (replicate 32 c)) [0..<2 * n] P"
  shows "durable_upto a L c (memset_stage n f (replicate 32 c) s)"
proof -
  obtain d l P where s: "s = (d, l, P)" by (cases s) auto
  show ?thesis
  proof (cases "n * 64 \<le> l")
    case True
    with durable_stage_streams [of a L c d l P m "2 * n"] assms(1,2,3)
    show ?thesis by (simp add: s f ac_simps)
  next
    case False
    with assms(1) show ?thesis by (simp add: s)
  qed
qed


text \<open>
  On whole aligned lines the routine is a sequence of 32-byte non-temporal stores inside the
  window: a predicate that each such store keeps holds at every point of the run.
\<close>

definition safe_upto :: "(pmem \<Rightarrow> bool) \<Rightarrow> pmem \<Rightarrow> addr \<Rightarrow> nat \<Rightarrow> mstate \<Rightarrow> bool" where
  "safe_upto I P0 a L = (\<lambda>(d, l, P).
     l \<le> L \<and> d = a + of_nat (L - l) \<and> l mod 64 = 0 \<and> L mod 64 = 0 \<and> safe_run I P0 P)"

lemma safe_streams:
  assumes "I P" and "\<And>Q i. I Q \<Longrightarrow> i < k \<Longrightarrow> I (pm_step (NTStore (d + of_nat (32 * i)) ymm) Q)"
  shows "safe_run I P (fold (stream_si256 d ymm) [0..<k] P)"
  using assms(2)
proof (induction k)
  case 0
  then show ?case using assms(1) by auto
next
  case (Suc k)
  then have "safe_run I P (fold (stream_si256 d ymm) [0..<k] P)" by simp
  moreover from safe_run_end [OF this] Suc.prems
  have "safe_run I (fold (stream_si256 d ymm) [0..<k] P) (fold (stream_si256 d ymm) [0..<Suc k] P)"
    by (auto simp: stream_si256_def intro!: safe_run_step)
  ultimately show ?case by (rule safe_run_trans)
qed

lemma safe_upto_streams:
  assumes s: "safe_upto I P0 a L (d, l, P)" and k: "64 * k \<le> l"
    and I: "\<And>Q i. I Q \<Longrightarrow> 32 * i + 32 \<le> L \<Longrightarrow> I (pm_step (NTStore (a + of_nat (32 * i)) ymm) Q)"
  shows "safe_upto I P0 a L (d + of_nat (64 * k), l - 64 * k, fold (stream_si256 d ymm) [0..<2 * k] P)"
proof -
  from s have l: "l \<le> L" and d: "d = a + of_nat (L - l)" and m: "l mod 64 = 0" "L mod 64 = 0"
    and run: "safe_run I P0 P"
    by (auto simp: safe_upto_def)
  from m obtain p q where pq: "l = 64 * p" "L = 64 * q"
    by (auto simp: mod_0_imp_dvd elim!: dvdE)
  have "safe_run I P (fold (stream_si256 d ymm) [0..<2 * k] P)"
  proof (rule safe_streams)
    show "I P" using run by (rule safe_run_end)
    fix Q i
    assume Q: "I Q" and i: "i < 2 * k"
    have eq: "d + of_nat (32 * i) = a + of_nat (32 * (2 * (q - p) + i))"
      using l by (simp add: d pq of_nat_diff algebra_simps)
    have "32 * (2 * (q - p) + i) + 32 \<le> L"
    proof -
      from l obtain r where "q = p + r" using pq le_Suc_ex [of p q] by auto
      with i k pq show ?thesis by simp
    qed
    with I [OF Q] show "I (pm_step (NTStore (d + of_nat (32 * i)) ymm) Q)"
      unfolding eq by blast
  qed
  with run have "safe_run I P0 (fold (stream_si256 d ymm) [0..<2 * k] P)"
    by (rule safe_run_trans)
  moreover have "L - (l - 64 * k) = (L - l) + 64 * k" using l k by simp
  moreover have "(l - 64 * k) mod 64 = 0"
    unfolding pq(1) diff_mult_distrib2 [symmetric] by simp
  ultimately show ?thesis using l m by (simp add: safe_upto_def d)
qed

lemma safe_upto_blocks:
  assumes "safe_upto I P0 a L s"
    and I: "\<And>Q i. I Q \<Longrightarrow> 32 * i + 32 \<le> L \<Longrightarrow> I (pm_step (NTStore (a + of_nat (32 * i)) ymm) Q)"
  shows "safe_upto I P0 a L (memset_blocks ymm s)"
  using assms
proof (induction ymm s rule: memset_blocks.induct)
  case (1 ymm d l P)
  show ?case
  proof (cases "l \<ge> 8 * 64")
    case True
    with safe_upto_streams [OF "1.prems"(1) _ "1.prems"(2), of 8]
    have "safe_upto I P0 a L (d + 8 * 64, l - 8 * 64, memset_movnt8x64b d ymm P)"
      by (simp add: memset_movnt8x64b_def)
    from "1.IH" [OF True this "1.prems"(2)] True show ?thesis
      by (simp add: memset_blocks.simps [of _ d])
  next
    case False
    with "1.prems" show ?thesis by (simp add: memset_blocks.simps [of _ d])
  qed
qed

lemma safe_upto_stage:
  assumes "safe_upto I P0 a L s"
    and I: "\<And>Q i. I Q \<Longrightarrow> 32 * i + 32 \<le> L \<Longrightarrow> I (pm_step (NTStore (a + of_nat (32 * i)) ymm) Q)"
    and f: "\<And>d P. f d ymm P = fold (stream_si256 d ymm) [0..<2 * n] P"
  shows "safe_upto I P0 a L (memset_stage n f ymm s)"
proof -
  obtain d l P where s: "s = (d, l, P)" by (cases s) auto
  show ?thesis
  proof (cases "n * 64 \<le> l")
    case True
    with safe_upto_streams [of I P0 a L d l P n ymm] assms(1) I
    show ?thesis by (simp add: s f ac_simps)
  next
    case False
    with assms(1) show ?thesis by (simp add: s)
  qed
qed

text \<open>The two facts together, for the whole lines that \<open>undo_log_clear\<close> asks for.\<close>

lemma memset_movnt_avx_lines:
  assumes a: "unat dest mod 64 = 0" "len mod 64 = 0" and len: "len < 18446744073709551616"
    and P: "I P"
    and I: "\<And>Q i. I Q \<Longrightarrow> 32 * i + 32 \<le> len \<Longrightarrow>
              I (pm_step (NTStore (dest + of_nat (32 * i)) (replicate 32 (ucast c))) Q)"
  shows "safe_run I P (memset_movnt_avx dest c len P)"
    and "unat (x - dest) < len \<Longrightarrow> m \<in> set (fv (memset_movnt_avx dest c len P) (line x)) \<Longrightarrow> m x = ucast c"
proof -
  let ?b = "ucast c :: byte"
  let ?y = "replicate 32 ?b"
  define s2 where "s2 = memset_blocks ?y (memset_head ?y (dest, len, P))"
  define s3 where "s3 = memset_stage 4 memset_movnt4x64b ?y s2"
  define s4 where "s4 = memset_stage 2 memset_movnt2x64b ?y s3"
  define s5 where "s5 = memset_stage 1 memset_movnt1x64b ?y s4"
  have head: "memset_head ?y (dest, len, P) = (dest, len, P)"
    using a by (simp add: unat_and_63)
  have s0: "safe_upto I P dest len (dest, len, P)" "filled_upto dest len ?b (cur P) (dest, len, P)"
      "durable_upto dest len ?b (dest, len, P)"
    using a P by (auto simp: safe_upto_def filled_upto_def durable_upto_def)
  have r2: "safe_upto I P dest len s2" "filled_upto dest len ?b (cur P) s2" "durable_upto dest len ?b s2"
    unfolding s2_def head
    by (rule safe_upto_blocks [OF s0(1) I], assumption+)
      (rule filled_upto_blocks [OF s0(2) len], rule durable_blocks [OF s0(3,2) len])
  have r3: "safe_upto I P dest len s3" "filled_upto dest len ?b (cur P) s3" "durable_upto dest len ?b s3"
    unfolding s3_def
    by (rule safe_upto_stage [OF r2(1) I], assumption+, simp add: memset_movnt4x64b_def)
      (rule filled_upto_stage [OF r2(2) len] durable_stage [OF r2(3,2) len], simp add: memset_movnt4x64b_def)+
  have r4: "safe_upto I P dest len s4" "filled_upto dest len ?b (cur P) s4" "durable_upto dest len ?b s4"
    unfolding s4_def
    by (rule safe_upto_stage [OF r3(1) I], assumption+, simp add: memset_movnt2x64b_def)
      (rule filled_upto_stage [OF r3(2) len] durable_stage [OF r3(3,2) len], simp add: memset_movnt2x64b_def)+
  have r5: "safe_upto I P dest len s5" "durable_upto dest len ?b s5"
    unfolding s5_def
    by (rule safe_upto_stage [OF r4(1) I], assumption+, simp add: memset_movnt1x64b_def)
      (rule durable_stage [OF r4(3,2) len], simp add: memset_movnt1x64b_def)
  have "fst (snd s2) < 2 * 4 * 64" unfolding s2_def using memset_blocks_rest by simp
  from memset_stage_rest [OF this] have "fst (snd s3) < 2 * 2 * 64" unfolding s3_def by simp
  from memset_stage_rest [OF this] have "fst (snd s4) < 2 * 1 * 64" unfolding s4_def by simp
  from memset_stage_rest [OF this] have "fst (snd s5) < 64" unfolding s5_def by simp
  moreover have "fst (snd s5) mod 64 = 0" using r5(1) by (auto simp: safe_upto_def split: prod.splits)
  ultimately have "fst (snd s5) = 0" by simp
  then obtain d5 P5 where s5: "s5 = (d5, 0, P5)" by (cases s5) auto
  then have run: "memset_movnt_avx dest c len P = P5"
    by (simp add: memset_movnt_avx_def s2_def s3_def s4_def s5_def Let_def)
  show "safe_run I P (memset_movnt_avx dest c len P)"
    using r5(1) by (simp add: run s5 safe_upto_def)
  show "unat (x - dest) < len \<Longrightarrow> m \<in> set (fv (memset_movnt_avx dest c len P) (line x)) \<Longrightarrow> m x = ucast c"
    using r5(2) by (simp add: run s5 durable_upto_def)
qed

end
