(* ===== verification/Ranges.thy ===== *)
theory Ranges
  imports Prelude
begin

text \<open>
  \<^verbatim>\<open>src/src/undo/mem_region/ranges.h\<close>: the sorted, coalesced vector of address ranges that the undo
  log uses for freshly allocated memory and the region manager for the memory it manages. The
  vector (\<open>drvector_t\<close>, a growable array of DynamoRIO) is the list of its entries. Arithmetic
  is that of 64-bit unsigned integers. The theorems relate every operation to the set of
  addresses the vector stands for, and show what \<open>remove\<close> really keeps.
\<close>

section \<open>A range\<close>

datatype range = Range (range_start: u64) (range_size: u64)

definition range_end :: "range \<Rightarrow> u64" where
  "range_end r = range_start r + range_size r"

definition range_lt :: "range \<Rightarrow> range \<Rightarrow> bool" where
  "range_lt r s \<longleftrightarrow>
     range_start r < range_start s \<or> (range_start r = range_start s \<and> range_size r < range_size s)"

text \<open>\<open>operator<\<close> is the order of the type.\<close>

instantiation range :: linorder
begin

definition less_range :: "range \<Rightarrow> range \<Rightarrow> bool" where
  less_range_lt: "less_range r s \<longleftrightarrow> range_lt r s"

definition less_eq_range :: "range \<Rightarrow> range \<Rightarrow> bool" where
  "less_eq_range r s \<longleftrightarrow> (r :: range) < s \<or> r = s"

lemmas less_range_def = less_range_lt [unfolded range_lt_def]

instance
proof
  fix x y z :: range
  show "(x < y) = (x \<le> y \<and> \<not> y \<le> x)"
    by (auto simp: less_range_def less_eq_range_def)
  show "x \<le> x"
    by (simp add: less_eq_range_def)
  show "x \<le> y \<Longrightarrow> y \<le> z \<Longrightarrow> x \<le> z"
    by (auto simp: less_range_def less_eq_range_def)
  show "x \<le> y \<Longrightarrow> y \<le> x \<Longrightarrow> x = y"
    by (auto simp: less_range_def less_eq_range_def)
  show "x \<le> y \<or> y \<le> x"
    by (cases x; cases y) (auto simp: less_range_def less_eq_range_def)
qed

end

definition includes_point :: "range \<Rightarrow> u64 \<Rightarrow> bool" where
  "includes_point r p \<longleftrightarrow> range_start r \<le> p \<and> p - range_start r < range_size r"

definition includes_range :: "range \<Rightarrow> range \<Rightarrow> bool" where
  "includes_range r s \<longleftrightarrow> range_size s = 0 \<or>
     (range_start r \<le> range_start s \<and>
      range_start s - range_start r + range_size s \<le> range_size r)"

definition range_intersects :: "range \<Rightarrow> range \<Rightarrow> bool" where
  "range_intersects r s \<longleftrightarrow> includes_point r (range_start s) \<or> includes_point s (range_start r)"

section \<open>The vector\<close>

text \<open>The slot that the insertion loop of \<open>insert\<close> opens: before the first greater entry.\<close>

fun insert_sorted :: "range \<Rightarrow> range list \<Rightarrow> range list" where
  "insert_sorted r [] = [r]"
| "insert_sorted r (x # xs) = (if r < x then r # x # xs else x # insert_sorted r xs)"

text \<open>
  The coalescing loop: \<open>prev\<close> (the entry at \<open>l\<close>) absorbs \<open>curr\<close> when they touch or overlap,
  otherwise \<open>curr\<close> becomes the next \<open>prev\<close>.
\<close>

fun coalesce :: "range list \<Rightarrow> range list" where
  "coalesce [] = []"
| "coalesce [prev] = [prev]"
| "coalesce (prev # curr_r # rest) =
     (if range_start curr_r - range_start prev \<le> range_size prev
      then coalesce (Range (range_start prev)
             (max (range_size prev) (range_start curr_r + range_size curr_r - range_start prev)) # rest)
      else prev # coalesce (curr_r # rest))"

definition ranges_insert :: "u64 \<Rightarrow> u64 \<Rightarrow> range list \<Rightarrow> range list" where
  "ranges_insert start sz v = coalesce (insert_sorted (Range start sz) v)"

definition ranges_find_point :: "range list \<Rightarrow> u64 \<Rightarrow> bool" where
  "ranges_find_point v point \<longleftrightarrow> list_ex (\<lambda>r. includes_point r point) v"

definition ranges_find :: "range list \<Rightarrow> u64 \<Rightarrow> u64 \<Rightarrow> bool" where
  "ranges_find v start sz \<longleftrightarrow>
     sz = 0 \<or> list_ex (\<lambda>r. includes_range r (Range start sz)) v"

text \<open>The body of the loop of \<open>remove\<close>: what is left of \<open>curr\<close>, with its assertions.\<close>

definition remove_left :: "range \<Rightarrow> range \<Rightarrow> range list result" where
  "remove_left to_remove curr_r =
     (if includes_point curr_r (range_start to_remove)
      then let left = Range (range_start curr_r) (range_start to_remove - range_start curr_r) in
        if range_size left > 0
        then dr_assert (includes_range curr_r left) ''curr->includes(left)''
               (dr_assert (\<not> range_intersects left to_remove) ''!left.intersects(to_remove)'' (Inr [left]))
        else Inr []
      else Inr [])"

definition remove_right :: "range \<Rightarrow> range \<Rightarrow> range list result" where
  "remove_right to_remove curr_r =
     (if includes_point curr_r (range_end to_remove - 1)
      then let right = Range (range_end to_remove) (range_end curr_r - range_end to_remove) in
        if range_size right > 0
        then dr_assert (includes_range curr_r right) ''curr->includes(right)''
               (dr_assert (\<not> range_intersects right to_remove) ''!right.intersects(to_remove)'' (Inr [right]))
        else Inr []
      else Inr [])"

fun remove_loop :: "range \<Rightarrow> range list \<Rightarrow> range list result" where
  "remove_loop to_remove [] = Inr []"
| "remove_loop to_remove (curr_r # rest) =
     bind_result (remove_left to_remove curr_r) (\<lambda>left.
     bind_result (remove_right to_remove curr_r) (\<lambda>right.
     bind_result (remove_loop to_remove rest) (\<lambda>new_v. Inr (left @ right @ new_v))))"

definition ranges_remove :: "u64 \<Rightarrow> u64 \<Rightarrow> range list \<Rightarrow> range list result" where
  "ranges_remove start sz v = (if sz = 0 then Inr v else remove_loop (Range start sz) v)"

definition ranges_clear :: "range list \<Rightarrow> range list" where
  "ranges_clear v = []"

definition ranges_foreach :: "(u64 \<Rightarrow> u64 \<Rightarrow> 's \<Rightarrow> 's) \<Rightarrow> range list \<Rightarrow> 's \<Rightarrow> 's" where
  "ranges_foreach f v = fold (\<lambda>r. f (range_start r) (range_size r)) v"

section \<open>The set a vector stands for\<close>

definition range_set :: "range \<Rightarrow> u64 set" where
  "range_set r = {p. includes_point r p}"

definition ranges_set :: "range list \<Rightarrow> u64 set" where
  "ranges_set v = (\<Union>r \<in> set v. range_set r)"

text \<open>No range runs past the end of the address space.\<close>

definition no_wrap :: "range \<Rightarrow> bool" where
  "no_wrap r \<longleftrightarrow> unat (range_start r) + unat (range_size r) < 2 ^ 64"

definition separated :: "range list \<Rightarrow> bool" where
  "separated v \<longleftrightarrow> sorted_wrt (\<lambda>r s. range_end r < range_start s) v"

definition ranges_wf :: "range list \<Rightarrow> bool" where
  "ranges_wf v \<longleftrightarrow> separated v \<and> (\<forall>r \<in> set v. no_wrap r)"

lemma mem_range_set: "p \<in> range_set r \<longleftrightarrow> includes_point r p"
  by (simp add: range_set_def)

lemma ranges_set_simps [simp]:
  "ranges_set [] = {}"
  "ranges_set (r # v) = range_set r \<union> ranges_set v"
  "ranges_set (v @ w) = ranges_set v \<union> ranges_set w"
  by (auto simp: ranges_set_def)

lemma unat_range_end: "no_wrap r \<Longrightarrow> unat (range_end r) = unat (range_start r) + unat (range_size r)"
  by (simp add: no_wrap_def range_end_def unat_add_no_wrap)

lemma includes_point_nat:
  "no_wrap r \<Longrightarrow> includes_point r p \<longleftrightarrow>
     unat (range_start r) \<le> unat p \<and> unat p < unat (range_start r) + unat (range_size r)"
  by (auto simp: includes_point_def word_le_nat_alt word_less_nat_alt unat_sub_le)

lemma includes_range_nat:
  assumes "no_wrap r" and "no_wrap s" and "range_size s \<noteq> 0"
  shows "includes_range r s \<longleftrightarrow> unat (range_start r) \<le> unat (range_start s) \<and>
           unat (range_start s) + unat (range_size s) \<le> unat (range_start r) + unat (range_size r)"
proof (cases "range_start r \<le> range_start s")
  case True
  then have "unat (range_start s - range_start r + range_size s) =
      unat (range_start s) - unat (range_start r) + unat (range_size s)"
    using assms(2) by (simp add: unat_add_no_wrap unat_sub_le no_wrap_def)
  with True assms(3) show ?thesis
    by (auto simp: includes_range_def word_le_nat_alt)
next
  case False
  with assms(3) show ?thesis by (simp add: includes_range_def word_le_nat_alt)
qed

section \<open>Insertion\<close>

lemma insert_sorted_set: "set (insert_sorted r v) = insert r (set v)"
  by (induction v) auto

lemma insert_sorted_sorted: "sorted v \<Longrightarrow> sorted (insert_sorted r v)"
  by (induction v) (auto simp: insert_sorted_set)

lemma separated_sorted:
  assumes "ranges_wf v"
  shows "sorted v"
proof -
  have sep: "sorted_wrt (\<lambda>r s. range_end r < range_start s) v" and w: "\<forall>r \<in> set v. no_wrap r"
    using assms by (auto simp: ranges_wf_def separated_def)
  have "sorted_wrt (\<le>) v"
  proof (rule sorted_wrt_mono_rel [OF _ sep])
    fix r s
    assume "r \<in> set v" and "s \<in> set v" and less: "range_end r < range_start s"
    then have "unat (range_start r) < unat (range_start s)"
      using w unat_range_end [of r] by (auto simp: word_less_nat_alt)
    then show "r \<le> s"
      by (simp add: less_eq_range_def less_range_def word_less_nat_alt)
  qed
  then show ?thesis by simp
qed

text \<open>The merged entry covers exactly the two it replaces.\<close>

lemma merge_range:
  assumes "no_wrap p" and "no_wrap c" and "range_start p \<le> range_start c"
    and "range_start c - range_start p \<le> range_size p"
  defines "m \<equiv> Range (range_start p)
             (max (range_size p) (range_start c + range_size c - range_start p))"
  shows "no_wrap m" and "range_set m = range_set p \<union> range_set c"
proof -
  have e: "unat (range_start c + range_size c - range_start p) =
      unat (range_start c) + unat (range_size c) - unat (range_start p)"
    using assms(2,3) unat_range_end [of c]
    by (simp add: range_end_def no_wrap_def unat_sub_le word_le_nat_alt)
  have s: "unat (range_size m) =
      max (unat (range_size p)) (unat (range_start c) + unat (range_size c) - unat (range_start p))"
    unfolding m_def using e by (simp add: max_def word_le_nat_alt)
  have start: "range_start m = range_start p" by (simp add: m_def)
  have le: "unat (range_start p) \<le> unat (range_start c)"
    and touch: "unat (range_start c) \<le> unat (range_start p) + unat (range_size p)"
    using assms(3,4) by (auto simp: word_le_nat_alt unat_sub_le)
  show m: "no_wrap m"
    using assms(1,2) s start le by (auto simp: no_wrap_def max_def)
  show "range_set m = range_set p \<union> range_set c"
    using s start le touch
    by (auto simp: mem_range_set includes_point_nat m assms(1,2) max_def split: if_splits)
qed


abbreviation ascending :: "range list \<Rightarrow> bool" where
  "ascending \<equiv> sorted_wrt (\<lambda>r s. range_start r \<le> range_start s)"

lemma sorted_ascending: "sorted v \<Longrightarrow> ascending v"
  by (rule sorted_wrt_mono_rel [where P = "(\<le>)"]) (auto simp: less_eq_range_def less_range_def)

lemma coalesce_correct:
  assumes "ascending v" and "\<forall>r \<in> set v. no_wrap r"
  shows "ranges_set (coalesce v) = ranges_set v \<and> (\<forall>r \<in> set (coalesce v). no_wrap r) \<and>
         separated (coalesce v) \<and> (\<forall>r \<in> set (coalesce v). range_start (hd v) \<le> range_start r)"
  using assms
proof (induction v rule: coalesce.induct)
  case 1
  then show ?case by (simp add: separated_def)
next
  case (2 p)
  then show ?case by (simp add: separated_def)
next
  case (3 p c rest)
  let ?m = "Range (range_start p) (max (range_size p) (range_start c + range_size c - range_start p))"
  have w: "no_wrap p" "no_wrap c" and le: "range_start p \<le> range_start c"
    using "3.prems" by auto
  show ?case
  proof (cases "range_start c - range_start p \<le> range_size p")
    case True
    have m: "no_wrap ?m" "range_set ?m = range_set p \<union> range_set c"
      using merge_range [OF w le True] by auto
    have "ascending (?m # rest)" "\<forall>r \<in> set (?m # rest). no_wrap r"
      using "3.prems" m by auto
    with "3.IH"(1) [OF True] True m(2) show ?thesis by (simp add: Un_assoc)
  next
    case False
    have IH: "ranges_set (coalesce (c # rest)) = ranges_set (c # rest)"
      "\<forall>r \<in> set (coalesce (c # rest)). no_wrap r" "separated (coalesce (c # rest))"
      "\<forall>r \<in> set (coalesce (c # rest)). range_start c \<le> range_start r"
      using "3.IH"(2) [OF False] "3.prems" by auto
    have "unat (range_end p) < unat (range_start c)"
      using False le unat_range_end [OF w(1)] by (auto simp: word_le_nat_alt unat_sub_le)
    then have "\<forall>r \<in> set (coalesce (c # rest)). range_end p < range_start r"
      using IH(4) by (auto simp: word_less_nat_alt word_le_nat_alt)
    with IH w le False show ?thesis by (auto simp: separated_def)
  qed
qed

lemma ranges_insert_wf:
  assumes "ranges_wf v" and "no_wrap (Range start sz)"
  shows "ranges_wf (ranges_insert start sz v)"
    and "ranges_set (ranges_insert start sz v) = ranges_set v \<union> range_set (Range start sz)"
proof -
  let ?u = "insert_sorted (Range start sz) v"
  have asc: "ascending ?u"
    by (intro sorted_ascending insert_sorted_sorted separated_sorted assms(1))
  have w: "\<forall>r \<in> set ?u. no_wrap r"
    using assms by (auto simp: insert_sorted_set ranges_wf_def)
  have "ranges_set ?u = ranges_set v \<union> range_set (Range start sz)"
    by (auto simp: ranges_set_def insert_sorted_set)
  with coalesce_correct [OF asc w]
  show "ranges_wf (ranges_insert start sz v)"
    and "ranges_set (ranges_insert start sz v) = ranges_set v \<union> range_set (Range start sz)"
    by (auto simp: ranges_insert_def ranges_wf_def)
qed

section \<open>Lookup\<close>

lemma ranges_find_point_iff: "ranges_find_point v p \<longleftrightarrow> p \<in> ranges_set v"
  by (auto simp: ranges_find_point_def list_ex_iff ranges_set_def range_set_def)

text \<open>Because entries never touch, an interval inside the union lies inside one entry.\<close>

lemma separated_interval:
  assumes wf: "ranges_wf v" and s: "no_wrap s" "range_size s \<noteq> 0"
    and sub: "range_set s \<subseteq> ranges_set v"
  shows "\<exists>r \<in> set v. includes_range r s"
proof -
  have w: "\<And>r. r \<in> set v \<Longrightarrow> no_wrap r" using wf by (auto simp: ranges_wf_def)
  have pos: "0 < unat (range_size s)" using s(2) by (simp add: unat_gt_0)
  have "range_start s \<in> range_set s"
    using s pos by (simp add: mem_range_set includes_point_nat)
  with sub obtain r where r: "r \<in> set v" "includes_point r (range_start s)"
    by (auto simp: ranges_set_def mem_range_set)
  have rs: "unat (range_start r) \<le> unat (range_start s)"
      "unat (range_start s) < unat (range_end r)"
    using r(2) w [OF r(1)] by (auto simp: includes_point_nat unat_range_end)
  have "unat (range_end s) \<le> unat (range_end r)"
  proof (rule ccontr)
    assume "\<not> ?thesis"
    then have "range_end r \<in> range_set s"
      using rs s by (auto simp: mem_range_set includes_point_nat unat_range_end)
    with sub obtain t where t: "t \<in> set v" "includes_point t (range_end r)"
      by (auto simp: ranges_set_def mem_range_set)
    have ts: "unat (range_start t) \<le> unat (range_end r)" "unat (range_end r) < unat (range_end t)"
      using t(2) w [OF t(1)] by (auto simp: includes_point_nat unat_range_end)
    then have "t \<noteq> r" by auto
    with r(1) t(1) wf have "range_end r < range_start t \<or> range_end t < range_start r"
      unfolding ranges_wf_def separated_def sorted_wrt_iff_nth_less in_set_conv_nth
      by (metis linorder_neqE_nat)
    with ts rs show False
      using unat_range_end [OF w [OF t(1)]] unat_range_end [OF w [OF r(1)]]
      by (auto simp: word_less_nat_alt)
  qed
  with rs s w [OF r(1)] have "includes_range r s"
    by (simp add: includes_range_nat unat_range_end)
  with r(1) show ?thesis by blast
qed

lemma ranges_find_iff:
  assumes "ranges_wf v" and "no_wrap (Range start sz)"
  shows "ranges_find v start sz \<longleftrightarrow> range_set (Range start sz) \<subseteq> ranges_set v"
proof (cases "sz = 0")
  case True
  then show ?thesis
    by (auto simp: ranges_find_def mem_range_set includes_point_def)
next
  case False
  have "range_set (Range start sz) \<subseteq> ranges_set v"
    if "r \<in> set v" "includes_range r (Range start sz)" for r
    using that assms False
    by (auto simp: ranges_set_def ranges_wf_def mem_range_set includes_range_nat includes_point_nat)
  with separated_interval [OF assms] False show ?thesis
    by (auto simp: ranges_find_def list_ex_iff)
qed


section \<open>Removal\<close>

text \<open>What the loop body leaves of one entry: the parts on both sides, if it meets an end of the hole.\<close>

lemma remove_left_correct:
  assumes "no_wrap h" and "no_wrap r" and "range_size h \<noteq> 0"
  shows "\<exists>l. remove_left h r = Inr l \<and> (\<forall>x \<in> set l. no_wrap x) \<and> length l \<le> 1 \<and>
           (\<forall>x \<in> set l. range_start x = range_start r \<and> range_end x = range_start h) \<and>
           ranges_set l = (if includes_point r (range_start h)
                           then {p. includes_point r p \<and> p < range_start h} else {})"
proof (cases "includes_point r (range_start h)")
  case False
  then show ?thesis by (simp add: remove_left_def)
next
  case True
  let ?l = "Range (range_start r) (range_start h - range_start r)"
  have le: "range_start r \<le> range_start h" using True by (simp add: includes_point_def)
  have in_r: "unat (range_start h) < unat (range_start r) + unat (range_size r)"
    using True assms(2) by (simp add: includes_point_nat)
  have l: "no_wrap ?l" and sz: "unat (range_size ?l) = unat (range_start h) - unat (range_start r)"
    using le in_r assms(2) by (auto simp: no_wrap_def unat_sub_le word_le_nat_alt)
  have ends: "range_end ?l = range_start h" by (simp add: range_end_def)
  have set_l: "range_set ?l = {p. includes_point r p \<and> p < range_start h}"
    using le in_r l sz assms(2)
    by (auto simp: mem_range_set includes_point_nat word_less_nat_alt word_le_nat_alt)
  show ?thesis
  proof (cases "range_size ?l > 0")
    case True
    then have "includes_range r ?l"
      using in_r l assms(2) sz le
      by (subst includes_range_nat) (auto simp: word_le_nat_alt unat_gt_0 word_less_nat_alt)
    moreover have "\<not> range_intersects ?l h"
      using True l assms(1) sz le
      by (auto simp: range_intersects_def includes_point_nat word_less_nat_alt)
    ultimately have "remove_left h r = Inr [?l]"
      using \<open>includes_point r (range_start h)\<close> True by (simp add: remove_left_def Let_def)
    with l ends set_l \<open>includes_point r (range_start h)\<close> show ?thesis by simp
  next
    case False
    then have "remove_left h r = Inr []"
      using \<open>includes_point r (range_start h)\<close> by (simp add: remove_left_def Let_def)
    moreover have "range_set ?l = {}"
      using False by (auto simp: mem_range_set includes_point_def word_less_nat_alt)
    ultimately show ?thesis
      using set_l \<open>includes_point r (range_start h)\<close> by simp
  qed
qed

lemma remove_right_correct:
  assumes "no_wrap h" and "no_wrap r" and "range_size h \<noteq> 0"
  shows "\<exists>l. remove_right h r = Inr l \<and> (\<forall>x \<in> set l. no_wrap x) \<and> length l \<le> 1 \<and>
           (\<forall>x \<in> set l. range_start x = range_end h \<and> range_end x = range_end r) \<and>
           ranges_set l = (if includes_point r (range_end h - 1)
                           then {p. includes_point r p \<and> range_end h \<le> p} else {})"
proof (cases "includes_point r (range_end h - 1)")
  case False
  then show ?thesis by (simp add: remove_right_def)
next
  case True
  let ?l = "Range (range_end h) (range_end r - range_end h)"
  have h: "unat (range_end h) = unat (range_start h) + unat (range_size h)"
    and r: "unat (range_end r) = unat (range_start r) + unat (range_size r)"
    using assms by (auto simp: unat_range_end)
  have pos: "0 < unat (range_size h)" using assms(3) by (simp add: unat_gt_0)
  then have "range_end h \<noteq> 0" using h by (auto simp: unat_0_iff [symmetric])
  then have e1: "unat (range_end h - 1) = unat (range_end h) - 1" by (simp add: unat_minus_one)
  have in_r: "unat (range_start r) < unat (range_end h)" "unat (range_end h) \<le> unat (range_end r)"
    using True assms(2) h r pos by (auto simp: includes_point_nat e1)
  have sz: "unat (range_size ?l) = unat (range_end r) - unat (range_end h)"
    using in_r by (simp add: unat_sub_le word_le_nat_alt)
  have l: "no_wrap ?l"
    using in_r sz unat_u64_less [of "range_end r"] by (simp add: no_wrap_def)
  have ends: "range_end ?l = range_end r" by (simp add: range_end_def)
  have set_l: "range_set ?l = {p. includes_point r p \<and> range_end h \<le> p}"
    using in_r l sz assms(2) r
    by (auto simp: mem_range_set includes_point_nat word_le_nat_alt)
  show ?thesis
  proof (cases "range_size ?l > 0")
    case True
    then have "includes_range r ?l"
      using in_r l assms(2) sz r
      by (subst includes_range_nat) (auto simp: unat_gt_0 word_less_nat_alt)
    moreover have "\<not> range_intersects ?l h"
      using True l assms(1) h pos
      by (auto simp: range_intersects_def includes_point_nat)
    ultimately have "remove_right h r = Inr [?l]"
      using \<open>includes_point r (range_end h - 1)\<close> True by (simp add: remove_right_def Let_def)
    with l ends set_l \<open>includes_point r (range_end h - 1)\<close> show ?thesis by simp
  next
    case False
    then have "remove_right h r = Inr []"
      using \<open>includes_point r (range_end h - 1)\<close> by (simp add: remove_right_def Let_def)
    moreover have "range_set ?l = {}"
      using False by (auto simp: mem_range_set includes_point_def word_less_nat_alt)
    ultimately show ?thesis
      using set_l \<open>includes_point r (range_end h - 1)\<close> by simp
  qed
qed


definition kept_by_remove :: "range \<Rightarrow> range list \<Rightarrow> u64 set" where
  "kept_by_remove h v = {p. \<exists>r \<in> set v. includes_point r p \<and>
     ((includes_point r (range_start h) \<and> p < range_start h) \<or>
      (includes_point r (range_end h - 1) \<and> range_end h \<le> p))}"

lemma remove_loop_correct:
  assumes "no_wrap h" and "range_size h \<noteq> 0" and "ranges_wf v"
  shows "\<exists>v'. remove_loop h v = Inr v' \<and> ranges_wf v' \<and> ranges_set v' = kept_by_remove h v \<and>
           (\<forall>x \<in> set v'. \<exists>r \<in> set v. range_start r \<le> range_start x \<and> range_end x \<le> range_end r)"
  using assms(3)
proof (induction v)
  case Nil
  then show ?case by (auto simp: kept_by_remove_def ranges_wf_def separated_def)
next
  case (Cons r v)
  have w: "no_wrap r" and wf: "ranges_wf v"
    and sep: "\<forall>s \<in> set v. range_end r < range_start s"
    using Cons.prems by (auto simp: ranges_wf_def separated_def)
  obtain v' where v': "remove_loop h v = Inr v'" "ranges_wf v'" "ranges_set v' = kept_by_remove h v"
    and inner: "\<forall>x \<in> set v'. \<exists>s \<in> set v. range_start s \<le> range_start x \<and> range_end x \<le> range_end s"
    using Cons.IH [OF wf] by blast
  obtain l1 where l1: "remove_left h r = Inr l1" "\<forall>x \<in> set l1. no_wrap x" "length l1 \<le> 1"
    "\<forall>x \<in> set l1. range_start x = range_start r \<and> range_end x = range_start h"
    "ranges_set l1 = (if includes_point r (range_start h)
                      then {p. includes_point r p \<and> p < range_start h} else {})"
    "l1 \<noteq> [] \<longrightarrow> includes_point r (range_start h)"
    using remove_left_correct [OF assms(1) w assms(2)] by (auto simp: remove_left_def split: if_splits)
  obtain l2 where l2: "remove_right h r = Inr l2" "\<forall>x \<in> set l2. no_wrap x" "length l2 \<le> 1"
    "\<forall>x \<in> set l2. range_start x = range_end h \<and> range_end x = range_end r"
    "ranges_set l2 = (if includes_point r (range_end h - 1)
                      then {p. includes_point r p \<and> range_end h \<le> p} else {})"
    "l2 \<noteq> [] \<longrightarrow> includes_point r (range_end h - 1)"
    using remove_right_correct [OF assms(1) w assms(2)] by (auto simp: remove_right_def split: if_splits)
  have hole: "range_start h < range_end h"
    using unat_range_end [OF assms(1)] assms(2) by (simp add: word_less_nat_alt unat_gt_0)
  have within: "\<forall>x \<in> set (l1 @ l2). range_start r \<le> range_start x \<and> range_end x \<le> range_end r"
  proof -
    have "range_start h \<le> range_end r" if "includes_point r (range_start h)"
      using that w by (auto simp: includes_point_nat unat_range_end word_le_nat_alt)
    moreover have "range_start r \<le> range_end h" if "includes_point r (range_end h - 1)"
    proof -
      have "range_end h \<noteq> 0" using hole by (auto simp: word_less_nat_alt)
      then have "unat (range_end h - 1) = unat (range_end h) - 1" by (simp add: unat_minus_one)
      with that w show ?thesis by (auto simp: includes_point_nat word_le_nat_alt)
    qed
    ultimately have "\<forall>x \<in> set l1. range_start h \<le> range_end r" "\<forall>x \<in> set l2. range_start r \<le> range_end h"
      using l1(6) l2(6) by auto
    with l1(4) l2(4) show ?thesis by auto
  qed
  have pieces: "separated (l1 @ l2)"
  proof -
    have "sorted_wrt (\<lambda>r s. range_end r < range_start s) l1"
      using l1(3) by (cases l1) auto
    moreover have "sorted_wrt (\<lambda>r s. range_end r < range_start s) l2"
      using l2(3) by (cases l2) auto
    ultimately show ?thesis
      using l1(4) l2(4) hole by (simp add: separated_def sorted_wrt_append)
  qed
  have later: "\<forall>x \<in> set (l1 @ l2). \<forall>y \<in> set v'. range_end x < range_start y"
  proof (intro ballI)
    fix x y
    assume "x \<in> set (l1 @ l2)" and "y \<in> set v'"
    with inner obtain s where "s \<in> set v" "range_start s \<le> range_start y" by blast
    moreover have "range_end x \<le> range_end r" using within \<open>x \<in> set (l1 @ l2)\<close> by blast
    ultimately show "range_end x < range_start y" using sep by (meson le_less_trans less_le_trans)
  qed
  have "ranges_wf (l1 @ l2 @ v')"
    using pieces later v'(2) l1(2) l2(2)
    by (auto simp: ranges_wf_def separated_def sorted_wrt_append)
  moreover have "ranges_set (l1 @ l2 @ v') = kept_by_remove h (r # v)"
    by (auto simp: l1(5) l2(5) v'(3) kept_by_remove_def split: if_splits)
  moreover have "\<forall>x \<in> set (l1 @ l2 @ v'). \<exists>s \<in> set (r # v).
      range_start s \<le> range_start x \<and> range_end x \<le> range_end s"
    using within inner by auto
  ultimately show ?case using l1(1) l2(1) v'(1) by simp
qed

lemma kept_by_remove_subset:
  assumes "no_wrap h" and "range_size h \<noteq> 0"
  shows "kept_by_remove h v \<subseteq> ranges_set v - range_set h"
  using assms
  by (auto simp: kept_by_remove_def ranges_set_def mem_range_set includes_point_nat
      unat_range_end word_le_nat_alt word_less_nat_alt)

text \<open>No operation makes an empty entry.\<close>

lemma coalesce_nonempty:
  "\<forall>r \<in> set v. range_size r \<noteq> 0 \<Longrightarrow> \<forall>r \<in> set (coalesce v). range_size r \<noteq> 0"
proof (induction v rule: coalesce.induct)
  case (3 prev curr_r rest)
  have "0 < range_size prev" using 3(3) by (simp add: word_neq_0_conv)
  then have "max (range_size prev) z \<noteq> 0" for z
    using less_max_iff_disj [of 0 "range_size prev" z] by (metis less_irrefl)
  then show ?case using 3 by auto
qed auto

lemma ranges_insert_nonempty:
  "\<forall>r \<in> set v. range_size r \<noteq> 0 \<Longrightarrow> sz \<noteq> 0 \<Longrightarrow> \<forall>r \<in> set (ranges_insert start sz v). range_size r \<noteq> 0"
  unfolding ranges_insert_def by (rule coalesce_nonempty) (auto simp: insert_sorted_set)

lemma remove_loop_nonempty:
  "remove_loop h v = Inr v' \<Longrightarrow> \<forall>r \<in> set v'. range_size r \<noteq> 0"
proof (induction v arbitrary: v')
  case Nil
  then show ?case by simp
next
  case (Cons r rest)
  then obtain l1 l2 w where l: "remove_left h r = Inr l1" "remove_right h r = Inr l2"
    "remove_loop h rest = Inr w" "v' = l1 @ l2 @ w"
    by (auto simp: bind_result_Inr)
  have "\<forall>x \<in> set l1. range_size x \<noteq> 0"
    using l(1) by (auto simp: remove_left_def Let_def split: if_splits)
  moreover have "\<forall>x \<in> set l2. range_size x \<noteq> 0"
    using l(2) by (auto simp: remove_right_def Let_def split: if_splits)
  ultimately show ?case using Cons.IH [OF l(3)] l(4) by auto
qed

section \<open>The interface that the undo log and the region manager use\<close>

text \<open>
  A set of addresses that grows by windows and answers whether a window is inside it. The
  clients never look at the vector itself.
\<close>

lemma start_in_range_set: "n \<noteq> 0 \<Longrightarrow> a \<in> range_set (Range a n)"
  by (simp add: mem_range_set includes_point_def word_less_nat_alt unat_gt_0)

locale window_set =
  fixes contents :: "'r \<Rightarrow> u64 set"
    and invar :: "'r \<Rightarrow> bool"
    and add_window :: "u64 \<Rightarrow> u64 \<Rightarrow> 'r \<Rightarrow> 'r"
    and find_window :: "'r \<Rightarrow> u64 \<Rightarrow> u64 \<Rightarrow> bool"
    and clear :: "'r \<Rightarrow> 'r"
  assumes contents_add: "invar v \<Longrightarrow> no_wrap (Range a n) \<Longrightarrow>
      contents (add_window a n v) = contents v \<union> range_set (Range a n)"
    and invar_add: "invar v \<Longrightarrow> no_wrap (Range a n) \<Longrightarrow> invar (add_window a n v)"
    and find_iff: "invar v \<Longrightarrow> no_wrap (Range a n) \<Longrightarrow>
      find_window v a n \<longleftrightarrow> range_set (Range a n) \<subseteq> contents v"
    and contents_clear: "contents (clear v) = {}"
    and invar_clear: "invar (clear v)"
begin

lemma find_after_add:
  "invar v \<Longrightarrow> no_wrap (Range a n) \<Longrightarrow> find_window (add_window a n v) a n"
  by (simp add: find_iff invar_add contents_add)

lemma find_add_mono:
  "invar v \<Longrightarrow> no_wrap (Range a n) \<Longrightarrow> no_wrap (Range b k) \<Longrightarrow>
   find_window v b k \<Longrightarrow> find_window (add_window a n v) b k"
  by (auto simp: find_iff invar_add contents_add)

lemma not_found_after_clear:
  "no_wrap (Range a n) \<Longrightarrow> n \<noteq> 0 \<Longrightarrow> \<not> find_window (clear v) a n"
  using start_in_range_set [of n a] by (auto simp: find_iff invar_clear contents_clear)

text \<open>Any sequence of additions: the invariant, and the union of the windows.\<close>

lemma contents_fold_add:
  assumes "invar v" and "\<forall>(a, n) \<in> set ws. no_wrap (Range a n)"
  shows "invar (fold (\<lambda>(a, n). add_window a n) ws v) \<and>
         contents (fold (\<lambda>(a, n). add_window a n) ws v) =
           contents v \<union> (\<Union>(a, n) \<in> set ws. range_set (Range a n))"
  using assms
proof (induction ws arbitrary: v)
  case Nil
  then show ?case by simp
next
  case (Cons w ws)
  obtain a n where w: "w = (a, n)" by (cases w)
  with Cons.prems have "invar (add_window a n v)" "\<forall>(a, n) \<in> set ws. no_wrap (Range a n)"
    by (auto simp: invar_add)
  from Cons.IH [OF this] Cons.prems show ?case by (simp add: w contents_add Un_assoc)
qed

end

interpretation rs: window_set ranges_set ranges_wf ranges_insert ranges_find ranges_clear
proof
  show "ranges_set (ranges_insert a n v) = ranges_set v \<union> range_set (Range a n)"
    if "ranges_wf v" "no_wrap (Range a n)" for v a n
    using that by (rule ranges_insert_wf)
  show "ranges_wf (ranges_insert a n v)" if "ranges_wf v" "no_wrap (Range a n)" for v a n
    using that by (rule ranges_insert_wf)
  show "ranges_find v a n \<longleftrightarrow> range_set (Range a n) \<subseteq> ranges_set v"
    if "ranges_wf v" "no_wrap (Range a n)" for v a n
    using that by (rule ranges_find_iff)
qed (simp_all add: ranges_clear_def ranges_wf_def separated_def)


section \<open>Properties\<close>

text \<open>
  C15. \<open>insert\<close> keeps the vector sorted, coalesced and inside the address space, and adds
  exactly the addresses of the new range.
\<close>

theorem ranges_insert_correct:
  assumes "ranges_wf v" and "unat start + unat sz < 2 ^ 64"
  shows "ranges_wf (ranges_insert start sz v) \<and>
         ranges_set (ranges_insert start sz v) =
           ranges_set v \<union> {p. unat start \<le> unat p \<and> unat p < unat start + unat sz}"
proof -
  have w: "no_wrap (Range start sz)" using assms(2) by (simp add: no_wrap_def)
  have "range_set (Range start sz) = {p. unat start \<le> unat p \<and> unat p < unat start + unat sz}"
    using w by (auto simp: mem_range_set includes_point_nat)
  with rs.invar_add [OF assms(1) w] rs.contents_add [OF assms(1) w] show ?thesis by simp
qed

theorem ranges_insert_correct_witness:
  "ranges_wf [Range 0 16, Range 64 16] \<and> unat (16 :: u64) + unat (48 :: u64) < 2 ^ 64 \<and>
   ranges_insert 16 48 [Range 0 16, Range 64 16] = [Range 0 80] \<and> ranges_wf [Range 0 80]"
proof -
  have h: "ranges_wf [Range 0 16, Range 64 16]" "unat (16 :: u64) + unat (48 :: u64) < 2 ^ 64"
    by (simp_all add: ranges_wf_def separated_def no_wrap_def range_end_def)
  have "ranges_insert 16 48 [Range 0 16, Range 64 16] = [Range 0 80]"
    by (simp add: ranges_insert_def less_range_def)
  with h ranges_insert_correct [OF h] show ?thesis by simp
qed

text \<open>
  \<open>find(start, size)\<close> on a well-formed vector answers whether every address of the window
  is in the set, although it only looks for one entry that includes the whole window.
\<close>

theorem ranges_find_correct:
  assumes "ranges_wf v" and "unat start + unat sz < 2 ^ 64"
  shows "ranges_find v start sz \<longleftrightarrow>
           (\<forall>p. unat start \<le> unat p \<and> unat p < unat start + unat sz \<longrightarrow> p \<in> ranges_set v)"
proof -
  have w: "no_wrap (Range start sz)" using assms(2) by (simp add: no_wrap_def)
  show ?thesis
    unfolding rs.find_iff [OF assms(1) w]
    using w by (auto simp: mem_range_set includes_point_nat)
qed

theorem ranges_find_correct_witness:
  "ranges_wf [Range 0 80] \<and> unat (8 :: u64) + unat (60 :: u64) < 2 ^ 64 \<and>
   ranges_find [Range 0 80] 8 60 \<and> 67 \<in> ranges_set [Range 0 80]"
proof -
  have h: "ranges_wf [Range 0 80]" "unat (8 :: u64) + unat (60 :: u64) < 2 ^ 64"
    by (simp_all add: ranges_wf_def separated_def no_wrap_def)
  have f: "ranges_find [Range 0 80] 8 60"
    by (simp add: ranges_find_def includes_range_def)
  moreover have "67 \<in> ranges_set [Range 0 80]"
    using f [unfolded ranges_find_correct [OF h]] by simp
  ultimately show ?thesis using h by simp
qed

text \<open>
  C16. \<open>remove\<close> never fails an assertion, keeps the vector well-formed, and leaves exactly
  the parts of the entries that include the first or the last removed address: it never keeps a
  removed address and never invents one.
\<close>

theorem ranges_remove_correct:
  assumes "ranges_wf v" and "unat start + unat sz < 2 ^ 64" and "sz \<noteq> 0"
  shows "\<exists>v'. ranges_remove start sz v = Inr v' \<and> ranges_wf v' \<and>
           ranges_set v' = {p. \<exists>r \<in> set v. includes_point r p \<and>
             ((includes_point r start \<and> p < start) \<or>
              (includes_point r (start + sz - 1) \<and> start + sz \<le> p))} \<and>
           ranges_set v' \<subseteq> ranges_set v - range_set (Range start sz)"
proof -
  let ?h = "Range start sz"
  have w: "no_wrap ?h" and n: "range_size ?h \<noteq> 0" using assms by (auto simp: no_wrap_def)
  obtain v' where "remove_loop ?h v = Inr v'" "ranges_wf v'" "ranges_set v' = kept_by_remove ?h v"
    using remove_loop_correct [OF w n assms(1)] by blast
  with kept_by_remove_subset [OF w n, of v] assms(3) show ?thesis
    by (auto simp: ranges_remove_def kept_by_remove_def range_end_def)
qed

theorem ranges_remove_correct_witness:
  "ranges_wf [Range 0 100] \<and> unat (40 :: u64) + unat (20 :: u64) < 2 ^ 64 \<and> (20 :: u64) \<noteq> 0 \<and>
   ranges_remove 40 20 [Range 0 100] = Inr [Range 0 40, Range 60 40] \<and>
   ranges_wf [Range 0 40, Range 60 40]"
proof -
  have h: "ranges_wf [Range 0 100]" "unat (40 :: u64) + unat (20 :: u64) < 2 ^ 64" "(20 :: u64) \<noteq> 0"
    by (simp_all add: ranges_wf_def separated_def no_wrap_def)
  have "ranges_remove 40 20 [Range 0 100] = Inr [Range 0 40, Range 60 40]"
    by (simp add: ranges_remove_def remove_left_def remove_right_def includes_point_def
        includes_range_def range_intersects_def range_end_def Let_def)
  with h ranges_remove_correct [OF h] show ?thesis by auto
qed

end
