(* ===== verification/Addr_Hash.thy ===== *)
theory Addr_Hash
  imports Prelude
begin

text \<open>
  The deduplication index of \<^verbatim>\<open>src/src/undo/undo_log.h\<close>: an open-addressing hash table of the block
  addresses already logged since the last commit (\<open>undo_log_insert_logged_addr\<close>), and the
  inline check that \<open>undo_insert_fast_path\<close> emits before a store. The theorems show that the
  probe sequence visits every slot, so that the table answers exactly whether an address is in it
  as long as a slot is free, and that a store which the emitted code lets skip the slow path
  writes to a block that is in the table.
\<close>

section \<open>The code\<close>

definition UNDO_BLK_SIZE_B :: nat where [log_simps]:
  "UNDO_BLK_SIZE_B = 32"

definition LOGGED_ADDR_HASH_SIZE :: nat where [log_simps]:
  "LOGGED_ADDR_HASH_SIZE = 16384"

type_synonym addr_table = "nat \<Rightarrow> u64"

text \<open>
  The probe loop, \<open>n\<close> being the iterations left. An empty slot holds the null pointer.
\<close>

fun probe :: "nat \<Rightarrow> u64 \<Rightarrow> u64 \<Rightarrow> u64 \<Rightarrow> addr_table \<Rightarrow> bool \<times> addr_table" where
  "probe 0 i perturb addr t = (True, t)"
| "probe (Suc n) i perturb addr t =
     (let s = unat i mod LOGGED_ADDR_HASH_SIZE in
      if t s = 0 then (True, t(s := addr))
      else if t s = addr then (False, t)
      else probe n (5 * i + perturb + 1) (drop_bit 5 perturb) addr t)"

definition undo_log_insert_logged_addr :: "u64 \<Rightarrow> addr_table \<Rightarrow> bool \<times> addr_table" where
  "undo_log_insert_logged_addr addr t =
     (let hash = addr div of_nat UNDO_BLK_SIZE_B
      in probe (LOGGED_ADDR_HASH_SIZE + 13) hash hash addr t)"

section \<open>The probe sequence\<close>

definition probe_next :: "u64 \<times> u64 \<Rightarrow> u64 \<times> u64" where
  "probe_next = (\<lambda>(i, perturb). (5 * i + perturb + 1, drop_bit 5 perturb))"

definition slot :: "nat \<Rightarrow> u64 \<times> u64 \<Rightarrow> nat" where
  "slot k s = unat (fst ((probe_next ^^ k) s)) mod LOGGED_ADDR_HASH_SIZE"

lemma slot_0: "slot 0 (i, p) = unat i mod LOGGED_ADDR_HASH_SIZE"
  by (simp add: slot_def)

lemma slot_Suc: "slot (Suc k) (i, p) = slot k (5 * i + p + 1, drop_bit 5 p)"
  by (simp add: slot_def funpow_swap1 probe_next_def del: funpow.simps) (simp add: funpow_Suc_right del: funpow.simps)

text \<open>The loop stops at the first slot that is empty or holds the address.\<close>

lemma probe_miss:
  "(\<And>k. k < n \<Longrightarrow> t (slot k (i, p)) \<noteq> 0 \<and> t (slot k (i, p)) \<noteq> a) \<Longrightarrow> probe n i p a t = (True, t)"
proof (induction n arbitrary: i p)
  case 0
  then show ?case by simp
next
  case (Suc n)
  have "t (unat i mod LOGGED_ADDR_HASH_SIZE) \<noteq> 0 \<and> t (unat i mod LOGGED_ADDR_HASH_SIZE) \<noteq> a"
    using Suc.prems [of 0] by (simp add: slot_0)
  moreover have "probe n (5 * i + p + 1) (drop_bit 5 p) a t = (True, t)"
    using Suc.prems [of "Suc k" for k] by (intro Suc.IH) (auto simp: slot_Suc)
  ultimately show ?case by (simp add: Let_def)
qed

lemma probe_hit:
  assumes "k < n" and "t (slot k (i, p)) = 0 \<or> t (slot k (i, p)) = a"
    and "\<And>j. j < k \<Longrightarrow> t (slot j (i, p)) \<noteq> 0 \<and> t (slot j (i, p)) \<noteq> a"
  shows "probe n i p a t =
    (if t (slot k (i, p)) = 0 then (True, t(slot k (i, p) := a)) else (False, t))"
  using assms
proof (induction n arbitrary: i p k)
  case 0
  then show ?case by simp
next
  case (Suc n)
  show ?case
  proof (cases k)
    case 0
    with Suc.prems(2) show ?thesis by (auto simp: slot_0 Let_def)
  next
    case (Suc k')
    have "t (unat i mod LOGGED_ADDR_HASH_SIZE) \<noteq> 0 \<and> t (unat i mod LOGGED_ADDR_HASH_SIZE) \<noteq> a"
      using Suc.prems(3) [of 0] Suc by (simp add: slot_0)
    moreover have "probe n (5 * i + p + 1) (drop_bit 5 p) a t =
        (if t (slot k (i, p)) = 0 then (True, t(slot k (i, p) := a)) else (False, t))"
      using Suc.IH [of k' "5 * i + p + 1" "drop_bit 5 p"] Suc.prems(1,2) Suc.prems(3) [of "Suc j" for j]
      by (simp add: Suc slot_Suc)
    ultimately show ?thesis by (simp add: Let_def)
  qed
qed

section \<open>Every slot is probed\<close>

text \<open>The multiplicative order of 5 modulo a power of two.\<close>

lemma five_odd_power_mod_8: "odd d \<Longrightarrow> (5 :: int) ^ d mod 8 = 5"
proof -
  assume "odd d"
  then obtain e where "d = 2 * e + 1" by (auto elim: oddE)
  moreover have "(25 :: int) ^ e mod 8 = 1"
    using power_mod [of "25 :: int" 8 e] by simp
  ultimately show ?thesis
    using mod_mult_right_eq [of 5 "25 ^ e" "8 :: int"] by (simp add: power_mult)
qed

lemma order_of_five: "(2 :: int) ^ (k + 2) dvd 5 ^ d - 1 \<Longrightarrow> 2 ^ k dvd d"
proof (induction k arbitrary: d)
  case 0
  then show ?case by simp
next
  case (Suc k)
  have "(8 :: int) dvd 2 ^ (Suc k + 2)"
    by (simp add: power_add)
  with Suc.prems have "(8 :: int) dvd 5 ^ d - 1" by (rule dvd_trans [rotated])
  then have "even d"
    using five_odd_power_mod_8 [of d] by (auto simp: mod_eq_dvd_iff [symmetric])
  then obtain e where d: "d = 2 * e" by (auto elim: evenE)
  have "(5 :: int) ^ e mod 4 = 1" using power_mod [of "5 :: int" 4 e] by simp
  then obtain q where q: "(5 :: int) ^ e = 4 * q + 1"
    by (metis mult_div_mod_eq)
  have "(5 :: int) ^ d - 1 = 2 * ((5 ^ e - 1) * (2 * q + 1))"
    by (simp add: d power_mult power2_eq_square power_mult_distrib [symmetric] mult_2 power_add q algebra_simps)
  with Suc.prems have "2 * (2 :: int) ^ (k + 2) dvd 2 * ((5 ^ e - 1) * (2 * q + 1))"
    by simp
  then have "(2 :: int) ^ (k + 2) dvd (5 ^ e - 1) * (2 * q + 1)"
    by (simp only: dvd_mult_cancel_left) simp
  moreover have "coprime ((2 :: int) ^ (k + 2)) (2 * q + 1)"
    by (simp only: coprime_power_left_iff coprime_left_2_iff_odd) simp
  ultimately have "(2 :: int) ^ (k + 2) dvd 5 ^ e - 1"
    by (simp add: coprime_dvd_mult_left_iff)
  from Suc.IH [OF this] show ?case by (simp add: d)
qed

text \<open>The recurrence \<open>x' = 5 x + 1\<close>, once \<open>perturb\<close> has been shifted out.\<close>

fun lcg :: "nat \<Rightarrow> int \<Rightarrow> int" where
  "lcg 0 x = x"
| "lcg (Suc n) x = lcg n (5 * x + 1)"

lemma lcg_closed: "4 * lcg n x + 1 = 5 ^ n * (4 * x + 1)"
proof (induction n arbitrary: x)
  case 0
  then show ?case by simp
next
  case (Suc n)
  from Suc [of "5 * x + 1"] show ?case by (simp add: distrib_left)
qed

lemma lcg_distinct_aux:
  assumes "m < n" and "n < 2 ^ 14"
  shows "lcg m x mod 2 ^ 14 \<noteq> lcg n x mod 2 ^ 14"
proof
  assume eq: "lcg m x mod 2 ^ 14 = lcg n x mod 2 ^ 14"
  then have "(2 :: int) ^ 14 dvd lcg n x - lcg m x"
    by (metis mod_eq_dvd_iff)
  then have "4 * (2 :: int) ^ 14 dvd 4 * (lcg n x - lcg m x)" by (rule mult_dvd_mono [OF dvd_refl])
  moreover have "4 * (lcg n x - lcg m x) = 5 ^ n * (4 * x + 1) - 5 ^ m * (4 * x + 1)"
    using lcg_closed [of n x] lcg_closed [of m x] by (simp add: algebra_simps)
  moreover have "\<dots> = (5 ^ (n - m) - 1) * (5 ^ m * (4 * x + 1))"
    using assms(1) by (simp add: algebra_simps flip: power_add)
  ultimately have "(2 :: int) ^ (14 + 2) dvd (5 ^ (n - m) - 1) * (5 ^ m * (4 * x + 1))" by simp
  moreover have "odd (5 ^ m * (4 * x + 1))" by simp
  then have "coprime ((2 :: int) ^ (14 + 2)) (5 ^ m * (4 * x + 1))"
    by (simp only: coprime_power_left_iff coprime_left_2_iff_odd) simp
  ultimately have "(2 :: int) ^ (14 + 2) dvd 5 ^ (n - m) - 1"
    by (simp add: coprime_dvd_mult_left_iff del: power_Suc)
  then have "2 ^ 14 dvd n - m" by (rule order_of_five)
  then show False using assms dvd_imp_le [of "2 ^ 14" "n - m"] by simp
qed

lemma lcg_covers:
  assumes "r < (2 :: nat) ^ 14"
  shows "\<exists>n < 2 ^ 14. lcg n x mod 2 ^ 14 = int r"
proof -
  let ?f = "\<lambda>n. nat (lcg n x mod 2 ^ 14)"
  have "inj_on ?f {..<2 ^ 14}"
  proof (rule inj_onI)
    fix m n
    assume mn: "m \<in> {..<2 ^ 14 :: nat}" "n \<in> {..<2 ^ 14}" "?f m = ?f n"
    then have "lcg m x mod 2 ^ 14 = lcg n x mod 2 ^ 14"
      by (simp add: eq_nat_nat_iff)
    with mn lcg_distinct_aux [of m n x] lcg_distinct_aux [of n m x] show "m = n"
      by (metis lessThan_iff nat_neq_iff)
  qed
  moreover have "?f ` {..<2 ^ 14} \<subseteq> {..<2 ^ 14}"
    by (auto simp: nat_less_iff)
  ultimately have "?f ` {..<2 ^ 14} = {..<2 ^ 14}"
    by (intro endo_inj_surj) auto
  with assms obtain n where "n < 2 ^ 14" "r = ?f n" by (auto simp: image_iff set_eq_iff)
  then show ?thesis by auto
qed


lemma lcg_mod_cong: "x mod M = y mod M \<Longrightarrow> lcg n x mod M = lcg n y mod M"
proof (induction n arbitrary: x y)
  case 0
  then show ?case by simp
next
  case (Suc n)
  have "(5 * x + 1) mod M = (5 * y + 1) mod M"
    using Suc.prems by (intro mod_add_cong mod_mult_cong) auto
  from Suc.IH [OF this] show ?case by simp
qed

lemma slot_lcg: "int (slot n (i, 0)) = lcg n (int (unat i)) mod 2 ^ 14"
proof (induction n arbitrary: i)
  case 0
  then show ?case by (simp add: slot_0 log_simps zmod_int)
next
  case (Suc n)
  have "unat (5 * i + 1) = (5 * unat i + 1) mod 2 ^ 64"
    by (simp add: unat_word_ariths mod_simps)
  then have "unat (5 * i + 1) mod 2 ^ 14 = (5 * unat i + 1) mod 2 ^ 14"
    by (simp only:) (rule mod_mod_cancel, simp add: dvd_def)
  then have "int (unat (5 * i + 1)) mod 2 ^ 14 = (5 * int (unat i) + 1) mod 2 ^ 14"
    by (metis (mono_tags) of_nat_mod of_nat_add of_nat_mult of_nat_numeral of_nat_1 of_nat_power)
  from lcg_mod_cong [OF this] Suc show ?case by (simp add: slot_Suc)
qed

lemma slot_add: "slot (k + n) s = slot n ((probe_next ^^ k) s)"
  by (simp add: slot_def add.commute [of k n] funpow_add)

lemma perturb_iter: "snd ((probe_next ^^ k) (i, p)) = drop_bit (5 * k) p"
  by (induction k) (auto simp: probe_next_def split: prod.splits)

lemma perturb_gone: "snd ((probe_next ^^ 12) (i, a div 32)) = 0"
proof -
  have "unat (a div 32) < 2 ^ 59"
    using unat_u64_less [of a] by (simp add: unat_div less_mult_imp_div_less)
  then have "unat (drop_bit 60 (a div 32)) = 0"
    by (simp add: unat_drop_bit_eq drop_bit_eq_div unat_div)
  then show ?thesis by (simp only: perturb_iter) (simp add: unat_0_iff)
qed

abbreviation home :: "u64 \<Rightarrow> u64 \<times> u64" where
  "home a \<equiv> (a div 32, a div 32)"

lemma probes_every_slot:
  assumes "r < LOGGED_ADDR_HASH_SIZE"
  shows "\<exists>k < LOGGED_ADDR_HASH_SIZE + 13. slot k (home a) = r"
proof -
  obtain i where i: "(probe_next ^^ 12) (home a) = (i, 0)"
    using perturb_gone [of "a div 32" a] by (metis prod.collapse)
  obtain n where n: "n < 2 ^ 14" "lcg n (int (unat i)) mod 2 ^ 14 = int r"
    using assms lcg_covers [of r] by (auto simp: log_simps)
  then have "int (slot (12 + n) (home a)) = int r"
    by (simp only: slot_add i slot_lcg)
  with n(1) show ?thesis
    by (intro exI [of _ "12 + n"]) (simp add: log_simps)
qed

section \<open>The table as a set of addresses\<close>

definition stored :: "addr_table \<Rightarrow> u64 set" where
  "stored t = {a. a \<noteq> 0 \<and> (\<exists>s < LOGGED_ADDR_HASH_SIZE. t s = a)}"

definition has_room :: "addr_table \<Rightarrow> bool" where
  "has_room t \<longleftrightarrow> (\<exists>s < LOGGED_ADDR_HASH_SIZE. t s = 0)"

text \<open>Every stored address sits on its own probe path, with no empty slot before it.\<close>

definition findable :: "addr_table \<Rightarrow> bool" where
  "findable t \<longleftrightarrow> (\<forall>a \<in> stored t. \<exists>k < LOGGED_ADDR_HASH_SIZE + 13.
     t (slot k (home a)) = a \<and> (\<forall>j < k. t (slot j (home a)) \<noteq> 0))"

lemma slot_less [simp]: "slot k s < LOGGED_ADDR_HASH_SIZE"
  by (simp add: slot_def log_simps)

lemma insert_logged_probe:
  "undo_log_insert_logged_addr a t = probe (LOGGED_ADDR_HASH_SIZE + 13) (a div 32) (a div 32) a t"
  by (simp add: undo_log_insert_logged_addr_def Let_def UNDO_BLK_SIZE_B_def)

lemma insert_cases:
  obtains (miss) "undo_log_insert_logged_addr a t = (True, t)"
      "\<And>s. s < LOGGED_ADDR_HASH_SIZE \<Longrightarrow> t s \<noteq> 0 \<and> t s \<noteq> a"
  | (new) k where "k < LOGGED_ADDR_HASH_SIZE + 13" "t (slot k (home a)) = 0"
      "\<And>j. j < k \<Longrightarrow> t (slot j (home a)) \<noteq> 0 \<and> t (slot j (home a)) \<noteq> a"
      "undo_log_insert_logged_addr a t = (True, t(slot k (home a) := a))"
  | (old) k where "k < LOGGED_ADDR_HASH_SIZE + 13" "t (slot k (home a)) = a" "a \<noteq> 0"
      "\<And>j. j < k \<Longrightarrow> t (slot j (home a)) \<noteq> 0 \<and> t (slot j (home a)) \<noteq> a"
      "undo_log_insert_logged_addr a t = (False, t)"
proof (cases "\<exists>k < LOGGED_ADDR_HASH_SIZE + 13. t (slot k (home a)) = 0 \<or> t (slot k (home a)) = a")
  case False
  then have "undo_log_insert_logged_addr a t = (True, t)"
    unfolding insert_logged_probe by (intro probe_miss) auto
  moreover have "t s \<noteq> 0 \<and> t s \<noteq> a" if "s < LOGGED_ADDR_HASH_SIZE" for s
    using probes_every_slot [OF that, of a] False by auto
  ultimately show thesis by (rule miss)
next
  case True
  define k where "k = (LEAST k. k < LOGGED_ADDR_HASH_SIZE + 13 \<and>
    (t (slot k (home a)) = 0 \<or> t (slot k (home a)) = a))"
  have k: "k < LOGGED_ADDR_HASH_SIZE + 13" "t (slot k (home a)) = 0 \<or> t (slot k (home a)) = a"
    using LeastI_ex [OF True] by (auto simp: k_def)
  have before: "t (slot j (home a)) \<noteq> 0 \<and> t (slot j (home a)) \<noteq> a" if "j < k" for j
    using not_less_Least [OF that [unfolded k_def]] that k(1) by auto
  have hit: "undo_log_insert_logged_addr a t =
      (if t (slot k (home a)) = 0 then (True, t(slot k (home a) := a)) else (False, t))"
    unfolding insert_logged_probe using k before by (rule probe_hit)
  show thesis
  proof (cases "t (slot k (home a)) = 0")
    case True
    with new [OF k(1) True before] hit show thesis by simp
  next
    case False
    with old [OF k(1) _ _ before] k(2) hit show thesis by auto
  qed
qed

lemma stored_upd_empty:
  assumes "t s = 0" and "s < LOGGED_ADDR_HASH_SIZE" and "a \<noteq> 0"
  shows "stored (t(s := a)) = insert a (stored t)"
proof (intro set_eqI iffI)
  fix b
  assume "b \<in> stored (t(s := a))"
  then show "b \<in> insert a (stored t)" by (auto simp: stored_def split: if_splits)
next
  fix b
  assume b: "b \<in> insert a (stored t)"
  show "b \<in> stored (t(s := a))"
  proof (cases "b = a")
    case True
    with assms show ?thesis by (auto simp: stored_def)
  next
    case False
    with b obtain s' where "b \<noteq> 0" "s' < LOGGED_ADDR_HASH_SIZE" "t s' = b" by (auto simp: stored_def)
    moreover have "s' \<noteq> s" using calculation assms(1) by auto
    ultimately show ?thesis by (auto simp: stored_def)
  qed
qed

lemma insert_stored:
  assumes "a \<noteq> 0"
  shows "stored (snd (undo_log_insert_logged_addr a t)) =
           (if has_room t then insert a (stored t) else stored t) \<and>
         (\<not> fst (undo_log_insert_logged_addr a t) \<longrightarrow> a \<in> stored t)"
proof (cases rule: insert_cases [of a t])
  case miss
  then show ?thesis by (auto simp: has_room_def)
next
  case (new k)
  then have "has_room t" unfolding has_room_def using slot_less by blast
  with new assms show ?thesis by (simp add: stored_upd_empty)
next
  case (old k)
  have "a \<in> stored t" using old(2,3) unfolding stored_def using slot_less by blast
  with old(5) show ?thesis by auto
qed

lemma findable_insert_new:
  assumes "findable t" and "a \<noteq> 0" and k: "k < LOGGED_ADDR_HASH_SIZE + 13" "t (slot k (home a)) = 0"
    and before: "\<And>j. j < k \<Longrightarrow> t (slot j (home a)) \<noteq> 0"
  shows "findable (t(slot k (home a) := a))"
  unfolding findable_def
proof
  let ?s = "slot k (home a)"
  let ?t = "t(?s := a)"
  fix b
  assume b: "b \<in> stored ?t"
  show "\<exists>k < LOGGED_ADDR_HASH_SIZE + 13. ?t (slot k (home b)) = b \<and> (\<forall>j < k. ?t (slot j (home b)) \<noteq> 0)"
  proof (cases "b = a")
    case True
    with k before assms(2) show ?thesis by (intro exI [of _ k]) auto
  next
    case False
    with b have "b \<in> stored t" "b \<noteq> 0" by (auto simp: stored_def split: if_splits)
    then obtain kb where "kb < LOGGED_ADDR_HASH_SIZE + 13" "t (slot kb (home b)) = b"
      "\<forall>j < kb. t (slot j (home b)) \<noteq> 0"
      using assms(1) by (auto simp: findable_def)
    moreover have "slot kb (home b) \<noteq> ?s" using calculation k(2) \<open>b \<noteq> 0\<close> by auto
    ultimately show ?thesis using assms(2) by (intro exI [of _ kb]) auto
  qed
qed

lemma insert_findable:
  assumes "a \<noteq> 0" and "findable t"
  shows "findable (snd (undo_log_insert_logged_addr a t)) \<and>
         (fst (undo_log_insert_logged_addr a t) \<longleftrightarrow> a \<notin> stored t)"
proof (cases rule: insert_cases [of a t])
  case miss
  then show ?thesis using assms by (auto simp: stored_def)
next
  case (new k)
  have "findable (snd (undo_log_insert_logged_addr a t))"
    unfolding new(4) snd_conv using new(3) by (intro findable_insert_new assms new(1,2)) auto
  moreover have "a \<notin> stored t"
  proof
    assume "a \<in> stored t"
    then obtain j where j: "t (slot j (home a)) = a" "\<forall>i < j. t (slot i (home a)) \<noteq> 0"
      using assms(2) by (auto simp: findable_def)
    with new(2,3) assms(1) show False by (metis linorder_neqE_nat)
  qed
  ultimately show ?thesis using new(4) by simp
next
  case (old k)
  have "a \<in> stored t" using old(2,3) unfolding stored_def using slot_less by blast
  with old(5) assms show ?thesis by auto
qed

section \<open>The interface of the undo log\<close>

text \<open>
  What the log relies on: an address that is reported as known was inserted since the table was
  cleared, and nothing else gets in.
\<close>

locale logged_index =
  fixes known :: "'t \<Rightarrow> u64 set"
    and ins :: "u64 \<Rightarrow> 't \<Rightarrow> bool \<times> 't"
    and none :: 't
  assumes known_none: "known none = {}"
    and ins_upper: "a \<noteq> 0 \<Longrightarrow> known (snd (ins a t)) \<subseteq> insert a (known t)"
    and ins_lower: "a \<noteq> 0 \<Longrightarrow> known t \<subseteq> known (snd (ins a t))"
    and ins_dup: "a \<noteq> 0 \<Longrightarrow> \<not> fst (ins a t) \<Longrightarrow> a \<in> known t"
begin

lemma ins_covered:
  "a \<noteq> 0 \<Longrightarrow> known t \<subseteq> L \<Longrightarrow> \<not> fst (ins a t) \<Longrightarrow> a \<in> L"
  using ins_dup by blast

lemma ins_covered_step:
  "a \<noteq> 0 \<Longrightarrow> known t \<subseteq> L \<Longrightarrow> known (snd (ins a t)) \<subseteq> insert a L"
  using ins_upper by blast

lemma known_fold:
  "\<forall>a \<in> set as. a \<noteq> 0 \<Longrightarrow> known (fold (\<lambda>a t. snd (ins a t)) as t) \<subseteq> set as \<union> known t"
proof (induction as arbitrary: t)
  case Nil
  then show ?case by simp
next
  case (Cons a as)
  then have "known (fold (\<lambda>a t. snd (ins a t)) as (snd (ins a t))) \<subseteq> set as \<union> known (snd (ins a t))"
    by simp
  with ins_upper [of a t] Cons.prems show ?case by auto
qed

end

interpretation ah: logged_index stored undo_log_insert_logged_addr "\<lambda>_. 0"
proof
  show "stored (\<lambda>_. 0) = {}" by (simp add: stored_def)
qed (use insert_stored in \<open>auto split: if_splits\<close>)


section \<open>The emitted fast path\<close>

text \<open>
  The instructions that \<open>undo_insert_fast_path\<close> inserts, over the two reserved registers
  \<open>reg_dst\<close> (the destination address, never overwritten) and \<open>reg_t1\<close>.
\<close>

datatype fast_instr =
    Lea u64         \<comment> \<open>lea [reg_dst + disp], reg_t1\<close>
  | XorDst          \<comment> \<open>xor reg_dst, reg_t1\<close>
  | Cmp u64         \<comment> \<open>cmp imm, reg_t1\<close>
  | JaSlow          \<comment> \<open>ja SLOW_PATH\<close>
  | MovDst          \<comment> \<open>mov reg_dst, reg_t1\<close>
  | Shr nat         \<comment> \<open>shr imm, reg_t1\<close>
  | AndImm u64      \<comment> \<open>and imm, reg_t1\<close>
  | LoadHash        \<comment> \<open>mov logged_addrs_hash(reg_t1), reg_t1\<close>
  | JbSkip          \<comment> \<open>jb SKIP\<close>

datatype fast_target = SlowPath | Skip

definition log2_ptr_size :: nat where
  "log2_ptr_size = 3"

definition log2_UNDO_BLK_SIZE_B :: nat where
  "log2_UNDO_BLK_SIZE_B = 5"

definition undo_insert_fast_path :: "u32 \<Rightarrow> fast_instr list result" where
  "undo_insert_fast_path sz =
     (if sz > 32 then Inr []
      else dr_assert (sz > 0 \<and> (sz AND (sz - 1)) = 0) ''size > 0 && (size & (size - 1)) == 0''
        (Inr ((if sz > 1 then [Lea (ucast (sz - 1)), XorDst, Cmp (of_nat (UNDO_BLK_SIZE_B - 1)), JaSlow]
               else []) @
              [MovDst, Shr (log2_UNDO_BLK_SIZE_B - log2_ptr_size),
               AndImm (of_nat ((LOGGED_ADDR_HASH_SIZE - 1) * 8)), LoadHash, XorDst,
               Cmp (of_nat UNDO_BLK_SIZE_B), JbSkip])))"

text \<open>
  Running them: \<open>c\<close> is the immediate of the last comparison, against the present \<open>reg_t1\<close>.
  Falling off the end reaches the slow path, which follows.
\<close>

fun fast_run :: "addr_table \<Rightarrow> u64 \<Rightarrow> u64 \<Rightarrow> u64 \<Rightarrow> fast_instr list \<Rightarrow> fast_target" where
  "fast_run t dst r c [] = SlowPath"
| "fast_run t dst r c (Lea d # is) = fast_run t dst (dst + d) c is"
| "fast_run t dst r c (XorDst # is) = fast_run t dst (r XOR dst) c is"
| "fast_run t dst r c (Cmp imm # is) = fast_run t dst r imm is"
| "fast_run t dst r c (JaSlow # is) = (if r > c then SlowPath else fast_run t dst r c is)"
| "fast_run t dst r c (MovDst # is) = fast_run t dst dst c is"
| "fast_run t dst r c (Shr n # is) = fast_run t dst (drop_bit n r) c is"
| "fast_run t dst r c (AndImm m # is) = fast_run t dst (r AND m) c is"
| "fast_run t dst r c (LoadHash # is) = fast_run t dst (t (unat r div 8)) c is"
| "fast_run t dst r c (JbSkip # is) = (if r < c then Skip else fast_run t dst r c is)"

definition undo_block :: "u64 \<Rightarrow> u64" where
  "undo_block a = a AND NOT 31"

lemma undo_block_eq: "undo_block a = push_bit 5 (drop_bit 5 a)"
proof -
  have m: "(31 :: u64) = mask 5" by (simp add: mask_eq_exp_minus_1)
  show ?thesis
    unfolding undo_block_def m by (intro bit_word_eqI) (auto simp: bit_simps)
qed

lemma drop_bit_undo_block: "drop_bit 5 (undo_block a) = drop_bit 5 a"
  by (rule bit_word_eqI) (auto simp: undo_block_eq bit_simps dest: bit_imp_le_length)

lemma undo_block_eq_iff: "undo_block a = undo_block b \<longleftrightarrow> drop_bit 5 a = drop_bit 5 b"
  using drop_bit_undo_block by (metis undo_block_eq)

lemma unat_block [word_nat]: "unat (drop_bit 5 (a :: u64)) = unat a div 32"
  by (simp add: unat_drop_bit_eq drop_bit_eq_div unat_div)

lemma undo_block_eq_nat: "undo_block a = undo_block b \<longleftrightarrow> unat a div 32 = unat b div 32"
  unfolding undo_block_eq_iff word_eq_iff_unat [of "drop_bit 5 a"] unat_block ..

lemma xor_small_iff: "(a XOR b) < (32 :: u64) \<longleftrightarrow> undo_block a = undo_block b"
proof -
  have "(a XOR b) < 32 \<longleftrightarrow> unat (a XOR b) div 32 = 0"
    by (simp add: word_less_nat_alt div_eq_0_iff)
  also have "\<dots> \<longleftrightarrow> drop_bit 5 (a XOR b) = 0"
    by (simp only: unat_block [symmetric] unat_0_iff)
  also have "\<dots> \<longleftrightarrow> drop_bit 5 a XOR drop_bit 5 b = 0"
    by (simp only: drop_bit_xor)
  also have "\<dots> \<longleftrightarrow> drop_bit 5 a = drop_bit 5 b"
    by (auto simp: bit_eq_iff bit_simps)
  finally show ?thesis by (simp add: undo_block_eq_iff)
qed

text \<open>The byte offset that the emitted code loads from is the home slot of the block.\<close>

lemma fast_index:
  "unat (drop_bit 2 dst AND 131064) div 8 = slot 0 (home (undo_block dst))"
proof -
  have m: "(131064 :: u64) = push_bit 3 (mask 14)"
    by (simp add: mask_eq_exp_minus_1)
  have "drop_bit 3 (drop_bit 2 dst AND 131064) = take_bit 14 (drop_bit 5 dst)"
    unfolding m by (intro bit_word_eqI) (auto simp: bit_simps)
  moreover have "unat (drop_bit 3 (drop_bit 2 dst AND 131064)) = unat (drop_bit 2 dst AND 131064) div 8"
    by (simp only: unat_drop_bit_eq drop_bit_eq_div) (simp add: unat_div)
  moreover have "unat (take_bit 14 (drop_bit 5 dst)) = unat (drop_bit 5 dst) mod 16384"
    by (simp only: unsigned_take_bit_eq take_bit_eq_mod) (simp add: unat_mod)
  moreover have "undo_block dst div 32 = drop_bit 5 dst"
    using drop_bit_undo_block [of dst] by (simp add: drop_bit_eq_div)
  ultimately show ?thesis by (simp add: slot_0 log_simps)
qed

lemma same_block_between:
  assumes "undo_block (dst + of_nat k) = undo_block dst" and "i \<le> k" and "k < 32"
  shows "undo_block (dst + of_nat i) = undo_block dst"
proof -
  have eq: "unat (dst + of_nat k) div 32 = unat dst div 32"
    using assms(1) by (simp only: undo_block_eq_nat)
  have nw: "unat dst + k < 18446744073709551616"
  proof (rule ccontr)
    assume "\<not> ?thesis"
    then have "unat (dst + of_nat k) = unat dst + k - 18446744073709551616"
      using assms(3) unat_u64_less [of dst] by (simp add: unat_word_ariths unat_of_nat_small mod_if)
    then have "unat (dst + of_nat k) < 32" using assms(3) unat_u64_less [of dst] by linarith
    then have "unat dst div 32 = 0" using eq by simp
    then have "unat dst < 32" by (simp add: div_eq_0_iff)
    with \<open>\<not> _\<close> assms(3) show False by linarith
  qed
  then have "(unat dst + i) div 32 = unat dst div 32"
    using eq assms(2) div_le_mono [of "unat dst + i" "unat dst + k" 32] div_le_mono [of "unat dst" "unat dst + i" 32]
    by (simp add: unat_add_of_nat)
  with nw assms(2) show ?thesis by (simp add: undo_block_eq_nat unat_add_of_nat)
qed

lemma fast_lookup:
  assumes "fast_run t dst r c [MovDst, Shr 2, AndImm (of_nat ((LOGGED_ADDR_HASH_SIZE - 1) * 8)), LoadHash,
             XorDst, Cmp (of_nat UNDO_BLK_SIZE_B), JbSkip] = Skip"
  shows "undo_block (t (slot 0 (home (undo_block dst)))) = undo_block dst"
  using assms by (simp add: fast_index [unfolded One_nat_def] xor_small_iff log_simps split: if_splits)

section \<open>Properties\<close>

text \<open>
  C19. Inserting an address into a table in which every stored address is findable reports it
  as new exactly when it is not stored, keeps the table findable, keeps every other address, and
  stores the address whenever a slot is free: the \<open>LOGGED_ADDR_HASH_SIZE + 13\<close> probes reach
  every slot.
\<close>

theorem undo_log_insert_logged_addr_correct:
  assumes "a \<noteq> 0" and "findable t"
  shows "(fst (undo_log_insert_logged_addr a t) \<longleftrightarrow> a \<notin> stored t) \<and>
         findable (snd (undo_log_insert_logged_addr a t)) \<and>
         stored (snd (undo_log_insert_logged_addr a t)) =
           (if has_room t then insert a (stored t) else stored t)"
  using insert_findable [OF assms] insert_stored [OF assms(1), of t] by simp

theorem undo_log_insert_logged_addr_correct_witness:
  "(64 :: u64) \<noteq> 0 \<and> findable (\<lambda>_. 0) \<and> fst (undo_log_insert_logged_addr 64 (\<lambda>_. 0)) \<and>
   64 \<in> stored (snd (undo_log_insert_logged_addr 64 (\<lambda>_. 0)))"
proof -
  have h: "(64 :: u64) \<noteq> 0" "findable (\<lambda>_. 0)" by (simp_all add: findable_def stored_def)
  have "has_room (\<lambda>_. 0)" by (auto simp: has_room_def log_simps intro: exI [of _ 0])
  moreover have "stored (\<lambda>_. 0) = {}" by (simp add: stored_def)
  ultimately show ?thesis using h undo_log_insert_logged_addr_correct [OF h] by simp
qed

text \<open>A store that the emitted code sends to the skip label lies inside one block, which the table has.\<close>

lemma skip_logged:
  assumes "undo_insert_fast_path sz = Inr code" and "fast_run t dst r c code = Skip"
    and "\<forall>s < LOGGED_ADDR_HASH_SIZE. undo_block (t s) = t s" and "32 \<le> dst"
  shows "(\<forall>i < unat sz. undo_block (dst + of_nat i) = undo_block dst) \<and>
         undo_log_insert_logged_addr (undo_block dst) t = (False, t)"
proof -
  have sz: "sz \<le> 32" "0 < unat sz"
    using assms(1,2) by (auto simp: undo_insert_fast_path_def word_gt_0 unat_gt_0 split: if_splits)
  have tail: "fast_run t dst r' c' [MovDst, Shr 2, AndImm (of_nat ((LOGGED_ADDR_HASH_SIZE - 1) * 8)),
      LoadHash, XorDst, Cmp (of_nat UNDO_BLK_SIZE_B), JbSkip] = Skip" for r' c'
    using assms(1,2)
    by (auto simp: undo_insert_fast_path_def log2_ptr_size_def log2_UNDO_BLK_SIZE_B_def split: if_splits)
  let ?s = "slot 0 (home (undo_block dst))"
  have "t ?s = undo_block dst"
    using fast_lookup [OF tail] assms(3) by simp
  moreover have "undo_block dst \<noteq> 0"
  proof
    assume "undo_block dst = 0"
    then have "unat dst div 32 = 0"
      using drop_bit_undo_block [of dst] by (simp flip: unat_block)
    with assms(4) show False by (simp add: word_le_nat_alt div_eq_0_iff)
  qed
  ultimately have "undo_log_insert_logged_addr (undo_block dst) t = (False, t)"
    unfolding insert_logged_probe
    using probe_hit [of 0 "LOGGED_ADDR_HASH_SIZE + 13" t _ _ "undo_block dst"] by simp
  moreover have "undo_block (dst + of_nat i) = undo_block dst" if "i < unat sz" for i
  proof (cases "sz > 1")
    case True
    have "ucast (sz - 1) = (of_nat (unat sz - 1) :: u64)"
    proof -
      have "sz \<noteq> 0" using True by auto
      then have "unat (sz - 1) = unat sz - 1" by (rule unat_minus_one)
      then show ?thesis by (metis of_nat_unat)
    qed
    moreover have "((dst + ucast (sz - 1)) XOR dst) < 32"
      using assms(1,2) True
      by (auto simp: undo_insert_fast_path_def UNDO_BLK_SIZE_B_def word_less_nat_alt word_le_nat_alt split: if_splits)
    ultimately have "undo_block (dst + of_nat (unat sz - 1)) = undo_block dst"
      by (simp add: xor_small_iff)
    moreover have "i \<le> unat sz - 1" and "unat sz - 1 < 32"
      using that sz by (auto simp: word_le_nat_alt)
    ultimately show ?thesis by (rule same_block_between)
  next
    case False
    then have "unat sz = 1" using sz by (auto simp: word_less_nat_alt)
    with that show ?thesis by simp
  qed
  ultimately show ?thesis by blast
qed

end
