(* ===== verification/Undo_Log.thy ===== *)
theory Undo_Log
  imports Memset_NT Ranges Addr_Hash
begin

text \<open>
  The undo log of \<^verbatim>\<open>src/src/undo/undo_log.h\<close> and its caller \<open>record_write\<close> of
  \<^verbatim>\<open>src/src/undo/instrument.cc\<close>. The log is an array of line-sized entries in persistent memory, kept
  at byte level in the memory of theory Pmem; \<open>undo_log\<close> is the static struct of the source
  with that memory beside it. The compile-time switch \<open>OPTIMIZE_DEDUPLICATE\<close> is the argument
  \<open>dedup\<close>. A loop that may run forever on wrapping addresses returns an option, \<open>None\<close>
  standing for "does not return". This theory holds the operations and their functional lemmas;
  crash consistency is in theory Undo_Crash.
\<close>

section \<open>Constants and entries\<close>

definition UNDO_NUM_ENTRIES :: nat where [log_simps]:
  "UNDO_NUM_ENTRIES = 1024 * 512"

definition CACHE_LINE_SIZE_B :: nat where [log_simps]:
  "CACHE_LINE_SIZE_B = 64"

definition COMMIT_THRESHOLD :: nat where
  "COMMIT_THRESHOLD = LOGGED_ADDR_HASH_SIZE div 2"

record undo_log_entry =
  blk :: "byte list"
  entry_addr :: u64
  commit_tail :: u64

definition is_null :: "undo_log_entry \<Rightarrow> bool" where
  "is_null e \<longleftrightarrow> entry_addr e = 0 \<and> commit_tail e = 0"

text \<open>
  The layout of the struct: 32 bytes of block, the address at offset 32, the tail at offset 40,
  padding up to the line.
\<close>

definition entry_at :: "addr \<Rightarrow> nat \<Rightarrow> addr" where
  "entry_at base i = base + of_nat (CACHE_LINE_SIZE_B * i)"

definition read_entry :: "mem \<Rightarrow> addr \<Rightarrow> undo_log_entry" where
  "read_entry m e = \<lparr>blk = rd m e UNDO_BLK_SIZE_B, entry_addr = load_u64 m (e + 32),
     commit_tail = load_u64 m (e + 40)\<rparr>"

record undo_log =
  ul_log :: addr
  ul_len :: nat
  logged_addrs_hash :: addr_table
  fresh_regions :: "range list"
  ul_mem :: pmem

section \<open>Operations\<close>

definition undo_log_clear :: "bool \<Rightarrow> undo_log \<Rightarrow> undo_log" where
  "undo_log_clear dedup ul =
     ul\<lparr>ul_mem := pmem_drain (memset_movnt_avx (ul_log ul) 0 (ul_len ul * CACHE_LINE_SIZE_B) (ul_mem ul)),
        ul_len := 0,
        logged_addrs_hash := (if dedup then (\<lambda>_. 0) else logged_addrs_hash ul),
        fresh_regions := ranges_clear (fresh_regions ul)\<rparr>"

text \<open>The scan of \<open>undo_log_init\<close> after a restart, up to the first null entry.\<close>

partial_function (option) undo_scan ::
  "bool \<Rightarrow> addr \<Rightarrow> mem \<Rightarrow> nat \<Rightarrow> addr_table \<Rightarrow> (nat \<times> addr_table) result option" where
  "undo_scan dedup base m i t =
     (let e = read_entry m (entry_at base i) in
      if is_null e then Some (Inr (i, t))
      else let t' = (if dedup then snd (undo_log_insert_logged_addr (entry_addr e) t) else t) in
        if commit_tail e > 0 \<and> entry_addr e \<noteq> 0 then Some (Inl (Assertion ''entry->addr == nullptr''))
        else undo_scan dedup base m (Suc i) t')"

text \<open>
  \<open>log\<close> is where \<open>map_undo_log\<close> mapped the file and \<open>hash_mem\<close> the address of the table with
  its unspecified first contents \<open>hash0\<close>. The struct is static, so its length starts at zero.
\<close>

definition undo_log_init ::
  "bool \<Rightarrow> addr \<Rightarrow> u64 \<Rightarrow> addr_table \<Rightarrow> bool \<Rightarrow> pmem \<Rightarrow> undo_log result option" where
  "undo_log_init dedup log hash_mem hash0 recovered P =
     (if unat log mod CACHE_LINE_SIZE_B \<noteq> 0 then Some (Inl (Assertion ''log % CACHE_LINE_SIZE_B == 0''))
      else if dedup \<and> \<not> hash_mem < 0xFFFFFFFF
        then Some (Inl (Assertion ''logged_addrs_hash address exceeds 32 bits''))
      else let ul = \<lparr>ul_log = log, ul_len = 0, logged_addrs_hash = hash0, fresh_regions = [], ul_mem = P\<rparr> in
        if recovered
        then map_option (\<lambda>r. bind_result r (\<lambda>(n, t). Inr (ul\<lparr>ul_len := n, logged_addrs_hash := t\<rparr>)))
               (undo_scan dedup log (cur P) 0 (if dedup then (\<lambda>_. 0) else hash0))
        else Some (Inr (undo_log_clear dedup ul)))"

text \<open>The loop body of \<open>undo_log_record\<close>: save one block.\<close>

definition write_entry :: "addr \<Rightarrow> addr \<Rightarrow> pmem \<Rightarrow> pmem" where
  "write_entry e p P =
     pmem_flush e
       (store_u64 (e + 40) 0
         (store_u64 (e + 32) p
           (store_bytes e (rd (cur P) p UNDO_BLK_SIZE_B) P)))"

definition log_block :: "bool \<Rightarrow> addr \<Rightarrow> undo_log \<Rightarrow> undo_log" where
  "log_block dedup p ul =
     (let (fresh, t) = (if dedup then undo_log_insert_logged_addr p (logged_addrs_hash ul)
                        else (True, logged_addrs_hash ul))
      in if \<not> fresh then ul\<lparr>logged_addrs_hash := t\<rparr>
         else ul\<lparr>logged_addrs_hash := t,
                 ul_mem := write_entry (entry_at (ul_log ul) (ul_len ul)) p (ul_mem ul),
                 ul_len := ul_len ul + 1\<rparr>)"

partial_function (option) record_loop :: "bool \<Rightarrow> addr \<Rightarrow> addr \<Rightarrow> undo_log \<Rightarrow> undo_log option" where
  "record_loop dedup pn lim ul =
     (if pn < lim then record_loop dedup (pn + of_nat UNDO_BLK_SIZE_B) lim (log_block dedup pn ul)
      else Some ul)"

definition undo_log_record :: "bool \<Rightarrow> addr \<Rightarrow> u32 \<Rightarrow> undo_log \<Rightarrow> (undo_log \<times> bool) option" where
  "undo_log_record dedup addr sz ul =
     (if ranges_find (fresh_regions ul) addr (ucast sz) then Some (ul, False)
      else case record_loop dedup (undo_block addr) (addr + ucast sz) ul of
        None \<Rightarrow> None
      | Some ul1 \<Rightarrow> let ul2 = ul1\<lparr>ul_mem := pmem_drain (ul_mem ul1)\<rparr>
                     in Some (ul2, ul_len ul2 > COMMIT_THRESHOLD))"

definition undo_log_record_fresh_region :: "addr \<Rightarrow> u32 \<Rightarrow> undo_log \<Rightarrow> undo_log" where
  "undo_log_record_fresh_region addr sz ul =
     ul\<lparr>fresh_regions := ranges_insert addr (ucast sz) (fresh_regions ul)\<rparr>"

definition undo_log_remove_fresh_region :: "addr \<Rightarrow> u32 \<Rightarrow> undo_log \<Rightarrow> undo_log result" where
  "undo_log_remove_fresh_region addr sz ul =
     bind_result (ranges_remove addr (ucast sz) (fresh_regions ul))
       (\<lambda>v. Inr (ul\<lparr>fresh_regions := v\<rparr>))"

text \<open>The two flushing loops of \<open>undo_log_commit\<close>.\<close>

fun flush_logged :: "addr \<Rightarrow> nat \<Rightarrow> pmem \<Rightarrow> pmem" where
  "flush_logged base 0 P = P"
| "flush_logged base (Suc n) P =
     (let P' = flush_logged base n P
      in pmem_flush (entry_addr (read_entry (cur P') (entry_at base n))) P')"

partial_function (option) flush_lines :: "addr \<Rightarrow> addr \<Rightarrow> pmem \<Rightarrow> pmem option" where
  "flush_lines p lim P =
     (if p < lim then flush_lines (p + of_nat CACHE_LINE_SIZE_B) lim (pmem_flush p P) else Some P)"

definition flush_region :: "addr \<Rightarrow> u64 \<Rightarrow> pmem option \<Rightarrow> pmem option" where
  "flush_region addr_n sz Q =
     (case Q of None \<Rightarrow> None
      | Some P \<Rightarrow> flush_lines ((addr_n AND NOT 63) + of_nat CACHE_LINE_SIZE_B) (addr_n + sz)
                    (pmem_flush addr_n P))"

definition write_commit_record :: "addr \<Rightarrow> int \<Rightarrow> pmem \<Rightarrow> pmem" where
  "write_commit_record e tail P =
     pmem_flush e (store_u64 (e + 40) (word_of_int (tail + 1)) (store_u64 (e + 32) 0 P))"

definition undo_log_commit :: "int \<Rightarrow> undo_log \<Rightarrow> undo_log result option" where
  "undo_log_commit tail ul =
     (case ranges_foreach flush_region (fresh_regions ul)
             (Some (flush_logged (ul_log ul) (ul_len ul) (ul_mem ul))) of
        None \<Rightarrow> None
      | Some P \<Rightarrow>
          let ul1 = ul\<lparr>ul_mem := write_commit_record (entry_at (ul_log ul) (ul_len ul)) tail (pmem_drain P),
                       ul_len := ul_len ul + 1\<rparr>
          in Some (dr_assert (ul_len ul1 < UNDO_NUM_ENTRIES) ''undo_log.len < UNDO_NUM_ENTRIES''
                    (Inr (ul1\<lparr>ul_mem := pmem_drain (ul_mem ul1)\<rparr>))))"

definition last_entry :: "undo_log \<Rightarrow> undo_log_entry" where
  "last_entry ul = read_entry (cur (ul_mem ul)) (entry_at (ul_log ul) (ul_len ul - 1))"

definition undo_log_post_commit_cleanup :: "bool \<Rightarrow> undo_log \<Rightarrow> undo_log result" where
  "undo_log_post_commit_cleanup dedup ul =
     dr_assert (ul_len ul > 0) ''undo_log.len > 0''
       (dr_assert (commit_tail (last_entry ul) > 0) ''last record is a commit record''
         (Inr (undo_log_clear dedup ul)))"

text \<open>
  The manager of memory regions, as \<open>undo_log_recover\<close> calls it: its operations on its own
  state \<open>'m\<close>.
\<close>

record 'm mrm_ops =
  mrm_commit_new_region_table :: "'m \<Rightarrow> 'm"
  mrm_clear_new_region_table :: "'m \<Rightarrow> 'm"
  mrm_recover :: "'m \<Rightarrow> 'm result option"
  mrm_does_manage :: "'m \<Rightarrow> u64 \<Rightarrow> bool"

text \<open>The undo loop: entries from back to front, \<open>i\<close> entries left.\<close>

fun undo_apply :: "(u64 \<Rightarrow> bool) \<Rightarrow> addr \<Rightarrow> nat \<Rightarrow> pmem \<Rightarrow> pmem result" where
  "undo_apply managed base 0 P = Inr P"
| "undo_apply managed base (Suc i) P =
     (let e = read_entry (cur P) (entry_at base i) in
      dr_assert (commit_tail e = 0) ''there should be no commit entry''
        (dr_assert (entry_addr e \<noteq> 0) ''entry->addr == nullptr''
          (dr_assert (managed (entry_addr e)) ''undo log entry addr not in a managed region?''
            (undo_apply managed base i
              (pmem_flush (entry_addr e) (store_bytes (entry_addr e) (blk e) P))))))"

definition undo_log_recover ::
  "bool \<Rightarrow> 'm mrm_ops \<Rightarrow> undo_log \<Rightarrow> 'm \<Rightarrow> (int \<times> undo_log \<times> 'm) result option" where
  "undo_log_recover dedup ops ul mgr =
     (if ul_len ul > 0 \<and> commit_tail (last_entry ul) > 0
      then let tail = sint (ucast (commit_tail (last_entry ul) - 1) :: u32) in
        bind_ro (mrm_recover ops (mrm_commit_new_region_table ops mgr))
          (\<lambda>mgr'. Some (Inr (tail, undo_log_clear dedup ul, mgr')))
      else bind_ro (mrm_recover ops (mrm_clear_new_region_table ops mgr))
        (\<lambda>mgr'. Some (bind_result (undo_apply (mrm_does_manage ops mgr') (ul_log ul) (ul_len ul) (ul_mem ul))
          (\<lambda>P. Inr (-1, undo_log_clear dedup (ul\<lparr>ul_mem := pmem_drain P\<rparr>), mgr')))))"

section \<open>The clean call before a store\<close>

text \<open>
  \<open>record_write\<close> of \<^verbatim>\<open>instrument.cc\<close>: \<open>skip_stack\<close> is \<open>OPTIMIZE_SKIP_STACK\<close>; the flag is
  \<open>instrument_args.should_commit\<close>.
\<close>

definition record_write ::
  "bool \<Rightarrow> bool \<Rightarrow> addr \<Rightarrow> u32 \<Rightarrow> u64 \<Rightarrow> undo_log \<times> bool \<Rightarrow> (undo_log \<times> bool) option" where
  "record_write dedup skip_stack addr sz rsp s =
     (case s of (ul, flag) \<Rightarrow>
        if skip_stack \<and> addr \<ge> rsp - 128 then Some (ul, flag)
        else map_option (\<lambda>(ul', should_commit). (ul', flag \<or> should_commit))
               (undo_log_record dedup addr sz ul))"

text \<open>The clean call followed by the application's store, which may tear at any byte.\<close>

definition instrumented_store ::
  "bool \<Rightarrow> bool \<Rightarrow> addr \<Rightarrow> byte list \<Rightarrow> u64 \<Rightarrow> undo_log \<times> bool \<Rightarrow> (undo_log \<times> bool) option" where
  "instrumented_store dedup skip_stack a bs rsp s =
     map_option (\<lambda>(ul, flag). (ul\<lparr>ul_mem := store_bytes a bs (ul_mem ul)\<rparr>, flag))
       (record_write dedup skip_stack a (of_nat (length bs)) rsp s)"

end
