(* ===== verification/Undo_Inv.thy ===== *)
theory Undo_Inv
  imports Undo_Log
begin

text \<open>
  The invariant behind the crash consistency of the undo log. It relates every memory that a
  power failure could leave to the memory \<open>m0\<close> of the last commit: the first \<open>n\<close> entries of
  the log are surely persistent, later ones may or may not be, the rest of the log is null, and
  a byte that may differ from \<open>m0\<close> lies in a surely logged block or in a fresh region \<open>F\<close>.
  The lemmas here show that each primitive step of an operation keeps it.
\<close>

section \<open>Geometry of the log\<close>

definition log_base_ok :: "addr \<Rightarrow> bool" where
  "log_base_ok B \<longleftrightarrow> unat B mod 64 = 0 \<and> unat B + 64 * UNDO_NUM_ENTRIES \<le> 2 ^ 64"

definition in_log :: "addr \<Rightarrow> addr \<Rightarrow> bool" where
  "in_log B x \<longleftrightarrow> unat (x - B) < 64 * UNDO_NUM_ENTRIES"

abbreviation eline :: "addr \<Rightarrow> nat \<Rightarrow> u64" where
  "eline B j \<equiv> line (entry_at B j)"

abbreviation ent :: "addr \<Rightarrow> mem \<Rightarrow> nat \<Rightarrow> undo_log_entry" where
  "ent B m j \<equiv> read_entry m (entry_at B j)"

lemma unat_entry_at:
  assumes "log_base_ok B" and "j < UNDO_NUM_ENTRIES"
  shows "unat (entry_at B j) = unat B + 64 * j"
proof -
  have "unat B + 64 * j < 18446744073709551616"
    using assms by (simp add: log_base_ok_def)
  then show ?thesis
    unfolding entry_at_def CACHE_LINE_SIZE_B_def by (rule unat_add_of_nat)
qed

lemma entry_at_aligned:
  assumes "log_base_ok B" and "j < UNDO_NUM_ENTRIES"
  shows "unat (entry_at B j) mod 64 = 0"
  using assms by (simp add: unat_entry_at log_base_ok_def mod_add_eq [symmetric])

lemma entry_window:
  assumes "log_base_ok B" and "j < UNDO_NUM_ENTRIES"
  shows "line x = eline B j \<longleftrightarrow> unat B + 64 * j \<le> unat x \<and> unat x < unat B + 64 * j + 64"
proof -
  have "unat (entry_at B j) + 64 \<le> 18446744073709551616"
    using assms by (simp add: unat_entry_at log_base_ok_def)
  from window_iff [OF this, of x] line_window [OF entry_at_aligned [OF assms], of x]
  show ?thesis by (simp add: unat_entry_at [OF assms])
qed

lemma in_log_nat:
  assumes "log_base_ok B"
  shows "in_log B x \<longleftrightarrow> unat B \<le> unat x \<and> unat x < unat B + 64 * UNDO_NUM_ENTRIES"
  unfolding in_log_def using assms by (intro window_iff) (simp add: log_base_ok_def)

lemma eline_inject:
  assumes "log_base_ok B" and "i < UNDO_NUM_ENTRIES" and "j < UNDO_NUM_ENTRIES"
  shows "eline B i = eline B j \<longleftrightarrow> i = j"
  using entry_window [OF assms(1,3), of "entry_at B i"] assms by (auto simp: unat_entry_at)

lemma eline_in_log:
  assumes "log_base_ok B" and "j < UNDO_NUM_ENTRIES" and "line x = eline B j"
  shows "in_log B x"
proof -
  have "64 * j + 64 \<le> 64 * UNDO_NUM_ENTRIES" using assms(2) by linarith
  with assms(3) entry_window [OF assms(1,2), of x] show ?thesis
    unfolding in_log_nat [OF assms(1)] by linarith
qed

lemma in_log_eline:
  assumes "log_base_ok B" and "in_log B x"
  obtains j where "j < UNDO_NUM_ENTRIES" and "line x = eline B j"
proof -
  let ?j = "(unat x - unat B) div 64"
  have b: "unat B \<le> unat x" "unat x - unat B < 64 * UNDO_NUM_ENTRIES"
    using assms(2) unfolding in_log_nat [OF assms(1)] by auto
  have j: "?j < UNDO_NUM_ENTRIES" using b(2) by (simp add: less_mult_imp_div_less mult.commute)
  have "64 * ?j \<le> unat x - unat B" "unat x - unat B < 64 * ?j + 64"
    using div_eq_iff_nat [of 64 "unat x - unat B" ?j] by auto
  then have "line x = eline B ?j"
    unfolding entry_window [OF assms(1) j] using b(1) by linarith
  with j show thesis by (rule that)
qed

text \<open>An entry is determined by the bytes of its line, in fact by its first 48.\<close>

lemma read_entry_cong:
  assumes "\<And>i. i < 48 \<Longrightarrow> m (e + of_nat i) = m' (e + of_nat i)"
  shows "read_entry m e = read_entry m' e"
proof -
  have "rd m e 32 = rd m' e 32"
    using assms by (intro rd_cong) simp
  moreover have "rd m (e + 32) 8 = rd m' (e + 32) 8"
    using assms [of "32 + i" for i] by (intro rd_cong) (simp add: add.assoc)
  moreover have "rd m (e + 40) 8 = rd m' (e + 40) 8"
    using assms [of "40 + i" for i] by (intro rd_cong) (simp add: add.assoc)
  ultimately show ?thesis by (simp add: read_entry_def load_u64_def UNDO_BLK_SIZE_B_def)
qed

lemma ent_cong:
  assumes "log_base_ok B" and "j < UNDO_NUM_ENTRIES"
    and "\<And>x. line x = eline B j \<Longrightarrow> m x = m' x"
  shows "ent B m j = ent B m' j"
proof (rule read_entry_cong)
  fix i :: nat
  assume "i < 48"
  then have "line (entry_at B j + of_nat i) = eline B j"
    using line_window [OF entry_at_aligned [OF assms(1,2)], of "entry_at B j + of_nat i"]
    by (simp add: unat_of_nat_small)
  then show "m (entry_at B j + of_nat i) = m' (entry_at B j + of_nat i)" by (rule assms(3))
qed

text \<open>A store outside a line, or to another entry, leaves the entry as it was.\<close>

definition off_log :: "addr \<Rightarrow> addr \<Rightarrow> nat \<Rightarrow> bool" where
  "off_log B a n \<longleftrightarrow> (\<forall>x. unat (x - a) < n \<longrightarrow> \<not> in_log B x)"

lemma ent_wr_off_log:
  assumes "log_base_ok B" and "j < UNDO_NUM_ENTRIES" and "off_log B a (length bs)"
  shows "ent B (wr a bs m) j = ent B m j"
proof (rule ent_cong [OF assms(1,2)])
  fix x
  assume "line x = eline B j"
  then have "in_log B x" by (rule eline_in_log [OF assms(1,2)])
  then show "wr a bs m x = m x"
    using assms(3) by (intro wr_out) (auto simp: off_log_def not_less)
qed

lemma entry_field_window:
  assumes "log_base_ok B" and "i < UNDO_NUM_ENTRIES" and "k + n \<le> 64"
    and "unat (x - (entry_at B i + of_nat k)) < n"
  shows "line x = eline B i"
proof -
  have "unat (x - entry_at B i) < k + n"
    using window_split [of k n x "entry_at B i"] assms(3,4) by simp
  with assms(3) show ?thesis
    using line_window [OF entry_at_aligned [OF assms(1,2)], of x] by simp
qed

lemma ent_wr_other:
  assumes "log_base_ok B" and "i < UNDO_NUM_ENTRIES" and "j < UNDO_NUM_ENTRIES" and "i \<noteq> j"
    and "k + length bs \<le> 64"
  shows "ent B (wr (entry_at B i + of_nat k) bs m) j = ent B m j"
proof (rule ent_cong [OF assms(1,3)])
  fix x
  assume "line x = eline B j"
  then have "line x \<noteq> eline B i" using assms(1-4) by (simp add: eline_inject)
  then show "wr (entry_at B i + of_nat k) bs m x = m x"
    using entry_field_window [OF assms(1,2,5), of x] by (intro wr_out) (metis not_le)
qed

lemma wr_entry_off_log_byte:
  assumes "log_base_ok B" and "i < UNDO_NUM_ENTRIES" and "k + length bs \<le> 64" and "\<not> in_log B x"
  shows "wr (entry_at B i + of_nat k) bs m x = m x"
  using entry_field_window [OF assms(1,2,3), of x] eline_in_log [OF assms(1,2), of x] assms(4)
  by (intro wr_out) (metis not_le)

section \<open>Reading an entry after writing one of its fields\<close>

lemma field_apart:
  assumes "k + length bs \<le> j \<or> j + n \<le> k" and "j + n \<le> 64" and "k + length bs \<le> 64"
  shows "rd (wr (e + of_nat k) bs m) (e + of_nat j) n = rd m (e + of_nat j) n"
proof (rule rd_cong)
  fix i
  assume i: "i < n"
  let ?x = "e + of_nat j + of_nat i"
  have x: "unat (?x - e) = j + i"
    using i assms(2) unat_of_nat_small [of "j + i"] by (simp add: add.assoc)
  have "k < 18446744073709551616" using assms(3) by simp
  from unat_window_shift [OF this, of ?x e]
  have "\<not> unat (?x - (e + of_nat k)) < length bs"
    unfolding x using i assms by (auto simp del: of_nat_add split: if_splits)
  then show "wr (e + of_nat k) bs m ?x = m ?x" by (simp add: wr_def)
qed

lemma read_entry_wr_blk_byte:
  assumes "k < 32"
  shows "entry_addr (read_entry (wr (e + of_nat k) [b] m) e) = entry_addr (read_entry m e)"
    and "commit_tail (read_entry (wr (e + of_nat k) [b] m) e) = commit_tail (read_entry m e)"
  using field_apart [of k "[b]" 32 8 e m] field_apart [of k "[b]" 40 8 e m] assms
  by (simp_all add: read_entry_def load_u64_def)

lemma read_entry_wr_addr:
  "read_entry (wr (e + 32) (le_bytes 8 w) m) e = (read_entry m e)\<lparr>entry_addr := w\<rparr>"
  using field_apart [of 32 "le_bytes 8 w" 0 32 e m] field_apart [of 32 "le_bytes 8 w" 40 8 e m]
    load_store_u64 [of "e + 32" w m]
  by (simp add: read_entry_def load_u64_def UNDO_BLK_SIZE_B_def del: le_bytes.simps)

lemma read_entry_wr_tail:
  "read_entry (wr (e + 40) (le_bytes 8 w) m) e = (read_entry m e)\<lparr>commit_tail := w\<rparr>"
  using field_apart [of 40 "le_bytes 8 w" 0 32 e m] field_apart [of 40 "le_bytes 8 w" 32 8 e m]
    load_store_u64 [of "e + 40" w m]
  by (simp add: read_entry_def load_u64_def UNDO_BLK_SIZE_B_def del: le_bytes.simps)

section \<open>Blocks\<close>

lemma undo_block_idem [simp]: "undo_block (undo_block a) = undo_block a"
  by (simp add: undo_block_eq_iff drop_bit_undo_block)

lemma unat_undo_block: "unat (undo_block a) = 32 * (unat a div 32)"
proof -
  have "unat (undo_block a) = push_bit 5 (unat (drop_bit 5 a)) mod 2 ^ 64"
    unfolding undo_block_eq unsigned_push_bit_eq take_bit_eq_mod by simp
  also have "\<dots> = 32 * (unat a div 32) mod 2 ^ 64"
    by (simp add: unat_block push_bit_eq_mult mult.commute)
  also have "\<dots> = 32 * (unat a div 32)"
    using le_less_trans [OF times_div_less_eq_dividend [of 32 "unat a"] unat_u64_less [of a]]
    by (intro mod_less) simp
  finally show ?thesis .
qed

lemma block_window:
  assumes "undo_block p = p"
  shows "undo_block a = p \<longleftrightarrow> unat (a - p) < 32"
proof -
  have p: "unat p = 32 * (unat p div 32)" using unat_undo_block [of p] assms by simp
  obtain q where q: "unat p = 32 * q" using p by blast
  have "unat p + 32 \<le> 18446744073709551616" using unat_u64_less [of p] unfolding q by simp
  from window_iff [OF this, of a]
  have "unat (a - p) < 32 \<longleftrightarrow> unat p \<le> unat a \<and> unat a < unat p + 32" .
  also have "\<dots> \<longleftrightarrow> unat a div 32 = unat p div 32"
    using div_eq_iff_nat [of 32 "unat a" "unat p div 32"] p by auto
  also have "\<dots> \<longleftrightarrow> undo_block a = undo_block p" by (simp add: undo_block_eq_nat)
  finally show ?thesis using assms by simp
qed

lemma block_same_line: "undo_block a = undo_block b \<Longrightarrow> line a = line b"
proof -
  assume "undo_block a = undo_block b"
  then have "unat a div 32 = unat b div 32" by (simp only: undo_block_eq_nat)
  then have "unat a div 32 div 2 = unat b div 32 div 2" by simp
  then show ?thesis by (simp add: line_eq_iff div_mult2_eq [symmetric])
qed

lemma in_log_block:
  assumes "log_base_ok B" and "undo_block a = undo_block b"
  shows "in_log B a \<longleftrightarrow> in_log B b"
proof -
  have "line a = line b" using assms(2) by (rule block_same_line)
  then show ?thesis by (metis assms(1) eline_in_log in_log_eline)
qed

section \<open>Undoing a list of entries\<close>

abbreviation addrs :: "undo_log_entry list \<Rightarrow> u64 set" where
  "addrs es \<equiv> entry_addr ` set es"

abbreviation covers :: "addr \<Rightarrow> undo_log_entry \<Rightarrow> bool" where
  "covers x \<equiv> \<lambda>e. entry_addr e = undo_block x"

definition good_entry :: "addr \<Rightarrow> addr set \<Rightarrow> undo_log_entry \<Rightarrow> bool" where
  "good_entry B A e \<longleftrightarrow> commit_tail e = 0 \<and> entry_addr e \<noteq> 0 \<and> undo_block (entry_addr e) = entry_addr e \<and>
     length (blk e) = 32 \<and> \<not> in_log B (entry_addr e) \<and> entry_addr e \<in> A"

definition undo_mem :: "undo_log_entry list \<Rightarrow> mem \<Rightarrow> mem" where
  "undo_mem es = foldr (\<lambda>e. wr (entry_addr e) (blk e)) es"

text \<open>The entry that decides a byte is the first one for its block.\<close>

lemma undo_mem_find:
  assumes "\<forall>e \<in> set es. good_entry B A e"
  shows "undo_mem es m x = (case find (covers x) es of
           None \<Rightarrow> m x | Some e \<Rightarrow> blk e ! unat (x - entry_addr e))"
  using assms
proof (induction es)
  case Nil
  then show ?case by (simp add: undo_mem_def)
next
  case (Cons e es)
  have c: "entry_addr e = undo_block x \<longleftrightarrow> unat (x - entry_addr e) < length (blk e)"
    using Cons.prems block_window [of "entry_addr e" x] by (metis good_entry_def list.set_intros(1))
  have "undo_mem (e # es) m x = (if entry_addr e = undo_block x then blk e ! unat (x - entry_addr e)
      else undo_mem es m x)"
    unfolding c by (simp add: undo_mem_def wr_def)
  with Cons show ?case by simp
qed

lemma find_None_covers: "find (covers x) es = None \<longleftrightarrow> undo_block x \<notin> addrs es"
  unfolding find_None_iff image_iff by (metis)

lemma find_append:
  "find P (xs @ ys) = (case find P xs of None \<Rightarrow> find P ys | Some x \<Rightarrow> Some x)"
  by (induction xs) auto

text \<open>The first entry of every block holds the bytes of \<open>m0\<close>, but for the bytes in \<open>F\<close>.\<close>

definition saved :: "mem \<Rightarrow> addr set \<Rightarrow> undo_log_entry list \<Rightarrow> bool" where
  "saved m0 F es \<longleftrightarrow>
     (\<forall>x e. x \<notin> F \<longrightarrow> find (covers x) es = Some e \<longrightarrow> blk e ! unat (x - entry_addr e) = m0 x)"

lemma saved_Nil [simp]: "saved m0 F []"
  by (simp add: saved_def)

lemma saved_take: "saved m0 F es \<Longrightarrow> saved m0 F (take k es)"
  unfolding saved_def by (metis append_take_drop_id find_append option.simps(5))

lemma saved_mono: "saved m0 F es \<Longrightarrow> F \<subseteq> F' \<Longrightarrow> saved m0 F' es"
  unfolding saved_def by blast

lemma saved_append:
  assumes "saved m0 F es"
    and "\<And>x. x \<notin> F \<Longrightarrow> undo_block x = entry_addr e \<Longrightarrow> entry_addr e \<notin> addrs es \<Longrightarrow>
           blk e ! unat (x - entry_addr e) = m0 x"
  shows "saved m0 F (es @ [e])"
  unfolding saved_def
proof (intro allI impI)
  fix x e'
  assume x: "x \<notin> F" and f: "find (covers x) (es @ [e]) = Some e'"
  show "blk e' ! unat (x - entry_addr e') = m0 x"
  proof (cases "find (covers x) es")
    case None
    then have "undo_block x \<notin> addrs es" by (simp add: find_None_covers)
    with None f assms(2) [OF x] show ?thesis by (auto simp: find_append split: if_splits)
  next
    case (Some e1)
    with f assms(1) x show ?thesis by (auto simp: find_append saved_def)
  qed
qed

lemma undo_mem_saved:
  assumes "\<forall>e \<in> set es. good_entry B A e" and "saved m0 F es" and "x \<notin> F"
    and "undo_block x \<in> addrs es \<or> m x = m0 x"
  shows "undo_mem es m x = m0 x"
proof (cases "find (covers x) es")
  case None
  then have "undo_block x \<notin> addrs es" by (simp add: find_None_covers)
  with assms(4) None show ?thesis by (simp add: undo_mem_find [OF assms(1)])
next
  case (Some e)
  with assms(2,3) show ?thesis by (simp add: undo_mem_find [OF assms(1)] saved_def)
qed

section \<open>The invariant\<close>

text \<open>
  \<open>es\<close> lists the entries written since the last commit; the first \<open>n\<close> of them are persistent
  and the first \<open>k\<close> will be after the next fence. \<open>A\<close> is the set of blocks that may be logged.
\<close>

definition log_inv ::
  "addr \<Rightarrow> addr set \<Rightarrow> mem \<Rightarrow> addr set \<Rightarrow> nat \<Rightarrow> nat \<Rightarrow> undo_log_entry list \<Rightarrow> pmem \<Rightarrow> bool" where
  "log_inv B A m0 F n k es P \<longleftrightarrow>
     log_base_ok B \<and> wf_pm P \<and> n \<le> k \<and> k \<le> length es \<and> length es < UNDO_NUM_ENTRIES \<and>
     (\<forall>e \<in> set es. good_entry B A e) \<and> saved m0 F es \<and>
     (\<forall>j < n. \<forall>m \<in> set (pv P (eline B j)). ent B m j = es ! j) \<and>
     (\<forall>j < k. \<forall>m \<in> set (fv P (eline B j)). ent B m j = es ! j) \<and>
     (\<forall>j < length es. ent B (cur P) j = es ! j \<and>
        (\<forall>m \<in> set (pv P (eline B j)). is_null (ent B m j) \<or> ent B m j = es ! j)) \<and>
     (\<forall>j. length es \<le> j \<longrightarrow> j < UNDO_NUM_ENTRIES \<longrightarrow>
        (\<forall>m \<in> set (pv P (eline B j)). is_null (ent B m j))) \<and>
     (\<forall>x. \<not> in_log B x \<longrightarrow> x \<notin> F \<longrightarrow>
        (\<forall>m \<in> set (pv P (line x)). m x = m0 x \<or> undo_block x \<in> addrs (take n es)))"

definition crash_safe :: "addr \<Rightarrow> addr set \<Rightarrow> mem \<Rightarrow> addr set \<Rightarrow> pmem \<Rightarrow> bool" where
  "crash_safe B A m0 F P \<longleftrightarrow> (\<exists>n k es. log_inv B A m0 F n k es P)"

lemma log_invD:
  assumes "log_inv B A m0 F n k es P"
  shows "log_base_ok B" "wf_pm P" "n \<le> k" "k \<le> length es" "length es < UNDO_NUM_ENTRIES"
    "\<And>e. e \<in> set es \<Longrightarrow> good_entry B A e" "saved m0 F es"
    "\<And>j. j < length es \<Longrightarrow> ent B (cur P) j = es ! j"
  using assms unfolding log_inv_def by blast+

lemma log_inv_crash_safe: "log_inv B A m0 F n k es P \<Longrightarrow> crash_safe B A m0 F P"
  unfolding crash_safe_def by blast

lemma log_inv_mono:
  "log_inv B A m0 F n k es P \<Longrightarrow> F \<subseteq> F' \<Longrightarrow> log_inv B A m0 F' n k es P"
  unfolding log_inv_def using saved_mono by blast

lemma crash_safe_mono: "crash_safe B A m0 F P \<Longrightarrow> F \<subseteq> F' \<Longrightarrow> crash_safe B A m0 F' P"
  unfolding crash_safe_def using log_inv_mono by blast

text \<open>Flushes and fences only shrink what may be in memory.\<close>

lemma log_inv_flush:
  assumes "log_inv B A m0 F n k es P"
  shows "log_inv B A m0 F n k es (pmem_flush a P)"
  using assms wf_pm_step [of P "Flush a"] unfolding log_inv_def pmem_flush_def
  by auto

lemma log_inv_flush_entry:
  assumes inv: "log_inv B A m0 F n k es P" and k: "k < length es"
  shows "log_inv B A m0 F n (Suc k) es (pmem_flush (entry_at B k) P)"
proof -
  have lt: "k < UNDO_NUM_ENTRIES" using inv k by (simp add: log_inv_def)
  have "\<forall>m \<in> set (fv (pmem_flush (entry_at B k) P) (eline B j)). ent B m j = es ! j" if "j < Suc k" for j
    using that inv k less_Suc_eq [of j k] unfolding log_inv_def pmem_flush_def by auto
  with log_inv_flush [OF inv, of "entry_at B k"] k show ?thesis
    unfolding log_inv_def by (simp add: less_Suc_eq)
qed

lemma log_inv_fence:
  assumes "log_inv B A m0 F n k es P"
  shows "log_inv B A m0 F k k es (pmem_drain P)"
proof -
  have w: "wf_pm P" using assms by (simp add: log_inv_def)
  then have sub: "\<And>l m. m \<in> set (fv P l) \<Longrightarrow> m \<in> set (pv P l)" by (auto simp: wf_pm_def)
  have "n \<le> k" using assms by (simp add: log_inv_def)
  then have "addrs (take n es) \<subseteq> addrs (take k es)"
    by (intro image_mono set_take_subset_set_take)
  then have "m x = m0 x \<or> undo_block x \<in> addrs (take k es)"
    if "\<not> in_log B x" "x \<notin> F" "m \<in> set (fv P (line x))" for m x
    using assms that sub [OF that(3)] unfolding log_inv_def by blast
  moreover have "is_null (ent B m j) \<or> ent B m j = es ! j"
    if "j < length es" "m \<in> set (fv P (eline B j))" for m j
    using assms that(1) sub [OF that(2)] unfolding log_inv_def by blast
  moreover have "is_null (ent B m j)"
    if "length es \<le> j" "j < UNDO_NUM_ENTRIES" "m \<in> set (fv P (eline B j))" for m j
    using assms that(1,2) sub [OF that(3)] unfolding log_inv_def by blast
  ultimately show ?thesis
    using assms wf_pm_step [OF w, of Fence] unfolding log_inv_def pmem_drain_def by simp
qed

section \<open>Stores\<close>

lemma log_inv_current:
  assumes "log_inv B A m0 F n k es P"
  shows "\<And>j. length es \<le> j \<Longrightarrow> j < UNDO_NUM_ENTRIES \<Longrightarrow> is_null (ent B (cur P) j)"
    and "\<And>x. \<not> in_log B x \<Longrightarrow> x \<notin> F \<Longrightarrow> cur P x = m0 x \<or> undo_block x \<in> addrs (take n es)"
proof -
  have c: "cur P \<in> set (pv P l)" for l using assms by (auto simp: log_inv_def wf_pm_def)
  show "\<And>j. length es \<le> j \<Longrightarrow> j < UNDO_NUM_ENTRIES \<Longrightarrow> is_null (ent B (cur P) j)"
    and "\<And>x. \<not> in_log B x \<Longrightarrow> x \<notin> F \<Longrightarrow> cur P x = m0 x \<or> undo_block x \<in> addrs (take n es)"
    using assms c unfolding log_inv_def by blast+
qed

text \<open>A store that leaves the log as it is, judged by the contents after it.\<close>

lemma log_inv_store:
  assumes inv: "log_inv B A m0 F n k es P"
    and old: "\<And>j. j < length es \<Longrightarrow> ent B (wr a bs (cur P)) j = es ! j"
    and null: "\<And>j. length es \<le> j \<Longrightarrow> j < UNDO_NUM_ENTRIES \<Longrightarrow> is_null (ent B (wr a bs (cur P)) j)"
    and bytes: "\<And>x. \<not> in_log B x \<Longrightarrow> x \<notin> F \<Longrightarrow>
        wr a bs (cur P) x = m0 x \<or> undo_block x \<in> addrs (take n es)"
  shows "log_inv B A m0 F n k es (pm_step (Store a bs) P)"
proof -
  have "n \<le> length es" "k \<le> length es" and w: "wf_pm P" using log_invD [OF inv] by auto
  moreover have "\<forall>m \<in> set (pv (pm_step (Store a bs) P) (line x)). m x = m0 x \<or> undo_block x \<in> addrs (take n es)"
    if "\<not> in_log B x" "x \<notin> F" for x
    using that inv bytes [OF that] unfolding log_inv_def by simp blast
  ultimately show ?thesis
    using inv old null wf_pm_step [OF w, of "Store a bs"] unfolding log_inv_def by simp
qed

text \<open>The store that completes the next entry.\<close>

lemma log_inv_append:
  assumes inv: "log_inv B A m0 F n k es P" and room: "Suc (length es) < UNDO_NUM_ENTRIES"
    and old: "\<And>j. j < length es \<Longrightarrow> ent B (wr a bs (cur P)) j = es ! j"
    and new: "ent B (wr a bs (cur P)) (length es) = e"
    and null: "\<And>j. length es < j \<Longrightarrow> j < UNDO_NUM_ENTRIES \<Longrightarrow> is_null (ent B (wr a bs (cur P)) j)"
    and bytes: "\<And>x. \<not> in_log B x \<Longrightarrow> wr a bs (cur P) x = cur P x"
    and e: "good_entry B A e" "saved m0 F (es @ [e])"
  shows "log_inv B A m0 F n k (es @ [e]) (pm_step (Store a bs) P)"
proof -
  let ?Q = "pm_step (Store a bs) P"
  have l: "n \<le> k" "k \<le> length es" and w: "wf_pm P" using log_invD [OF inv] by auto
  have "\<forall>m \<in> set (pv ?Q (eline B j)). ent B m j = (es @ [e]) ! j" if "j < n" for j
    using that l inv old unfolding log_inv_def by (simp add: nth_append)
  moreover have "\<forall>m \<in> set (fv ?Q (eline B j)). ent B m j = (es @ [e]) ! j" if "j < k" for j
    using that l inv old unfolding log_inv_def by (simp add: nth_append)
  moreover have "ent B (cur ?Q) j = (es @ [e]) ! j \<and>
      (\<forall>m \<in> set (pv ?Q (eline B j)). is_null (ent B m j) \<or> ent B m j = (es @ [e]) ! j)"
    if "j < Suc (length es)" for j
    using that room inv old new unfolding log_inv_def
    by (cases "j = length es") (auto simp: nth_append)
  moreover have "\<forall>m \<in> set (pv ?Q (eline B j)). is_null (ent B m j)"
    if "Suc (length es) \<le> j" "j < UNDO_NUM_ENTRIES" for j
    using that inv null unfolding log_inv_def by simp
  moreover have "\<forall>m \<in> set (pv ?Q (line x)). m x = m0 x \<or> undo_block x \<in> addrs (take n es)"
    if "\<not> in_log B x" "x \<notin> F" for x
    using that inv bytes log_inv_current(2) [OF inv] unfolding log_inv_def by simp blast
  ultimately show ?thesis
    using l room e log_invD(1,6) [OF inv] wf_pm_step [OF w, of "Store a bs"]
    unfolding log_inv_def by (auto simp: le_Suc_eq)
qed

text \<open>A store outside the log to bytes that are logged, or that nobody relies on.\<close>

lemma log_inv_app_store:
  assumes inv: "log_inv B A m0 F n k es P" and off: "off_log B a (length bs)"
    and cov: "\<And>x. unat (x - a) < length bs \<Longrightarrow> x \<notin> F \<Longrightarrow> undo_block x \<in> addrs (take n es)"
  shows "log_inv B A m0 F n k es (pm_step (Store a bs) P)"
proof (rule log_inv_store [OF inv])
  have ok: "log_base_ok B" "length es < UNDO_NUM_ENTRIES" using log_invD [OF inv] by auto
  fix j
  show "ent B (wr a bs (cur P)) j = es ! j" if "j < length es"
    using that ok log_invD(8) [OF inv, of j] by (simp add: ent_wr_off_log [OF _ _ off])
  show "is_null (ent B (wr a bs (cur P)) j)" if "length es \<le> j" "j < UNDO_NUM_ENTRIES"
    using that ok log_inv_current(1) [OF inv, of j] by (simp add: ent_wr_off_log [OF _ _ off])
next
  fix x
  assume "\<not> in_log B x" "x \<notin> F"
  then show "wr a bs (cur P) x = m0 x \<or> undo_block x \<in> addrs (take n es)"
    using cov [of x] log_inv_current(2) [OF inv, of x] by (auto simp: wr_def)
qed

text \<open>A store into the first unused entry that leaves it null.\<close>

lemma log_inv_entry_store:
  assumes inv: "log_inv B A m0 F n k es P" and kb: "kk + length bs \<le> 64"
    and null: "is_null (ent B (wr (entry_at B (length es) + of_nat kk) bs (cur P)) (length es))"
  shows "log_inv B A m0 F n k es (pm_step (Store (entry_at B (length es) + of_nat kk) bs) P)"
proof (rule log_inv_store [OF inv])
  have ok: "log_base_ok B" "length es < UNDO_NUM_ENTRIES" using log_invD [OF inv] by auto
  fix j
  show "ent B (wr (entry_at B (length es) + of_nat kk) bs (cur P)) j = es ! j" if "j < length es"
    using that ok log_invD(8) [OF inv, of j] by (simp add: ent_wr_other [OF _ _ _ _ kb])
  show "is_null (ent B (wr (entry_at B (length es) + of_nat kk) bs (cur P)) j)"
    if "length es \<le> j" "j < UNDO_NUM_ENTRIES"
    using that ok null log_inv_current(1) [OF inv, of j]
    by (cases "j = length es") (simp_all add: ent_wr_other [OF _ _ _ _ kb])
next
  have ok: "log_base_ok B" "length es < UNDO_NUM_ENTRIES" using log_invD [OF inv] by auto
  fix x
  assume "\<not> in_log B x" "x \<notin> F"
  then show "wr (entry_at B (length es) + of_nat kk) bs (cur P) x = m0 x \<or> undo_block x \<in> addrs (take n es)"
    using log_inv_current(2) [OF inv, of x] by (simp add: wr_entry_off_log_byte [OF ok kb])
qed

end
