(* ===== verification/Undo_Record.thy ===== *)
theory Undo_Record
  imports Undo_Inv
begin

text \<open>
  Recording keeps the undo log crash consistent: \<open>write_entry\<close>, \<open>log_block\<close>,
  \<open>record_loop\<close>, \<open>undo_log_record\<close>, \<open>record_write\<close> and the instrumented store that follows
  them keep the invariant of theory Undo_Inv at every one of their steps, with or without
  deduplication. Application operations come in sequences (\<open>app_op\<close>, \<open>run_app\<close>).
\<close>

section \<open>One entry\<close>

lemma write_entry_null_prefix:
  assumes inv: "log_inv B A m0 F n k es P" and bs: "length bs = 32"
  shows "safe_run (log_inv B A m0 F n k es) P (store_bytes (entry_at B (length es)) bs P)"
proof (rule safe_run_store_bytes)
  show "log_inv B A m0 F n k es P" by (rule inv)
next
  fix Q x
  assume Q: "log_inv B A m0 F n k es Q" and x: "x < length bs"
  have "is_null (ent B (cur Q) (length es))"
    using log_inv_current(1) [OF Q] log_invD(5) [OF Q] by simp
  then show "log_inv B A m0 F n k es (pm_step (Store (entry_at B (length es) + of_nat x) [bs ! x]) Q)"
    using x bs by (intro log_inv_entry_store [OF Q]) (simp_all add: is_null_def read_entry_wr_blk_byte)
qed

text \<open>Writing the address completes the entry.\<close>

lemma write_entry_addr:
  assumes inv: "log_inv B A m0 F n k es P" and room: "Suc (length es) < UNDO_NUM_ENTRIES"
    and blk: "blk (ent B (cur P) (length es)) = rd m p 32"
    and same: "\<And>x. \<not> in_log B x \<Longrightarrow> m x = cur P x"
    and p: "p \<noteq> 0" "undo_block p = p" "\<not> in_log B p" "p \<in> A"
  shows "log_inv B A m0 F n k (es @ [\<lparr>blk = rd m p 32, entry_addr = p, commit_tail = 0\<rparr>])
           (store_u64 (entry_at B (length es) + 32) p P)"
  unfolding store_u64_def
proof (rule log_inv_append [OF inv room])
  let ?e = "entry_at B (length es)" and ?w = "le_bytes 8 p"
  have ok: "log_base_ok B" and len: "length es < UNDO_NUM_ENTRIES" using log_invD [OF inv] by auto
  have k: "32 + length ?w \<le> 64" by (simp del: le_bytes.simps)
  have other: "ent B (wr (?e + 32) ?w (cur P)) j = ent B (cur P) j"
    if "j < UNDO_NUM_ENTRIES" "j \<noteq> length es" for j
    using ent_wr_other [OF ok len that(1) _ k, of "cur P"] that(2) by (simp del: le_bytes.simps)
  show "ent B (wr (?e + 32) ?w (cur P)) j = es ! j" if "j < length es" for j
    using that len other [of j] log_invD(8) [OF inv, of j] by simp
  show "is_null (ent B (wr (?e + 32) ?w (cur P)) j)" if "length es < j" "j < UNDO_NUM_ENTRIES" for j
    using that other [of j] log_inv_current(1) [OF inv, of j] by simp
  have "commit_tail (ent B (cur P) (length es)) = 0"
    using log_inv_current(1) [OF inv le_refl len] by (simp add: is_null_def)
  then show "ent B (wr (?e + 32) ?w (cur P)) (length es) =
      \<lparr>blk = rd m p 32, entry_addr = p, commit_tail = 0\<rparr>"
    unfolding read_entry_wr_addr using blk by (cases "ent B (cur P) (length es)") simp
  show "wr (?e + 32) ?w (cur P) x = cur P x" if "\<not> in_log B x" for x
    using wr_entry_off_log_byte [OF ok len k that, of "cur P"] by (simp del: le_bytes.simps)
  show "good_entry B A \<lparr>blk = rd m p 32, entry_addr = p, commit_tail = 0\<rparr>"
    using p by (simp add: good_entry_def)
  show "saved m0 F (es @ [\<lparr>blk = rd m p 32, entry_addr = p, commit_tail = 0\<rparr>])"
  proof (rule saved_append [OF log_invD(7) [OF inv]])
    fix x
    assume x: "x \<notin> F" "undo_block x = entry_addr \<lparr>blk = rd m p 32, entry_addr = p, commit_tail = 0\<rparr>"
      "entry_addr \<lparr>blk = rd m p 32, entry_addr = p, commit_tail = 0\<rparr> \<notin> addrs es"
    then have xp: "undo_block x = p" "p \<notin> addrs es" by auto
    then have i: "unat (x - p) < 32" and nl: "\<not> in_log B x"
      using block_window [OF p(2), of x] in_log_block [OF ok, of x p] p by auto
    have "undo_block x \<notin> addrs (take n es)" using xp set_take_subset [of n es] by blast
    then have "cur P x = m0 x" using log_inv_current(2) [OF inv nl x(1)] by blast
    with i show "blk \<lparr>blk = rd m p 32, entry_addr = p, commit_tail = 0\<rparr> !
        unat (x - entry_addr \<lparr>blk = rd m p 32, entry_addr = p, commit_tail = 0\<rparr>) = m0 x"
      using same [OF nl] by simp
  qed
qed

text \<open>The last store, of zero over zero, changes nothing.\<close>

lemma write_entry_tail:
  assumes inv: "log_inv B A m0 F n k es P" and ne: "es \<noteq> []"
  shows "log_inv B A m0 F n k es (store_u64 (entry_at B (length es - 1) + 40) 0 P)"
  unfolding store_u64_def
proof (rule log_inv_store [OF inv])
  let ?i = "length es - 1" and ?z = "le_bytes 8 (0 :: u64)"
  have ok: "log_base_ok B" and len: "length es < UNDO_NUM_ENTRIES" using log_invD [OF inv] by auto
  have i: "?i < UNDO_NUM_ENTRIES" "?i < length es" using len ne by auto
  have k: "40 + length ?z \<le> 64" by (simp del: le_bytes.simps)
  have other: "ent B (wr (entry_at B ?i + 40) ?z (cur P)) j = ent B (cur P) j"
    if "j < UNDO_NUM_ENTRIES" "j \<noteq> ?i" for j
    using ent_wr_other [OF ok i(1) that(1) _ k, of "cur P"] that(2) by (simp del: le_bytes.simps)
  have "good_entry B A (es ! ?i)" using log_invD(6) [OF inv] i by simp
  then have "commit_tail (ent B (cur P) ?i) = 0" using log_invD(8) [OF inv i(2)] by (simp add: good_entry_def)
  then have "ent B (wr (entry_at B ?i + 40) ?z (cur P)) ?i = ent B (cur P) ?i"
    unfolding read_entry_wr_tail by (cases "ent B (cur P) ?i") simp
  then show "ent B (wr (entry_at B ?i + 40) ?z (cur P)) j = es ! j" if "j < length es" for j
    using that len other [of j] log_invD(8) [OF inv, of j] by (cases "j = ?i") simp_all
  show "is_null (ent B (wr (entry_at B ?i + 40) ?z (cur P)) j)"
    if "length es \<le> j" "j < UNDO_NUM_ENTRIES" for j
    using that i other [of j] log_inv_current(1) [OF inv, of j] by simp
  show "wr (entry_at B ?i + 40) ?z (cur P) x = m0 x \<or> undo_block x \<in> addrs (take n es)"
    if "\<not> in_log B x" "x \<notin> F" for x
    using that wr_entry_off_log_byte [OF ok i(1) k that(1), of "cur P"] log_inv_current(2) [OF inv that]
    by (simp del: le_bytes.simps)
qed

lemma write_entry_correct:
  assumes inv: "log_inv B A m0 F n (length es) es P" and room: "Suc (length es) < UNDO_NUM_ENTRIES"
    and p: "p \<noteq> 0" "undo_block p = p" "\<not> in_log B p" "p \<in> A"
  defines "e \<equiv> \<lparr>blk = rd (cur P) p 32, entry_addr = p, commit_tail = 0\<rparr>"
    and "P' \<equiv> write_entry (entry_at B (length es)) p P"
  shows "log_inv B A m0 F n (Suc (length es)) (es @ [e]) P'"
    and "safe_run (crash_safe B A m0 F) P P'"
    and "\<And>x. \<not> in_log B x \<Longrightarrow> cur P' x = cur P x"
proof -
  let ?E = "entry_at B (length es)" and ?bs = "rd (cur P) p 32"
  have ok: "log_base_ok B" and len: "length es < UNDO_NUM_ENTRIES" using log_invD [OF inv] by auto
  define P1 where "P1 = store_bytes ?E ?bs P"
  define P2 where "P2 = store_u64 (?E + 32) p P1"
  define P3 where "P3 = store_u64 (?E + 40) 0 P2"
  have P': "P' = pmem_flush ?E P3"
    unfolding P'_def P1_def P2_def P3_def write_entry_def UNDO_BLK_SIZE_B_def ..
  have s1: "safe_run (log_inv B A m0 F n (length es) es) P P1"
    unfolding P1_def by (rule write_entry_null_prefix [OF inv]) simp
  note i1 = safe_run_end [OF s1]
  have c1: "cur P1 = wr ?E ?bs (cur P)" unfolding P1_def by simp
  have off: "wr (?E + of_nat kk) bs m x = m x" if "\<not> in_log B x" "kk + length bs \<le> 64" for kk bs m x
    using that by (intro wr_entry_off_log_byte [OF ok len]) auto
  have same: "cur P x = cur P1 x" if "\<not> in_log B x" for x
    using off [OF that, of 0 ?bs "cur P"] unfolding c1 by simp
  have "blk (ent B (cur P1) (length es)) = ?bs"
    unfolding c1 read_entry_def using rd_wr_same [of ?bs ?E "cur P"] by (simp add: UNDO_BLK_SIZE_B_def)
  from write_entry_addr [OF i1 room this same p]
  have i2: "log_inv B A m0 F n (length es) (es @ [e]) P2" unfolding P2_def e_def .
  have i3: "log_inv B A m0 F n (length es) (es @ [e]) P3"
    unfolding P3_def using write_entry_tail [OF i2] by simp
  show i4: "log_inv B A m0 F n (Suc (length es)) (es @ [e]) P'"
    unfolding P' using log_inv_flush_entry [OF i3] by simp
  have "safe_run (crash_safe B A m0 F) P P1"
    using s1 by (rule safe_run_mono) (rule log_inv_crash_safe)
  also have "safe_run (crash_safe B A m0 F) P1 P2"
    unfolding P2_def store_u64_def
    by (rule safe_run_step) (use log_inv_crash_safe i1 i2 P2_def store_u64_def in metis)+
  also have "safe_run (crash_safe B A m0 F) P2 P3"
    unfolding P3_def store_u64_def
    by (rule safe_run_step) (use log_inv_crash_safe i2 i3 P3_def store_u64_def in metis)+
  also have "safe_run (crash_safe B A m0 F) P3 P'"
    unfolding P' pmem_flush_def
    by (rule safe_run_step) (use log_inv_crash_safe i3 i4 P' pmem_flush_def in metis)+
  finally show "safe_run (crash_safe B A m0 F) P P'" .
  show "cur P' x = cur P x" if "\<not> in_log B x" for x
    using off [OF that, of 32 "le_bytes 8 p" "cur P1"] off [OF that, of 40 "le_bytes 8 (0::u64)" "cur P2"] same [OF that]
    unfolding P' P3_def P2_def by (simp del: le_bytes.simps le_bytes_zero)
qed

section \<open>The struct beside the invariant\<close>

definition log_state ::
  "bool \<Rightarrow> addr \<Rightarrow> addr set \<Rightarrow> mem \<Rightarrow> addr set \<Rightarrow> nat \<Rightarrow> undo_log_entry list \<Rightarrow> undo_log \<Rightarrow> bool" where
  "log_state dedup B A m0 F n es ul \<longleftrightarrow>
     ul_log ul = B \<and> log_inv B A m0 F n (length es) es (ul_mem ul) \<and> ul_len ul = length es \<and>
     (dedup \<longrightarrow> stored (logged_addrs_hash ul) \<subseteq> addrs es) \<and>
     ranges_wf (fresh_regions ul) \<and> ranges_set (fresh_regions ul) \<subseteq> F"

text \<open>Steps of the log that leave the application's memory as it is.\<close>

definition logging_step :: "addr \<Rightarrow> addr set \<Rightarrow> mem \<Rightarrow> addr set \<Rightarrow> undo_log \<Rightarrow> undo_log \<Rightarrow> bool" where
  "logging_step B A m0 F ul ul' \<longleftrightarrow>
     safe_run (crash_safe B A m0 F) (ul_mem ul) (ul_mem ul') \<and>
     fresh_regions ul' = fresh_regions ul \<and>
     (\<forall>x. \<not> in_log B x \<longrightarrow> cur (ul_mem ul') x = cur (ul_mem ul) x)"

lemma logging_step_trans:
  "logging_step B A m0 F u v \<Longrightarrow> logging_step B A m0 F v w \<Longrightarrow> logging_step B A m0 F u w"
  unfolding logging_step_def using safe_run_trans by fastforce

lemma logging_step_refl: "crash_safe B A m0 F (ul_mem u) \<Longrightarrow> logging_step B A m0 F u u"
  by (auto simp: logging_step_def)

lemma log_block_correct:
  assumes st: "log_state dedup B A m0 F n es ul" and room: "Suc (length es) < UNDO_NUM_ENTRIES"
    and p: "p \<noteq> 0" "undo_block p = p" "\<not> in_log B p" "p \<in> A"
  shows "\<exists>es'. log_state dedup B A m0 F n (es @ es') (log_block dedup p ul) \<and> length es' \<le> 1 \<and>
           p \<in> addrs (es @ es') \<and> logging_step B A m0 F ul (log_block dedup p ul)"
proof (cases "dedup \<and> \<not> fst (undo_log_insert_logged_addr p (logged_addrs_hash ul))")
  case True
  let ?t = "snd (undo_log_insert_logged_addr p (logged_addrs_hash ul))"
  have k: "stored (logged_addrs_hash ul) \<subseteq> addrs es" using st True by (simp add: log_state_def)
  have mem: "p \<in> addrs es" using ah.ins_covered [OF p(1) k] True by simp
  then have "stored ?t \<subseteq> addrs es" using ah.ins_covered_step [OF p(1) k] by blast
  moreover have "log_block dedup p ul = ul\<lparr>logged_addrs_hash := ?t\<rparr>"
    using True by (simp add: log_block_def split_beta)
  moreover have "crash_safe B A m0 F (ul_mem ul)"
    using st log_inv_crash_safe by (auto simp: log_state_def)
  ultimately show ?thesis using st mem
    by (intro exI [of _ "[]"]) (auto simp: log_state_def logging_step_def)
next
  case False
  let ?P = "write_entry (entry_at B (length es)) p (ul_mem ul)"
  let ?e = "\<lparr>blk = rd (cur (ul_mem ul)) p 32, entry_addr = p, commit_tail = 0\<rparr>"
  let ?t = "if dedup then snd (undo_log_insert_logged_addr p (logged_addrs_hash ul))
            else logged_addrs_hash ul"
  have inv: "log_inv B A m0 F n (length es) es (ul_mem ul)" using st by (simp add: log_state_def)
  have eq: "log_block dedup p ul = ul\<lparr>logged_addrs_hash := ?t, ul_mem := ?P, ul_len := Suc (length es)\<rparr>"
    using False st by (auto simp: log_block_def split_beta log_state_def)
  have "stored ?t \<subseteq> insert p (addrs es)" if dedup
    using that st ah.ins_covered_step [OF p(1), of "logged_addrs_hash ul" "addrs es"]
    by (auto simp: log_state_def)
  then show ?thesis
    using st write_entry_correct [OF inv room p]
    by (intro exI [of _ "[?e]"]) (auto simp: eq log_state_def logging_step_def)
qed

section \<open>The loop over the blocks of a store\<close>

lemma record_loop_correct:
  assumes "log_state dedup B A m0 F n es ul" and "length es + c < UNDO_NUM_ENTRIES"
    and "unat p = 32 * q" and "0 < q" and "32 * (q + c) < 18446744073709551616"
    and "unat lim \<le> 32 * (q + c)" and "0 < c \<Longrightarrow> 32 * (q + c) < unat lim + 32"
    and "\<And>i. i < c \<Longrightarrow> \<not> in_log B (p + of_nat (32 * i)) \<and> p + of_nat (32 * i) \<in> A"
  shows "\<exists>es' ul'. record_loop dedup p lim ul = Some ul' \<and>
           log_state dedup B A m0 F n (es @ es') ul' \<and> length es' \<le> c \<and>
           (\<forall>i < c. p + of_nat (32 * i) \<in> addrs (es @ es')) \<and> logging_step B A m0 F ul ul'"
  using assms
proof (induction c arbitrary: es ul p q)
  case 0
  then have "\<not> p < lim" by (simp add: word_less_nat_alt)
  moreover have "crash_safe B A m0 F (ul_mem ul)"
    using 0 log_inv_crash_safe by (auto simp: log_state_def)
  ultimately show ?case using 0
    by (intro exI [of _ "[]"] exI [of _ ul]) (auto simp: record_loop.simps logging_step_refl)
next
  case (Suc c)
  have lt: "p < lim" using Suc.prems(3,7) by (simp add: word_less_nat_alt)
  have al: "undo_block p = p"
    using unat_undo_block [of p] Suc.prems(3) by (simp add: word_eq_iff_unat)
  have p0: "p \<noteq> 0" using Suc.prems(3,4) by auto
  have up: "unat (p + 32) = 32 * Suc q"
    using unat_add_of_nat [of p 32] Suc.prems(3,5) by simp
  from log_block_correct [OF Suc.prems(1) _ p0 al] Suc.prems(2) Suc.prems(8) [of 0]
  obtain es1 where es1: "log_state dedup B A m0 F n (es @ es1) (log_block dedup p ul)" "length es1 \<le> 1"
    "p \<in> addrs (es @ es1)" "logging_step B A m0 F ul (log_block dedup p ul)" by auto
  have "\<exists>es' ul'. record_loop dedup (p + 32) lim (log_block dedup p ul) = Some ul' \<and>
      log_state dedup B A m0 F n ((es @ es1) @ es') ul' \<and> length es' \<le> c \<and>
      (\<forall>i < c. (p + 32) + of_nat (32 * i) \<in> addrs ((es @ es1) @ es')) \<and>
      logging_step B A m0 F (log_block dedup p ul) ul'"
  proof (rule Suc.IH [OF es1(1) _ up])
    show "\<not> in_log B (p + 32 + of_nat (32 * i)) \<and> p + 32 + of_nat (32 * i) \<in> A" if "i < c" for i
      using that Suc.prems(8) [of "Suc i"] by (simp add: add.assoc)
  qed (use Suc.prems es1(2) in auto)
  then obtain es2 ul2 where es2: "record_loop dedup (p + 32) lim (log_block dedup p ul) = Some ul2"
    "log_state dedup B A m0 F n ((es @ es1) @ es2) ul2" "length es2 \<le> c"
    "\<forall>i < c. (p + 32) + of_nat (32 * i) \<in> addrs ((es @ es1) @ es2)"
    "logging_step B A m0 F (log_block dedup p ul) ul2" by blast
  have "p + of_nat (32 * i) \<in> addrs (es @ es1 @ es2)" if "i < Suc c" for i
    using that es1(3) es2(4) by (cases i) (auto simp: add.assoc)
  moreover have "record_loop dedup p lim ul = Some ul2"
    using lt es2(1) by (subst record_loop.simps) (simp add: UNDO_BLK_SIZE_B_def)
  ultimately show ?case
    using es1(2) es2(2,3) logging_step_trans [OF es1(4) es2(5)]
    by (intro exI [of _ "es1 @ es2"] exI [of _ ul2]) auto
qed

text \<open>The number of blocks that the window of \<open>n\<close> bytes from \<open>a\<close> touches.\<close>

definition blocks_of :: "addr \<Rightarrow> nat \<Rightarrow> nat" where
  "blocks_of a n = (unat a + n + 31) div 32 - unat a div 32"

definition window_ok :: "addr \<Rightarrow> addr \<Rightarrow> nat \<Rightarrow> bool" where
  "window_ok B a n \<longleftrightarrow> 0 < n \<and> n < 2 ^ 32 \<and> 32 \<le> unat a \<and> unat a + n + 32 \<le> 2 ^ 64 \<and> off_log B a n"

lemma blocks_of_bounds:
  assumes "0 < n"
  shows "unat a + n \<le> 32 * (unat a div 32 + blocks_of a n)"
    and "32 * (unat a div 32 + blocks_of a n) < unat a + n + 32"
proof -
  let ?q = "unat a div 32" and ?t = "(unat a + n + 31) div 32"
  have "?q \<le> ?t" by (intro div_le_mono) simp
  then have "?q + blocks_of a n = ?t" by (simp add: blocks_of_def)
  moreover have "32 * ?t \<le> unat a + n + 31" "unat a + n + 31 < 32 * ?t + 32"
    using div_eq_iff_nat [of 32 "unat a + n + 31" ?t] by auto
  ultimately show "unat a + n \<le> 32 * (?q + blocks_of a n)" "32 * (?q + blocks_of a n) < unat a + n + 32"
    by auto
qed

lemma window_block_mem:
  assumes w: "window_ok B a n" and i: "i < blocks_of a n"
  shows "\<exists>x. unat (x - a) < n \<and> undo_block x = undo_block a + of_nat (32 * i)"
proof (cases i)
  case 0
  with w show ?thesis by (intro exI [of _ a]) (simp add: window_ok_def)
next
  case (Suc j)
  let ?x = "undo_block a + of_nat (32 * i)"
  have n: "0 < n" "unat a + n + 32 \<le> 18446744073709551616" using w by (auto simp: window_ok_def)
  define q where "q = unat a div 32"
  have "32 * (q + i) < unat a + n"
    using blocks_of_bounds(2) [OF n(1), of a, folded q_def] i by simp
  then have lt: "32 * (unat a div 32 + i) < unat a + n" by (simp only: q_def)
  then have x: "unat ?x = 32 * (unat a div 32) + 32 * i"
    using n(2) unat_add_of_nat [of "undo_block a" "32 * i"] by (simp add: unat_undo_block)
  have "unat a < 32 * (unat a div 32) + 32"
    using div_eq_iff_nat [of 32 "unat a" "unat a div 32"] by simp
  then have "unat (?x - a) < n"
    using lt x Suc n(2) by (subst window_iff) auto
  moreover have "undo_block ?x = ?x"
    by (simp only: word_eq_iff_unat [of "undo_block ?x"] unat_undo_block x) simp
  ultimately show ?thesis by blast
qed

lemma window_block_off_log:
  assumes "log_base_ok B" and "window_ok B a n" and "unat (x - a) < n"
  shows "\<not> in_log B (undo_block x)"
  using assms in_log_block [OF assms(1), of "undo_block x" x] unfolding window_ok_def off_log_def by simp

lemma window_block_index:
  assumes w: "window_ok B a n" and x: "unat (x - a) < n"
  shows "\<exists>i < blocks_of a n. undo_block x = undo_block a + of_nat (32 * i)"
proof -
  let ?i = "unat x div 32 - unat a div 32"
  have n: "0 < n" "unat a + n + 32 \<le> 18446744073709551616" using w by (auto simp: window_ok_def)
  have xa: "unat a \<le> unat x" "unat x < unat a + n" using x window_iff [of a n x] n by auto
  have le: "unat a div 32 \<le> unat x div 32" using xa(1) by (rule div_le_mono)
  have q: "32 * (unat x div 32) \<le> unat x" by simp
  have "32 * (unat x div 32) < 32 * (unat a div 32 + blocks_of a n)"
    using blocks_of_bounds(1) [OF n(1), of a] xa(2) q by linarith
  then have "unat x div 32 < unat a div 32 + blocks_of a n" by (simp only: mult_less_cancel1)
  then have i: "?i < blocks_of a n" using le by (simp add: less_diff_conv2)
  have "32 * (unat a div 32) + 32 * ?i = 32 * (unat x div 32)" using le by simp
  moreover have "32 * (unat x div 32) < 18446744073709551616"
    using q unat_u64_less [of x] by (rule le_less_trans)
  ultimately have "unat (undo_block a + of_nat (32 * ?i)) = unat (undo_block x)"
    using unat_add_of_nat [of "undo_block a" "32 * ?i"] by (simp only: unat_undo_block)
  then have "undo_block x = undo_block a + of_nat (32 * ?i)" by (simp only: word_eq_iff_unat)
  with i show ?thesis by blast
qed

text \<open>
  The slow path of \<open>undo_log_record\<close> (the window is not inside a fresh region): it returns, every
  block of the window is logged, and every entry is persistent.
\<close>

lemma undo_log_record_slow:
  assumes st: "log_state dedup B A m0 F n es ul" and w: "window_ok B a k"
    and room: "length es + blocks_of a k < UNDO_NUM_ENTRIES"
    and slow: "\<not> ranges_find (fresh_regions ul) a (ucast (of_nat k :: u32))"
    and A: "\<And>x. unat (x - a) < k \<Longrightarrow> undo_block x \<in> A"
  shows "\<exists>es' ul' flag. undo_log_record dedup a (of_nat k) ul = Some (ul', flag) \<and>
           log_state dedup B A m0 F (length (es @ es')) (es @ es') ul' \<and> length es' \<le> blocks_of a k \<and>
           (\<forall>x. unat (x - a) < k \<longrightarrow> undo_block x \<in> addrs (es @ es')) \<and> logging_step B A m0 F ul ul' \<and>
           (flag \<longleftrightarrow> ul_len ul' > COMMIT_THRESHOLD)"
proof -
  let ?q = "unat a div 32" and ?c = "blocks_of a k"
  have k: "0 < k" "k < 4294967296" "32 \<le> unat a" "unat a + k + 32 \<le> 18446744073709551616"
    using w by (auto simp: window_ok_def)
  have ok: "log_base_ok B" using st log_invD(1) by (auto simp: log_state_def)
  have sz: "unat (ucast (of_nat k :: u32) :: u64) = k"
    using k(2) by (simp add: unsigned_ucast_eq unsigned_of_nat take_bit_nat_eq_self)
  have lim: "unat (a + ucast (of_nat k :: u32)) = unat a + k"
    using k(4) sz by (subst unat_add_no_wrap) auto
  have "32 div 32 \<le> ?q" using k(3) by (rule div_le_mono)
  then have q: "0 < ?q" by simp
  have "\<exists>es' ul'. record_loop dedup (undo_block a) (a + ucast (of_nat k :: u32)) ul = Some ul' \<and>
      log_state dedup B A m0 F n (es @ es') ul' \<and> length es' \<le> ?c \<and>
      (\<forall>i < ?c. undo_block a + of_nat (32 * i) \<in> addrs (es @ es')) \<and> logging_step B A m0 F ul ul'"
  proof (rule record_loop_correct [OF st room unat_undo_block q])
    show "\<not> in_log B (undo_block a + of_nat (32 * i)) \<and> undo_block a + of_nat (32 * i) \<in> A"
      if "i < ?c" for i
      using window_block_mem [OF w that] window_block_off_log [OF ok w] A by metis
  qed (use blocks_of_bounds [OF k(1), of a] k(4) lim in linarith)+
  then obtain es' ul1 where r: "record_loop dedup (undo_block a) (a + ucast (of_nat k :: u32)) ul = Some ul1"
    "log_state dedup B A m0 F n (es @ es') ul1" "length es' \<le> ?c"
    "\<forall>i < ?c. undo_block a + of_nat (32 * i) \<in> addrs (es @ es')" "logging_step B A m0 F ul ul1" by blast
  let ?ul = "ul1\<lparr>ul_mem := pmem_drain (ul_mem ul1)\<rparr>"
  have inv: "log_inv B A m0 F n (length (es @ es')) (es @ es') (ul_mem ul1)"
    using r(2) by (simp add: log_state_def)
  note inv' = log_inv_fence [OF inv]
  have "logging_step B A m0 F ul1 ?ul"
    using log_inv_crash_safe [OF inv] log_inv_crash_safe [OF inv']
    by (auto simp: logging_step_def pmem_drain_def intro: safe_run_step)
  then have "logging_step B A m0 F ul ?ul" using r(5) logging_step_trans by blast
  moreover have "log_state dedup B A m0 F (length (es @ es')) (es @ es') ?ul"
    using r(2) inv' by (simp add: log_state_def)
  moreover have "\<forall>x. unat (x - a) < k \<longrightarrow> undo_block x \<in> addrs (es @ es')"
    using window_block_index [OF w] r(4) by metis
  ultimately show ?thesis
    using r(1,3) slow by (intro exI [of _ es'] exI [of _ ?ul]) (simp add: undo_log_record_def)
qed

section \<open>Application operations\<close>

text \<open>
  What the instrumented application does between two commits, seen from the log: stores (each
  preceded by the clean call), and the wrapped \<open>mmap\<close> and \<open>munmap\<close> that add and remove fresh
  regions.
\<close>

datatype app_op =
    AppStore addr "byte list" u64
  | AppFresh addr u32
  | AppUnfresh addr u32

fun run_op :: "bool \<Rightarrow> bool \<Rightarrow> app_op \<Rightarrow> undo_log \<times> bool \<Rightarrow> (undo_log \<times> bool) result option" where
  "run_op dedup skip (AppStore a bs rsp) s = map_option Inr (instrumented_store dedup skip a bs rsp s)"
| "run_op dedup skip (AppFresh a sz) s = Some (Inr (undo_log_record_fresh_region a sz (fst s), snd s))"
| "run_op dedup skip (AppUnfresh a sz) s =
     Some (bind_result (undo_log_remove_fresh_region a sz (fst s)) (\<lambda>ul. Inr (ul, snd s)))"

fun run_app :: "bool \<Rightarrow> bool \<Rightarrow> app_op list \<Rightarrow> undo_log \<times> bool \<Rightarrow> (undo_log \<times> bool) result option" where
  "run_app dedup skip [] s = Some (Inr s)"
| "run_app dedup skip (p # ps) s =
     (case run_op dedup skip p s of
        None \<Rightarrow> None
      | Some (Inl e) \<Rightarrow> Some (Inl e)
      | Some (Inr s') \<Rightarrow> run_app dedup skip ps s')"

text \<open>
  What the kernel and the compiler guarantee of an operation: a store hits neither the log nor
  the ends of the address space, the red zone of the stack lies above \<open>S\<close>, and a mapping is not
  empty and ends below the last line of the address space.
\<close>

fun op_ok :: "addr \<Rightarrow> u64 \<Rightarrow> app_op \<Rightarrow> bool" where
  "op_ok B S (AppStore a bs rsp) \<longleftrightarrow> window_ok B a (length bs) \<and> S \<le> rsp - 128"
| "op_ok B S (AppFresh a sz) \<longleftrightarrow> sz \<noteq> 0 \<and> unat a + unat sz + 64 \<le> 2 ^ 64"
| "op_ok B S (AppUnfresh a sz) \<longleftrightarrow> no_wrap (Range a (ucast sz))"

fun op_blocks :: "app_op \<Rightarrow> nat" where
  "op_blocks (AppStore a bs rsp) = blocks_of a (length bs)"
| "op_blocks _ = 0"

fun op_fresh :: "app_op \<Rightarrow> addr set" where
  "op_fresh (AppFresh a sz) = range_set (Range a (ucast sz))"
| "op_fresh _ = {}"

text \<open>
  Which stores the log has to cover: those neither skipped as stack nor inside a region that is
  fresh at that moment. Their blocks are in \<open>A\<close>.
\<close>

definition store_tracked :: "addr set \<Rightarrow> bool \<Rightarrow> range list \<Rightarrow> addr \<Rightarrow> nat \<Rightarrow> u64 \<Rightarrow> bool" where
  "store_tracked A skip v a n rsp \<longleftrightarrow>
     (skip \<and> rsp - 128 \<le> a) \<or> ranges_find v a (ucast (of_nat n :: u32)) \<or>
     (\<forall>x. unat (x - a) < n \<longrightarrow> undo_block x \<in> A)"

fun fresh_after :: "app_op \<Rightarrow> range list \<Rightarrow> range list" where
  "fresh_after (AppStore a bs rsp) v = v"
| "fresh_after (AppFresh a sz) v = ranges_insert a (ucast sz) v"
| "fresh_after (AppUnfresh a sz) v =
     (case ranges_remove a (ucast sz) v of Inl _ \<Rightarrow> v | Inr v' \<Rightarrow> v')"

fun tracked :: "addr set \<Rightarrow> bool \<Rightarrow> range list \<Rightarrow> app_op list \<Rightarrow> bool" where
  "tracked A skip v [] \<longleftrightarrow> True"
| "tracked A skip v (p # ps) \<longleftrightarrow>
     (case p of AppStore a bs rsp \<Rightarrow> store_tracked A skip v a (length bs) rsp | _ \<Rightarrow> True) \<and>
     tracked A skip (fresh_after p v) ps"

text \<open>The addresses that an epoch need not restore: what it mapped, and the stack.\<close>

definition unprotected :: "u64 \<Rightarrow> app_op list \<Rightarrow> addr set" where
  "unprotected S ops = {x. S \<le> x} \<union> (\<Union>p \<in> set ops. op_fresh p)"

lemma log_state_store:
  assumes st: "log_state dedup B A m0 F (length es) es ul" and off: "off_log B a (length bs)"
    and cov: "\<And>x. unat (x - a) < length bs \<Longrightarrow> x \<notin> F \<Longrightarrow> undo_block x \<in> addrs es"
  shows "log_state dedup B A m0 F (length es) es (ul\<lparr>ul_mem := store_bytes a bs (ul_mem ul)\<rparr>)"
    and "safe_run (crash_safe B A m0 F) (ul_mem ul) (store_bytes a bs (ul_mem ul))"
proof -
  have inv: "log_inv B A m0 F (length es) (length es) es (ul_mem ul)" using st by (simp add: log_state_def)
  have sr: "safe_run (log_inv B A m0 F (length es) (length es) es) (ul_mem ul) (store_bytes a bs (ul_mem ul))"
  proof (rule safe_run_store_bytes)
    fix Q i
    assume Q: "log_inv B A m0 F (length es) (length es) es Q" and i: "i < length bs"
    have one: "x = a + of_nat i" if "unat (x - (a + of_nat i)) < length [bs ! i]" for x
      using that by (simp add: unat_eq_0)
    show "log_inv B A m0 F (length es) (length es) es (pm_step (Store (a + of_nat i) [bs ! i]) Q)"
    proof (cases "i < 18446744073709551616")
      case True
      then have u: "unat (a + of_nat i - a) < length bs" using i by (simp add: unat_of_nat_small)
      show ?thesis
      proof (rule log_inv_app_store [OF Q])
        show "off_log B (a + of_nat i) (length [bs ! i])"
          using off u one unfolding off_log_def by blast
      qed (use one u cov in fastforce)
    next
      case False
      then have u: "unat (x - a) < length bs" for x using i unat_u64_less [of "x - a"] by linarith
      show ?thesis
      proof (rule log_inv_app_store [OF Q])
        show "off_log B (a + of_nat i) (length [bs ! i])"
          using off u unfolding off_log_def by blast
      qed (use u cov in fastforce)
    qed
  qed (rule inv)
  from safe_run_mono [OF sr log_inv_crash_safe]
  show "safe_run (crash_safe B A m0 F) (ul_mem ul) (store_bytes a bs (ul_mem ul))" .
  from safe_run_end [OF sr] st
  show "log_state dedup B A m0 F (length es) es (ul\<lparr>ul_mem := store_bytes a bs (ul_mem ul)\<rparr>)"
    by (simp add: log_state_def)
qed

text \<open>Every byte of a window inside a fresh region is a byte of \<open>F\<close>.\<close>

lemma fresh_window:
  assumes "log_state dedup B A m0 F n es ul" and w: "window_ok B a k"
    and "ranges_find (fresh_regions ul) a (ucast (of_nat k :: u32))" and x: "unat (x - a) < k"
  shows "x \<in> F"
proof -
  have k: "0 < k" "k < 4294967296" "unat a + k + 32 \<le> 18446744073709551616"
    using w by (auto simp: window_ok_def)
  have sz: "unat (ucast (of_nat k :: u32) :: u64) = k"
    using k(2) by (simp add: unsigned_ucast_eq unsigned_of_nat take_bit_nat_eq_self)
  have nw: "no_wrap (Range a (ucast (of_nat k :: u32)))" using k(3) sz by (simp add: no_wrap_def)
  have "x \<in> range_set (Range a (ucast (of_nat k :: u32)))"
    using x window_iff [of a k x] k(3) sz by (simp add: mem_range_set includes_point_nat [OF nw])
  then show ?thesis
    using assms(1,3) rs.find_iff [OF _ nw, of "fresh_regions ul"] by (auto simp: log_state_def)
qed

lemma record_write_correct:
  assumes st: "log_state dedup B A m0 F (length es) es ul" and w: "window_ok B a k"
    and A: "store_tracked A skip (fresh_regions ul) a k rsp"
    and room: "length es + blocks_of a k < UNDO_NUM_ENTRIES"
    and S: "{x. S \<le> x} \<subseteq> F" "S \<le> rsp - 128"
  shows "\<exists>es' ul' flag'. record_write dedup skip a (of_nat k) rsp (ul, flag) = Some (ul', flag') \<and>
           log_state dedup B A m0 F (length (es @ es')) (es @ es') ul' \<and> length es' \<le> blocks_of a k \<and>
           (\<forall>x. unat (x - a) < k \<longrightarrow> x \<notin> F \<longrightarrow> undo_block x \<in> addrs (es @ es')) \<and>
           logging_step B A m0 F ul ul'"
proof -
  have safe: "logging_step B A m0 F ul ul"
    using st log_inv_crash_safe by (intro logging_step_refl) (auto simp: log_state_def)
  consider (stack) "skip" "rsp - 128 \<le> a"
    | (fresh) "\<not> (skip \<and> rsp - 128 \<le> a)" "ranges_find (fresh_regions ul) a (ucast (of_nat k :: u32))"
    | (slow) "\<not> (skip \<and> rsp - 128 \<le> a)" "\<not> ranges_find (fresh_regions ul) a (ucast (of_nat k :: u32))"
    by blast
  then show ?thesis
  proof cases
    case stack
    have "x \<in> F" if "unat (x - a) < k" for x
    proof -
      have "a \<le> x" using that w window_iff [of a k x] by (auto simp: window_ok_def word_le_nat_alt)
      then show ?thesis using S stack(2) by auto
    qed
    then show ?thesis using st stack safe
      by (intro exI [of _ "[]"] exI [of _ ul] exI [of _ flag]) (auto simp: record_write_def)
  next
    case fresh
    then show ?thesis using st safe fresh_window [OF st w]
      by (intro exI [of _ "[]"] exI [of _ ul] exI [of _ flag])
         (auto simp: record_write_def undo_log_record_def)
  next
    case slow
    from undo_log_record_slow [OF st w room slow(2)] slow A show ?thesis
      by (fastforce simp: record_write_def store_tracked_def)
  qed
qed

lemma instrumented_store_correct:
  assumes st: "log_state dedup B A m0 F (length es) es ul" and w: "window_ok B a (length bs)"
    and A: "store_tracked A skip (fresh_regions ul) a (length bs) rsp"
    and room: "length es + blocks_of a (length bs) < UNDO_NUM_ENTRIES"
    and S: "{x. S \<le> x} \<subseteq> F" "S \<le> rsp - 128"
  shows "\<exists>es' ul' flag'. instrumented_store dedup skip a bs rsp (ul, flag) = Some (ul', flag') \<and>
           log_state dedup B A m0 F (length (es @ es')) (es @ es') ul' \<and>
           length es' \<le> blocks_of a (length bs) \<and>
           safe_run (crash_safe B A m0 F) (ul_mem ul) (ul_mem ul') \<and>
           fresh_regions ul' = fresh_regions ul \<and>
           (\<forall>x. \<not> in_log B x \<longrightarrow> cur (ul_mem ul') x = wr a bs (cur (ul_mem ul)) x)"
proof -
  obtain es' ul1 flag1 where r:
    "record_write dedup skip a (of_nat (length bs)) rsp (ul, flag) = Some (ul1, flag1)"
    "log_state dedup B A m0 F (length (es @ es')) (es @ es') ul1" "length es' \<le> blocks_of a (length bs)"
    "\<forall>x. unat (x - a) < length bs \<longrightarrow> x \<notin> F \<longrightarrow> undo_block x \<in> addrs (es @ es')"
    "logging_step B A m0 F ul ul1"
    using record_write_correct [OF st w A room S] by blast
  have off: "off_log B a (length bs)" and len: "length bs < 18446744073709551616"
    using w by (auto simp: window_ok_def)
  note st2 = log_state_store [OF r(2) off]
  let ?ul = "ul1\<lparr>ul_mem := store_bytes a bs (ul_mem ul1)\<rparr>"
  have "cur (ul_mem ?ul) x = wr a bs (cur (ul_mem ul)) x" if "\<not> in_log B x" for x
    using r(5) that len by (simp add: logging_step_def wr_def)
  moreover have "safe_run (crash_safe B A m0 F) (ul_mem ul) (ul_mem ?ul)"
    using r(5) st2(2) r(4) safe_run_trans by (fastforce simp: logging_step_def)
  moreover have "instrumented_store dedup skip a bs rsp (ul, flag) = Some (?ul, flag1)"
    using r(1) by (simp add: instrumented_store_def)
  moreover have "fresh_regions ?ul = fresh_regions ul" using r(5) by (simp add: logging_step_def)
  ultimately show ?thesis using st2(1) r(3,4) by blast
qed

text \<open>The effect of the operations on the memory that the application sees.\<close>

fun app_effect :: "app_op list \<Rightarrow> mem \<Rightarrow> mem" where
  "app_effect [] m = m"
| "app_effect (AppStore a bs rsp # ps) m = app_effect ps (wr a bs m)"
| "app_effect (p # ps) m = app_effect ps m"

lemma app_effect_cong:
  "(\<And>x. \<not> in_log B x \<Longrightarrow> m x = m' x) \<Longrightarrow> \<not> in_log B x \<Longrightarrow> app_effect ops m x = app_effect ops m' x"
proof (induction ops arbitrary: m m')
  case Nil
  then show ?case by simp
next
  case (Cons p ps)
  show ?case
  proof (cases p)
    case (AppStore a bs rsp)
    have "app_effect ps (wr a bs m) x = app_effect ps (wr a bs m') x"
      by (rule Cons.IH [OF _ Cons.prems(2)]) (simp add: wr_def Cons.prems(1))
    with AppStore show ?thesis by simp
  next
    case (AppFresh a sz)
    with Cons.IH [OF Cons.prems] show ?thesis by simp
  next
    case (AppUnfresh a sz)
    with Cons.IH [OF Cons.prems] show ?thesis by simp
  qed
qed

lemma run_op_correct:
  assumes st: "log_state dedup B A m0 F (length es) es ul" and ok: "op_ok B S p"
    and A: "tracked A skip (fresh_regions ul) (p # ps)"
    and room: "length es + op_blocks p < UNDO_NUM_ENTRIES"
    and F: "{x. S \<le> x} \<subseteq> F" "op_fresh p \<subseteq> F"
  shows "\<exists>es' ul' flag'. run_op dedup skip p (ul, flag) = Some (Inr (ul', flag')) \<and>
           log_state dedup B A m0 F (length (es @ es')) (es @ es') ul' \<and> length es' \<le> op_blocks p \<and>
           safe_run (crash_safe B A m0 F) (ul_mem ul) (ul_mem ul') \<and>
           fresh_regions ul' = fresh_after p (fresh_regions ul) \<and>
           (\<forall>x. \<not> in_log B x \<longrightarrow> cur (ul_mem ul') x = app_effect [p] (cur (ul_mem ul)) x)"
proof -
  have safe: "safe_run (crash_safe B A m0 F) (ul_mem ul) (ul_mem ul)"
    using st log_inv_crash_safe by (auto simp: log_state_def)
  show ?thesis
  proof (cases p)
    case (AppStore a bs rsp)
    with ok room A have "window_ok B a (length bs)"
      "store_tracked A skip (fresh_regions ul) a (length bs) rsp"
      "length es + blocks_of a (length bs) < UNDO_NUM_ENTRIES" "S \<le> rsp - 128" by auto
    from instrumented_store_correct [OF st this(1-3) F(1) this(4)] AppStore show ?thesis
      by fastforce
  next
    case (AppFresh a sz)
    then have nw: "no_wrap (Range a (ucast sz))" and r: "range_set (Range a (ucast sz)) \<subseteq> F"
      using ok F by (auto simp: no_wrap_def unat_ucast_u32)
    have "log_state dedup B A m0 F (length es) es (undo_log_record_fresh_region a sz ul)"
      using st nw r rs.contents_add [OF _ nw] rs.invar_add [OF _ nw]
      by (auto simp: log_state_def undo_log_record_fresh_region_def)
    with AppFresh safe show ?thesis
      by (intro exI [of _ "[]"]) (auto simp: undo_log_record_fresh_region_def)
  next
    case (AppUnfresh a sz)
    then have nw: "no_wrap (Range a (ucast sz))" using ok by simp
    have wf: "ranges_wf (fresh_regions ul)" using st by (simp add: log_state_def)
    obtain v where v: "ranges_remove a (ucast sz) (fresh_regions ul) = Inr v" "ranges_wf v"
      "ranges_set v \<subseteq> ranges_set (fresh_regions ul)"
    proof (cases "sz = 0")
      case True
      with wf that show thesis by (simp add: ranges_remove_def)
    next
      case False
      then have "(ucast sz :: u64) \<noteq> 0" by (simp add: word_eq_iff_unat unat_ucast_u32)
      with remove_loop_correct [OF nw _ wf] kept_by_remove_subset [OF nw] that show thesis
        by (fastforce simp: ranges_remove_def)
    qed
    then have "log_state dedup B A m0 F (length es) es (ul\<lparr>fresh_regions := v\<rparr>)"
      using st by (auto simp: log_state_def)
    with AppUnfresh v safe show ?thesis
      by (intro exI [of _ "[]"]) (auto simp: undo_log_remove_fresh_region_def)
  qed
qed

lemma run_app_correct:
  assumes "log_state dedup B A m0 F (length es) es ul" and "\<forall>p \<in> set ops. op_ok B S p"
    and "tracked A skip (fresh_regions ul) ops"
    and "length es + sum_list (map op_blocks ops) < UNDO_NUM_ENTRIES" and "unprotected S ops \<subseteq> F"
  shows "\<exists>es' ul' flag'. run_app dedup skip ops (ul, flag) = Some (Inr (ul', flag')) \<and>
           log_state dedup B A m0 F (length (es @ es')) (es @ es') ul' \<and>
           length es' \<le> sum_list (map op_blocks ops) \<and>
           safe_run (crash_safe B A m0 F) (ul_mem ul) (ul_mem ul') \<and>
           fresh_regions ul' = fold fresh_after ops (fresh_regions ul) \<and>
           (\<forall>x. \<not> in_log B x \<longrightarrow> cur (ul_mem ul') x = app_effect ops (cur (ul_mem ul)) x)"
  using assms
proof (induction ops arbitrary: es ul flag)
  case Nil
  then show ?case using log_inv_crash_safe
    by (intro exI [of _ "[]"] exI [of _ ul]) (auto simp: log_state_def)
next
  case (Cons p ps)
  have F: "{x. S \<le> x} \<subseteq> F" "op_fresh p \<subseteq> F" "unprotected S ps \<subseteq> F"
    using Cons.prems(5) by (auto simp: unprotected_def)
  obtain es1 ul1 flag1 where r1: "run_op dedup skip p (ul, flag) = Some (Inr (ul1, flag1))"
    "log_state dedup B A m0 F (length (es @ es1)) (es @ es1) ul1" "length es1 \<le> op_blocks p"
    "safe_run (crash_safe B A m0 F) (ul_mem ul) (ul_mem ul1)"
    "\<And>x. \<not> in_log B x \<Longrightarrow> cur (ul_mem ul1) x = app_effect [p] (cur (ul_mem ul)) x"
    "fresh_regions ul1 = fresh_after p (fresh_regions ul)"
    using run_op_correct [OF Cons.prems(1) _ Cons.prems(3) _ F(1,2)] Cons.prems(2,4) by fastforce
  have tr: "tracked A skip (fresh_regions ul1) ps" using Cons.prems(3) r1(6) by simp
  obtain es2 ul2 flag2 where r2: "run_app dedup skip ps (ul1, flag1) = Some (Inr (ul2, flag2))"
    "log_state dedup B A m0 F (length ((es @ es1) @ es2)) ((es @ es1) @ es2) ul2"
    "length es2 \<le> sum_list (map op_blocks ps)"
    "safe_run (crash_safe B A m0 F) (ul_mem ul1) (ul_mem ul2)"
    "\<And>x. \<not> in_log B x \<Longrightarrow> cur (ul_mem ul2) x = app_effect ps (cur (ul_mem ul1)) x"
    "fresh_regions ul2 = fold fresh_after ps (fresh_regions ul1)"
    using Cons.IH [OF r1(2) _ tr _ F(3)] Cons.prems(2,4) r1(3) by fastforce
  have "cur (ul_mem ul2) x = app_effect (p # ps) (cur (ul_mem ul)) x" if "\<not> in_log B x" for x
    using r2(5) [OF that] app_effect_cong [OF r1(5) that] by (cases p) auto
  then show ?case using r1 r2 safe_run_trans [OF r1(4) r2(4)]
    by (intro exI [of _ "es1 @ es2"] exI [of _ ul2] exI [of _ flag2]) auto
qed

end
