(* ===== verification/Undo_Recover.thy ===== *)
theory Undo_Recover
  imports Undo_Record
begin

text \<open>
  Recovery after a power failure: the scan of \<open>undo_log_init\<close> finds the entries that reached
  memory, \<open>undo_log_recover\<close> puts the saved blocks back, and \<open>undo_log_clear\<close> makes the log
  empty. \<open>recovering\<close> is the invariant of the undo phase; it also holds of the memories that
  a second failure during that phase leaves, so that recovery may be repeated. Its argument \<open>J\<close>
  holds the indices of entries known to be null.
\<close>

section \<open>What a failure leaves\<close>

definition recovering ::
  "addr \<Rightarrow> addr set \<Rightarrow> mem \<Rightarrow> addr set \<Rightarrow> nat set \<Rightarrow> undo_log_entry list \<Rightarrow> pmem \<Rightarrow> bool" where
  "recovering B A m0 F J es P \<longleftrightarrow>
     log_base_ok B \<and> wf_pm P \<and> length es \<in> J \<and> J \<subseteq> {length es..<UNDO_NUM_ENTRIES} \<and>
     (\<forall>e \<in> set es. good_entry B A e) \<and> saved m0 F es \<and>
     (\<forall>j < length es. \<forall>m \<in> set (pv P (eline B j)). ent B m j = es ! j) \<and>
     (\<forall>j \<in> J. \<forall>m \<in> set (pv P (eline B j)). is_null (ent B m j)) \<and>
     (\<forall>x. \<not> in_log B x \<longrightarrow> x \<notin> F \<longrightarrow>
        (\<forall>m \<in> set (pv P (line x)). m x = m0 x \<or> undo_block x \<in> addrs es))"

lemma crash_image_ent:
  assumes "log_base_ok B" and "j < UNDO_NUM_ENTRIES" and "crash_image P img"
  obtains m where "m \<in> set (pv P (eline B j))" and "ent B img j = ent B m j"
proof -
  from assms(3) obtain m where "m \<in> set (pv P (eline B j))" "\<forall>a. line a = eline B j \<longrightarrow> img a = m a"
    unfolding crash_image_def by blast
  with ent_cong [OF assms(1,2), of img m] that show thesis by blast
qed

lemma crash_image_byte:
  assumes "crash_image P img"
  obtains m where "m \<in> set (pv P (line x))" and "img x = m x"
  using assms unfolding crash_image_def by blast

lemma good_entry_not_null: "good_entry B A e \<Longrightarrow> \<not> is_null e"
  by (simp add: good_entry_def is_null_def)

text \<open>The entries that reached memory form a prefix up to the first null one.\<close>

lemma crash_safe_image:
  assumes "crash_safe B A m0 F P" and img: "crash_image P img"
  shows "\<exists>es. recovering B A m0 F {j. length es \<le> j \<and> j < UNDO_NUM_ENTRIES \<and> is_null (ent B img j)} es (boot img)"
proof -
  from assms(1) obtain n k es where inv: "log_inv B A m0 F n k es P"
    unfolding crash_safe_def by blast
  have ok: "log_base_ok B" and len: "length es < UNDO_NUM_ENTRIES" and n: "n \<le> length es"
    and good: "\<And>e. e \<in> set es \<Longrightarrow> good_entry B A e"
    using log_invD [OF inv] by auto
  have e: "is_null (ent B img j) \<or> j < length es \<and> ent B img j = es ! j" if "j < UNDO_NUM_ENTRIES" for j
    using crash_image_ent [OF ok that img] inv that unfolding log_inv_def by (metis not_le)
  have sure: "ent B img j = es ! j" if "j < n" for j
    using crash_image_ent [OF ok _ img, of j] inv that n len unfolding log_inv_def
    by (metis order.strict_trans2 order.strict_trans)
  define k' where "k' = (LEAST j. is_null (ent B img j))"
  have null_len: "is_null (ent B img (length es))" using e [OF len] by auto
  then have k': "is_null (ent B img k')" "k' \<le> length es"
    unfolding k'_def by (rule LeastI, rule Least_le)
  have before: "ent B img j = es ! j" if "j < k'" for j
    using e [of j] that k'(2) len not_less_Least [of j "\<lambda>j. is_null (ent B img j)"] k'_def by auto
  have "n \<le> k'"
  proof (rule ccontr)
    assume "\<not> n \<le> k'"
    then have "ent B img k' = es ! k'" "k' < length es" using sure n by auto
    with good [of "es ! k'"] k'(1) show False by (simp add: good_entry_not_null)
  qed
  then have sub: "addrs (take n es) \<subseteq> addrs (take k' es)"
    by (intro image_mono set_take_subset_set_take)
  have "img x = m0 x \<or> undo_block x \<in> addrs (take k' es)" if "\<not> in_log B x" "x \<notin> F" for x
  proof -
    obtain m where m: "m \<in> set (pv P (line x))" "img x = m x" by (rule crash_image_byte [OF img])
    from inv that m(1) have "m x = m0 x \<or> undo_block x \<in> addrs (take n es)"
      unfolding log_inv_def by blast
    with m(2) sub show ?thesis by auto
  qed
  moreover have "length (take k' es) = k'" using k'(2) by simp
  ultimately have "recovering B A m0 F {j. length (take k' es) \<le> j \<and> j < UNDO_NUM_ENTRIES \<and> is_null (ent B img j)}
      (take k' es) (boot img)"
    using ok len k' before good log_invD(7) [OF inv] saved_take [of m0 F es k']
    by (auto simp: recovering_def dest: in_set_takeD)
  then show ?thesis by blast
qed

lemma recovering_image:
  assumes r: "recovering B A m0 F J es P" and img: "crash_image P img"
  shows "recovering B A m0 F J es (boot img)"
proof -
  have ok: "log_base_ok B" and len: "length es < UNDO_NUM_ENTRIES" and J: "J \<subseteq> {length es..<UNDO_NUM_ENTRIES}"
    using r by (auto simp: recovering_def)
  have "ent B img j = es ! j" if "j < length es" for j
    using crash_image_ent [OF ok _ img, of j] r that len unfolding recovering_def by (metis order.strict_trans)
  moreover have "is_null (ent B img j)" if "j \<in> J" for j
  proof -
    have "j < UNDO_NUM_ENTRIES" using that J by auto
    with crash_image_ent [OF ok _ img, of j] r that show ?thesis unfolding recovering_def by metis
  qed
  moreover have "img x = m0 x \<or> undo_block x \<in> addrs es" if "\<not> in_log B x" "x \<notin> F" for x
    using crash_image_byte [OF img, of x] r that unfolding recovering_def by metis
  ultimately show ?thesis using r by (simp add: recovering_def)
qed

section \<open>The scan\<close>

lemma undo_scan_finds:
  assumes "\<And>j. j < k \<Longrightarrow> \<not> is_null (ent B m j) \<and> (commit_tail (ent B m j) > 0 \<longrightarrow> entry_addr (ent B m j) = 0)"
    and "is_null (ent B m k)" and "i \<le> k"
  shows "\<exists>t'. undo_scan dedup B m i t = Some (Inr (k, t'))"
  using assms(3)
proof (induction "k - i" arbitrary: i t)
  case 0
  then have "i = k" by simp
  with assms(2) show ?case by (subst undo_scan.simps) simp
next
  case (Suc d)
  then have i: "i < k" "d = k - Suc i" "Suc i \<le> k" by auto
  obtain t' where "undo_scan dedup B m (Suc i)
      (if dedup then snd (undo_log_insert_logged_addr (entry_addr (ent B m i)) t) else t) = Some (Inr (k, t'))"
    using Suc.hyps(1) [OF i(2,3)] by blast
  with assms(1) [OF i(1)] show ?case by (subst undo_scan.simps) (auto simp: Let_def)
qed

lemma undo_log_init_recovered:
  assumes "log_base_ok B" and "dedup \<longrightarrow> hm < 0xFFFFFFFF"
    and "\<And>j. j < k \<Longrightarrow> \<not> is_null (ent B m j) \<and> (commit_tail (ent B m j) > 0 \<longrightarrow> entry_addr (ent B m j) = 0)"
    and "is_null (ent B m k)"
  shows "\<exists>t. undo_log_init dedup B hm h0 True (boot m) = Some (Inr \<lparr>ul_log = B, ul_len = k,
           logged_addrs_hash = t, fresh_regions = [], ul_mem = boot m\<rparr>)"
proof -
  obtain t where "undo_scan dedup B m 0 (if dedup then (\<lambda>_. 0) else h0) = Some (Inr (k, t))"
    using undo_scan_finds [OF assms(3,4), where i = 0] by blast
  then show ?thesis using assms(1,2)
    by (intro exI [of _ t]) (auto simp: undo_log_init_def log_base_ok_def CACHE_LINE_SIZE_B_def)
qed

section \<open>Undoing\<close>

lemma recovering_current:
  assumes "recovering B A m0 F J es P"
  shows "\<And>j. j < length es \<Longrightarrow> ent B (cur P) j = es ! j"
    and "\<And>j. j \<in> J \<Longrightarrow> is_null (ent B (cur P) j)"
    and "\<And>x. \<not> in_log B x \<Longrightarrow> x \<notin> F \<Longrightarrow> cur P x = m0 x \<or> undo_block x \<in> addrs es"
proof -
  have c: "cur P \<in> set (pv P l)" for l using assms by (auto simp: recovering_def wf_pm_def)
  show "\<And>j. j < length es \<Longrightarrow> ent B (cur P) j = es ! j" and "\<And>j. j \<in> J \<Longrightarrow> is_null (ent B (cur P) j)"
    and "\<And>x. \<not> in_log B x \<Longrightarrow> x \<notin> F \<Longrightarrow> cur P x = m0 x \<or> undo_block x \<in> addrs es"
    using assms c unfolding recovering_def by blast+
qed

lemma block_off_log:
  assumes "log_base_ok B" and "undo_block p = p" and "\<not> in_log B p" and "n \<le> 32"
  shows "off_log B p n"
  unfolding off_log_def
proof (intro allI impI)
  fix x
  assume "unat (x - p) < n"
  with assms(4) have "unat (x - p) < 32" by linarith
  then have "undo_block x = undo_block p" using block_window [OF assms(2), of x] assms(2) by simp
  with assms(3) in_log_block [OF assms(1)] show "\<not> in_log B x" by blast
qed

lemma recovering_store:
  assumes r: "recovering B A m0 F J es P" and off: "off_log B a (length bs)"
    and cov: "\<And>x. unat (x - a) < length bs \<Longrightarrow> undo_block x \<in> addrs es"
  shows "recovering B A m0 F J es (pm_step (Store a bs) P)"
proof -
  have ok: "log_base_ok B" and len: "length es < UNDO_NUM_ENTRIES" and w: "wf_pm P"
    and J: "J \<subseteq> {length es..<UNDO_NUM_ENTRIES}" using r by (auto simp: recovering_def)
  have "\<forall>m \<in> set (pv (pm_step (Store a bs) P) (eline B j)). ent B m j = es ! j" if "j < length es" for j
    using that len r recovering_current(1) [OF r that] ent_wr_off_log [OF ok _ off, of j "cur P"]
    by (simp add: recovering_def)
  moreover have "\<forall>m \<in> set (pv (pm_step (Store a bs) P) (eline B j)). is_null (ent B m j)" if "j \<in> J" for j
    using that J r recovering_current(2) [OF r that] ent_wr_off_log [OF ok _ off, of j "cur P"]
    by (auto simp: recovering_def)
  moreover have "\<forall>m \<in> set (pv (pm_step (Store a bs) P) (line x)). m x = m0 x \<or> undo_block x \<in> addrs es"
    if "\<not> in_log B x" "x \<notin> F" for x
  proof -
    have "wr a bs (cur P) x = m0 x \<or> undo_block x \<in> addrs es"
      using recovering_current(3) [OF r that] cov [of x] by (auto simp: wr_def)
    with r that show ?thesis by (auto simp: recovering_def)
  qed
  ultimately show ?thesis
    using r wf_pm_step [OF w, of "Store a bs"] by (simp add: recovering_def)
qed

lemma recovering_flush: "recovering B A m0 F J es P \<Longrightarrow> recovering B A m0 F J es (pmem_flush a P)"
  using wf_pm_step [of P "Flush a"] unfolding recovering_def pmem_flush_def by auto

lemma recovering_fence:
  assumes r: "recovering B A m0 F J es P"
  shows "recovering B A m0 F J es (pmem_drain P)"
proof -
  have w: "wf_pm P" using r by (simp add: recovering_def)
  then have sub: "\<And>l m. m \<in> set (fv P l) \<Longrightarrow> m \<in> set (pv P l)" by (auto simp: wf_pm_def)
  have "m x = m0 x \<or> undo_block x \<in> addrs es"
    if "\<not> in_log B x" "x \<notin> F" "m \<in> set (fv P (line x))" for m x
    using r that(1,2) sub [OF that(3)] unfolding recovering_def by blast
  then show ?thesis
    using r sub wf_pm_step [OF w, of Fence] by (simp add: recovering_def pmem_drain_def)
qed

text \<open>Outside the log, what the next fence makes persistent is what loads see.\<close>

definition settled :: "addr \<Rightarrow> pmem \<Rightarrow> bool" where
  "settled B P \<longleftrightarrow> (\<forall>x. \<not> in_log B x \<longrightarrow> (\<forall>m \<in> set (fv P (line x)). m x = cur P x))"

lemma settled_boot [simp]: "settled B (boot m)"
  by (simp add: settled_def)

lemma settled_fence: "settled B P \<Longrightarrow> settled B (pmem_drain P)"
  by (simp add: settled_def pmem_drain_def)

lemma settled_block_store:
  assumes s: "settled B P" and bs: "length bs = 32" and p: "undo_block p = p"
  shows "settled B (pmem_flush p (store_bytes p bs P))"
proof -
  let ?I = "\<lambda>Q :: pmem. \<forall>x. \<not> in_log B x \<longrightarrow> line x \<noteq> line p \<longrightarrow> (\<forall>m \<in> set (fv Q (line x)). m x = cur Q x)"
  have "safe_run ?I P (store_bytes p bs P)"
  proof (rule safe_run_store_bytes)
    show "?I P" using s by (simp add: settled_def)
    fix Q i
    assume Q: "?I Q" and i: "i < length bs"
    have "unat (p + of_nat i - p) < 32" using i bs by (simp add: unat_of_nat_small)
    then have "line (p + of_nat i) = line p"
      using block_window [OF p, of "p + of_nat i"] p block_same_line by metis
    then show "?I (pm_step (Store (p + of_nat i) [bs ! i]) Q)"
      using Q by (auto simp: wr_single)
  qed
  from safe_run_end [OF this] show ?thesis
    by (simp add: settled_def pmem_flush_def)
qed

lemma undo_block_store:
  assumes r: "recovering B A m0 F J es P" and e: "e \<in> set es"
  shows "safe_run (recovering B A m0 F J es) P (pmem_flush (entry_addr e) (store_bytes (entry_addr e) (blk e) P))"
proof -
  let ?p = "entry_addr e"
  have g: "good_entry B A e" and ok: "log_base_ok B" using r e by (auto simp: recovering_def)
  then have p: "undo_block ?p = ?p" "\<not> in_log B ?p" "length (blk e) = 32" by (auto simp: good_entry_def)
  have "safe_run (recovering B A m0 F J es) P (store_bytes ?p (blk e) P)"
  proof (rule safe_run_store_bytes [where I = "recovering B A m0 F J es", OF r])
    fix Q i
    assume Q: "recovering B A m0 F J es Q" and i: "i < length (blk e)"
    have "unat (?p + of_nat i - ?p) < 32" using i p by (simp add: unat_of_nat_small)
    then have b: "undo_block (?p + of_nat i) = ?p" using block_window [OF p(1), of "?p + of_nat i"] by simp
    have one: "x = ?p + of_nat i" if "unat (x - (?p + of_nat i)) < length [blk e ! i]" for x
      using that by (simp add: unat_eq_0)
    show "recovering B A m0 F J es (pm_step (Store (?p + of_nat i) [blk e ! i]) Q)"
    proof (rule recovering_store [OF Q])
      show "off_log B (?p + of_nat i) (length [blk e ! i])"
        using one in_log_block [OF ok, of "?p + of_nat i" ?p] b p unfolding off_log_def by metis
    qed (use one b e in fastforce)
  qed
  moreover from safe_run_end [OF this] recovering_flush
  have "safe_run (recovering B A m0 F J es) (store_bytes ?p (blk e) P) (pmem_flush ?p (store_bytes ?p (blk e) P))"
    unfolding pmem_flush_def by (intro safe_run_step) auto
  ultimately show ?thesis by (rule safe_run_trans)
qed

lemma undo_mem_snoc: "undo_mem (es @ [e]) m = undo_mem es (wr (entry_addr e) (blk e) m)"
  by (simp add: undo_mem_def)

lemma undo_apply_correct:
  assumes "recovering B A m0 F J es P" and "settled B P" and "i \<le> length es"
    and "\<forall>e \<in> set es. managed (entry_addr e)"
  shows "\<exists>P'. undo_apply managed B i P = Inr P' \<and> safe_run (recovering B A m0 F J es) P P' \<and>
           settled B P' \<and> cur P' = undo_mem (take i es) (cur P)"
  using assms(1-3)
proof (induction i arbitrary: P)
  case 0
  then show ?case by (auto simp: undo_mem_def)
next
  case (Suc i)
  let ?e = "es ! i"
  have i: "i < length es" "i \<le> length es" and mem: "?e \<in> set es" using Suc.prems(3) by auto
  then have g: "good_entry B A ?e" and m: "managed (entry_addr ?e)"
    using Suc.prems(1) assms(4) by (auto simp: recovering_def)
  let ?P = "pmem_flush (entry_addr ?e) (store_bytes (entry_addr ?e) (blk ?e) P)"
  have s: "safe_run (recovering B A m0 F J es) P ?P" by (rule undo_block_store [OF Suc.prems(1) mem])
  have st: "settled B ?P"
    using g by (intro settled_block_store Suc.prems(2)) (auto simp: good_entry_def)
  obtain P' where P': "undo_apply managed B i ?P = Inr P'" "safe_run (recovering B A m0 F J es) ?P P'"
    "settled B P'" "cur P' = undo_mem (take i es) (cur ?P)"
    using Suc.IH [OF safe_run_end [OF s] st i(2)] by blast
  have "cur P' = undo_mem (take (Suc i) es) (cur P)"
    using P'(4) g i(1) by (simp add: take_Suc_conv_app_nth undo_mem_snoc good_entry_def)
  moreover have "undo_apply managed B (Suc i) P = Inr P'"
    using P'(1) g m recovering_current(1) [OF Suc.prems(1) i(1)]
    by (simp add: Let_def good_entry_def)
  ultimately show ?case using P'(3) safe_run_trans [OF s P'(2)] by blast
qed

section \<open>Clearing\<close>

text \<open>
  What \<open>undo_log_clear\<close> achieves from any state in which the entries from \<open>ul_len\<close> on are null
  and the bytes outside the log and \<open>F\<close> are those of \<open>m1\<close> after a fence.
\<close>

definition clearing :: "addr \<Rightarrow> mem \<Rightarrow> addr set \<Rightarrow> nat set \<Rightarrow> pmem \<Rightarrow> bool" where
  "clearing B m1 F J P \<longleftrightarrow> wf_pm P \<and>
     (\<forall>j \<in> J. \<forall>m \<in> set (pv P (eline B j)). is_null (ent B m j)) \<and>
     (\<forall>x. \<not> in_log B x \<longrightarrow> x \<notin> F \<longrightarrow> (\<forall>m \<in> set (fv P (line x)). m x = m1 x))"

lemma clearing_current:
  assumes "clearing B m1 F J P"
  shows "\<And>j. j \<in> J \<Longrightarrow> is_null (ent B (cur P) j)"
    and "\<And>x. \<not> in_log B x \<Longrightarrow> x \<notin> F \<Longrightarrow> cur P x = m1 x"
proof -
  have "cur P \<in> set (pv P l)" "cur P \<in> set (fv P l)" for l using assms by (auto simp: clearing_def wf_pm_def)
  with assms show "\<And>j. j \<in> J \<Longrightarrow> is_null (ent B (cur P) j)"
    and "\<And>x. \<not> in_log B x \<Longrightarrow> x \<notin> F \<Longrightarrow> cur P x = m1 x"
    unfolding clearing_def by blast+
qed

lemma clearing_step:
  assumes ok: "log_base_ok B" and n: "n \<le> UNDO_NUM_ENTRIES" and J: "J \<subseteq> {n..<UNDO_NUM_ENTRIES}"
    and Q: "clearing B m1 F J Q" and i: "32 * i + 32 \<le> n * 64"
  shows "clearing B m1 F J (pm_step (NTStore (B + of_nat (32 * i)) (replicate 32 z)) Q)"
proof -
  let ?j = "i div 2" and ?bs = "replicate 32 z :: byte list"
  have j: "?j < n" using i by (simp add: less_mult_imp_div_less)
  then have jN: "?j < UNDO_NUM_ENTRIES" using n by simp
  have eq: "B + of_nat (32 * i) = entry_at B ?j + of_nat (32 * (i mod 2))"
  proof -
    have "32 * i = 64 * ?j + 32 * (i mod 2)"
      using div_mult_mod_eq [of i 2] by linarith
    then have "(of_nat (32 * i) :: u64) = of_nat (64 * ?j) + of_nat (32 * (i mod 2))"
      by (metis of_nat_add)
    then show ?thesis by (simp add: entry_at_def CACHE_LINE_SIZE_B_def add.assoc)
  qed
  have k: "32 * (i mod 2) + length ?bs \<le> 64" by (cases "i mod 2 = 0") auto
  have e: "ent B (wr (B + of_nat (32 * i)) ?bs (cur Q)) j = ent B (cur Q) j" if "j \<in> J" for j
    unfolding eq using that J j by (intro ent_wr_other [OF ok jN _ _ k]) auto
  have b: "wr (B + of_nat (32 * i)) ?bs (cur Q) x = cur Q x" if "\<not> in_log B x" for x
    unfolding eq by (rule wr_entry_off_log_byte [OF ok jN k that])
  show ?thesis
    using Q e b clearing_current [OF Q] wf_pm_step [of Q "NTStore (B + of_nat (32 * i)) ?bs"]
    by (simp add: clearing_def)
qed

lemma ent_zero:
  assumes ok: "log_base_ok B" "j < UNDO_NUM_ENTRIES"
    and z: "\<And>x. line x = eline B j \<Longrightarrow> m x = 0"
  shows "is_null (ent B m j)"
proof -
  have "ent B m j = ent B (\<lambda>_. 0) j" using ok z by (intro ent_cong) auto
  then show ?thesis by (simp add: is_null_def read_entry_def load_u64_def rd_def map_replicate_const)
qed

lemma undo_log_clear_correct:
  fixes dedup
  assumes ok: "log_base_ok B" and B: "ul_log ul = B" and n: "ul_len ul \<le> UNDO_NUM_ENTRIES"
    and J: "J \<subseteq> {ul_len ul..<UNDO_NUM_ENTRIES}"
    and c: "clearing B m1 F J (ul_mem ul)"
  defines "P' \<equiv> ul_mem (undo_log_clear dedup ul)"
  shows "clearing B m1 F (J \<union> {..<ul_len ul}) P'" and "\<And>l. fv P' l = pv P' l"
proof -
  let ?n = "ul_len ul" and ?P = "ul_mem ul"
  let ?Q = "memset_movnt_avx B 0 (?n * 64) ?P"
  have P': "P' = pmem_drain ?Q"
    by (simp add: P'_def undo_log_clear_def CACHE_LINE_SIZE_B_def B)
  have al: "unat B mod 64 = 0" "?n * 64 mod 64 = 0" "?n * 64 < 18446744073709551616"
    using ok n by (auto simp: log_base_ok_def UNDO_NUM_ENTRIES_def)
  have sr: "safe_run (clearing B m1 F J) ?P ?Q"
    by (rule memset_movnt_avx_lines(1) [where I = "clearing B m1 F J", OF al c])
       (use clearing_step [OF ok n J] in auto)
  note cQ = safe_run_end [OF sr]
  have "is_null (ent B m j)" if "j < ?n" "m \<in> set (fv ?Q (eline B j))" for j m
  proof (rule ent_zero [OF ok])
    show jN: "j < UNDO_NUM_ENTRIES" using that n by simp
    fix x
    assume x: "line x = eline B j"
    then have "unat (x - B) < ?n * 64"
      using entry_window [OF ok jN, of x] that(1) window_iff [of B "?n * 64" x] ok n
      by (simp add: log_base_ok_def)
    with that(2) show "m x = 0"
      using memset_movnt_avx_lines(2) [where I = "clearing B m1 F J", OF al c, where m = m and c = 0 and x = x]
        clearing_step [OF ok n J] x by (simp add: ucast_0)
  qed
  moreover have "\<And>l m. m \<in> set (fv ?Q l) \<Longrightarrow> m \<in> set (pv ?Q l)"
    using cQ by (auto simp: clearing_def wf_pm_def)
  ultimately show "clearing B m1 F (J \<union> {..<?n}) P'"
    using cQ wf_pm_step [of ?Q Fence] unfolding P' clearing_def pmem_drain_def by auto
  show "fv P' l = pv P' l" for l by (simp add: P' pmem_drain_def)
qed

text \<open>When no stale entry is left behind, the log is as at the start of an epoch.\<close>

lemma log_state_clear:
  assumes ok: "log_base_ok B" and B: "ul_log ul = B" and n: "ul_len ul \<le> UNDO_NUM_ENTRIES"
    and c: "clearing B m1 F {ul_len ul..<UNDO_NUM_ENTRIES} (ul_mem ul)"
  shows "log_state dedup B A m1 F 0 [] (undo_log_clear dedup ul)"
proof -
  have u: "{ul_len ul..<UNDO_NUM_ENTRIES} \<union> {..<ul_len ul} = {..<UNDO_NUM_ENTRIES}" using n by auto
  note r = undo_log_clear_correct [OF ok B n subset_refl c, of dedup, unfolded u]
  have "log_inv B A m1 F 0 0 [] (ul_mem (undo_log_clear dedup ul))"
    using r(1) ok unfolding log_inv_def clearing_def r(2) by (simp add: UNDO_NUM_ENTRIES_def)
  then show ?thesis
    using B by (simp add: log_state_def undo_log_clear_def ah.known_none ranges_clear_def ranges_wf_def separated_def)
qed

end
