(* ===== verification/Undo_Commit.thy ===== *)
theory Undo_Commit
  imports Undo_Recover
begin

text \<open>
  The commit of an epoch: \<open>undo_log_commit\<close> flushes every logged block and every fresh region,
  fences, then writes the commit record. \<open>flushing\<close> collects the lines already flushed,
  \<open>committing\<close> is the invariant from the first fence to the end, under which a failure leaves
  either the null entry or the commit record after a complete log.
\<close>

section \<open>Fresh regions\<close>

definition fresh_ok :: "range list \<Rightarrow> bool" where
  "fresh_ok v \<longleftrightarrow> ranges_wf v \<and> (\<forall>r \<in> set v. range_size r \<noteq> 0) \<and>
     (\<forall>x \<in> ranges_set v. unat x + 64 < 2 ^ 64)"

lemma fresh_ok_Nil [simp]: "fresh_ok []"
  by (simp add: fresh_ok_def ranges_wf_def separated_def)

lemma fresh_ok_after:
  assumes v: "fresh_ok v" and ok: "op_ok B S p"
  shows "fresh_ok (fresh_after p v)"
proof (cases p)
  case (AppStore a bs rsp)
  with v show ?thesis by simp
next
  case (AppFresh a sz)
  let ?r = "Range a (ucast sz)"
  have b: "sz \<noteq> 0" "unat a + unat sz + 64 \<le> 18446744073709551616" using ok AppFresh by auto
  then have nw: "no_wrap ?r" and nz: "(ucast sz :: u64) \<noteq> 0"
    by (simp_all add: no_wrap_def unat_ucast_u32 word_eq_iff_unat)
  have "unat x + 64 < 2 ^ 64" if "x \<in> range_set ?r" for x
    using that b(2) by (simp add: mem_range_set includes_point_nat [OF nw] unat_ucast_u32)
  then show ?thesis
    using v AppFresh rs.contents_add [OF _ nw] rs.invar_add [OF _ nw] ranges_insert_nonempty [OF _ nz]
    by (auto simp: fresh_ok_def)
next
  case (AppUnfresh a sz)
  let ?r = "Range a (ucast sz)"
  have nw: "no_wrap ?r" using ok AppUnfresh by simp
  show ?thesis
  proof (cases "sz = 0")
    case True
    then show ?thesis using v AppUnfresh by (simp add: ranges_remove_def)
  next
    case False
    then have nz: "(ucast sz :: u64) \<noteq> 0" by (simp add: word_eq_iff_unat unat_ucast_u32)
    obtain v' where v': "remove_loop ?r v = Inr v'" "ranges_wf v'" "ranges_set v' \<subseteq> ranges_set v"
      using remove_loop_correct [OF nw _, of v] kept_by_remove_subset [OF nw, of v] nz v
      by (fastforce simp: fresh_ok_def)
    then show ?thesis
      using v AppUnfresh nz remove_loop_nonempty [OF v'(1)] by (auto simp: fresh_ok_def ranges_remove_def)
  qed
qed

lemma fresh_ok_fold:
  "fresh_ok v \<Longrightarrow> \<forall>p \<in> set ops. op_ok B S p \<Longrightarrow> fresh_ok (fold fresh_after ops v)"
  by (induction ops arbitrary: v) (auto intro: fresh_ok_after)

section \<open>Flushing\<close>

definition flushing ::
  "addr \<Rightarrow> addr set \<Rightarrow> mem \<Rightarrow> addr set \<Rightarrow> undo_log_entry list \<Rightarrow> mem \<Rightarrow> u64 set \<Rightarrow> pmem \<Rightarrow> bool" where
  "flushing B A m0 F es m1 L Q \<longleftrightarrow>
     log_inv B A m0 F (length es) (length es) es Q \<and> cur Q = m1 \<and> (\<forall>l \<in> L. fv Q l = [m1])"

text \<open>A step that flushes the lines \<open>L'\<close> and changes nothing else.\<close>

abbreviation flushes ::
  "addr \<Rightarrow> addr set \<Rightarrow> mem \<Rightarrow> addr set \<Rightarrow> undo_log_entry list \<Rightarrow> mem \<Rightarrow> u64 set \<Rightarrow> u64 set \<Rightarrow> pmem \<Rightarrow> pmem \<Rightarrow> bool" where
  "flushes B A m0 F es m1 L L' P P' \<equiv>
     safe_run (crash_safe B A m0 F) P P' \<and> flushing B A m0 F es m1 (L \<union> L') P'"

lemma flushing_crash_safe: "flushing B A m0 F es m1 L Q \<Longrightarrow> crash_safe B A m0 F Q"
  unfolding flushing_def using log_inv_crash_safe by blast

lemma flushing_mono: "flushing B A m0 F es m1 L Q \<Longrightarrow> L' \<subseteq> L \<Longrightarrow> flushing B A m0 F es m1 L' Q"
  unfolding flushing_def by blast

lemma flush_step:
  assumes f: "flushing B A m0 F es m1 L Q"
  shows "flushes B A m0 F es m1 L {line a} Q (pmem_flush a Q)"
proof -
  have "flushing B A m0 F es m1 (L \<union> {line a}) (pmem_flush a Q)"
    using f log_inv_flush unfolding flushing_def by (auto simp: pmem_flush_def)
  moreover from this f have "safe_run (crash_safe B A m0 F) Q (pmem_flush a Q)"
    unfolding pmem_flush_def by (intro safe_run_step flushing_crash_safe)
  ultimately show ?thesis by blast
qed

lemma flushes_trans:
  "flushes B A m0 F es m1 L L1 P Q \<Longrightarrow> flushes B A m0 F es m1 (L \<union> L1) L2 Q R \<Longrightarrow>
   flushes B A m0 F es m1 L (L1 \<union> L2) P R"
  using safe_run_trans by (auto simp: Un_assoc)

lemma flushes_subset:
  "flushes B A m0 F es m1 L L1 P Q \<Longrightarrow> L2 \<subseteq> L1 \<Longrightarrow> flushes B A m0 F es m1 L L2 P Q"
  by (metis Un_mono flushing_mono subset_refl)

lemma flush_logged_correct:
  assumes f: "flushing B A m0 F es m1 L P" and i: "i \<le> length es"
  shows "flushes B A m0 F es m1 L (line ` addrs (take i es)) P (flush_logged B i P)"
  using i
proof (induction i)
  case 0
  then show ?case using f flushing_crash_safe by auto
next
  case (Suc i)
  let ?Q = "flush_logged B i P" and ?L = "line ` addrs (take i es)"
  have IH: "flushes B A m0 F es m1 L ?L P ?Q" using Suc by simp
  then have f1: "flushing B A m0 F es m1 (L \<union> ?L) ?Q" by blast
  have e: "entry_addr (ent B (cur ?Q) i) = entry_addr (es ! i)"
    using f1 Suc.prems log_invD(8) unfolding flushing_def by (metis Suc_le_eq)
  have "line ` addrs (take (Suc i) es) = ?L \<union> {line (entry_addr (es ! i))}"
    using Suc.prems by (auto simp: take_Suc_conv_app_nth Suc_le_eq)
  with flushes_trans [OF IH flush_step [OF f1, of "entry_addr (es ! i)"]] e show ?case
    by (simp add: Let_def)
qed

lemma flushes_none:
  assumes "flushing B A m0 F es m1 L P" and "\<not> p < lim"
  shows "flushes B A m0 F es m1 L {line x |x. p \<le> x \<and> x < lim} P P"
proof -
  have e: "{line x |x. p \<le> x \<and> x < lim} = {}" using assms(2) by auto
  show ?thesis unfolding e using assms(1) flushing_crash_safe by auto
qed

lemma flush_lines_correct:
  assumes "flushing B A m0 F es m1 L P" and "unat p mod 64 = 0"
    and "unat lim + 64 \<le> 18446744073709551616" and "unat lim \<le> unat p + 64 * c"
  shows "\<exists>P'. flush_lines p lim P = Some P' \<and>
           flushes B A m0 F es m1 L {line x |x. p \<le> x \<and> x < lim} P P'"
  using assms
proof (induction c arbitrary: p P L)
  case 0
  then have lim: "\<not> p < lim" by (simp add: word_less_nat_alt)
  then show ?case using flushes_none [OF 0(1) lim] by (subst flush_lines.simps) auto
next
  case (Suc c)
  show ?case
  proof (cases "p < lim")
    case False
    then show ?thesis using flushes_none [OF Suc.prems(1) False] by (subst flush_lines.simps) auto
  next
    case True
    have up: "unat (p + 64) = unat p + 64"
      using True Suc.prems(3) unat_add_of_nat [of p 64] by (simp add: word_less_nat_alt)
    note s1 = flush_step [OF Suc.prems(1), of p]
    have al: "unat (p + 64) mod 64 = 0" using up Suc.prems(2) by simp
    have lim: "unat lim \<le> unat (p + 64) + 64 * c" using up Suc.prems(4) by simp
    obtain P' where P': "flush_lines (p + 64) lim (pmem_flush p P) = Some P'"
      "flushes B A m0 F es m1 (L \<union> {line p}) {line x |x. p + 64 \<le> x \<and> x < lim} (pmem_flush p P) P'"
      using Suc.IH [OF conjunct2 [OF s1] al Suc.prems(3) lim] by blast
    have "{line x |x. p \<le> x \<and> x < lim} \<subseteq> {line p} \<union> {line x |x. p + 64 \<le> x \<and> x < lim}"
    proof
      fix l
      assume "l \<in> {line x |x. p \<le> x \<and> x < lim}"
      then obtain x where x: "l = line x" "p \<le> x" "x < lim" by blast
      show "l \<in> {line p} \<union> {line x |x. p + 64 \<le> x \<and> x < lim}"
      proof (cases "p + 64 \<le> x")
        case False
        then have "unat (x - p) < 64" using x(2) up by (simp add: word_le_nat_alt unat_sub_le)
        then show ?thesis using line_window [OF Suc.prems(2), of x] x(1) by simp
      qed (use x in blast)
    qed
    with flushes_subset [OF flushes_trans [OF s1 P'(2)]] P'(1) True show ?thesis
      by (subst flush_lines.simps) (simp add: CACHE_LINE_SIZE_B_def)
  qed
qed

lemma unat_line_start: "unat (a AND NOT 63 :: u64) = 64 * (unat a div 64)"
proof -
  have m: "(63 :: u64) = mask 6" by (simp add: mask_eq_exp_minus_1)
  have e: "a AND NOT 63 = push_bit 6 (drop_bit 6 a)"
    unfolding m by (rule bit_word_eqI) (auto simp: bit_simps)
  have "unat (a AND NOT 63) = push_bit 6 (unat (drop_bit 6 a)) mod 2 ^ 64"
    unfolding e unsigned_push_bit_eq take_bit_eq_mod by simp
  also have "\<dots> = 64 * (unat a div 64) mod 2 ^ 64"
    using unat_line [of a] by (simp add: line_def push_bit_eq_mult mult.commute)
  also have "\<dots> = 64 * (unat a div 64)"
    using le_less_trans [OF times_div_less_eq_dividend [of 64 "unat a"] unat_u64_less [of a]]
    by (intro mod_less) simp
  finally show ?thesis .
qed

lemma flush_region_correct:
  assumes f: "flushing B A m0 F es m1 L P" and nw: "no_wrap (Range a sz)" and sz: "sz \<noteq> 0"
    and b: "\<And>x. x \<in> range_set (Range a sz) \<Longrightarrow> unat x + 64 < 18446744073709551616"
  shows "\<exists>P'. flush_region a sz (Some P) = Some P' \<and>
           flushes B A m0 F es m1 L (line ` range_set (Range a sz)) P P'"
proof -
  let ?p = "(a AND NOT 63) + 64" and ?lim = "a + sz"
  have pos: "0 < unat sz" using sz by (simp add: unat_gt_0)
  have n: "unat a + unat sz < 18446744073709551616" using nw by (simp add: no_wrap_def)
  have lim: "unat ?lim = unat a + unat sz" using n by (rule unat_add_no_wrap)
  define q where "q = unat a div 64"
  have q: "64 * q \<le> unat a" "unat a < 64 * q + 64"
    using div_eq_iff_nat [of 64 "unat a" q] by (auto simp: q_def)
  have "unat (a + of_nat (unat sz - 1)) = unat a + (unat sz - 1)"
    using n pos by (intro unat_add_of_nat) simp
  then have "unat a + unat sz + 63 < 18446744073709551616"
    using b [of "a + of_nat (unat sz - 1)"] pos by (simp add: mem_range_set includes_point_nat [OF nw])
  then have top: "unat ?lim + 64 \<le> 18446744073709551616" using lim by simp
  have up: "unat ?p = 64 * q + 64"
    using unat_add_of_nat [of "a AND NOT 63" 64, unfolded unat_line_start q_def [symmetric]] q(1) top lim pos
    by simp
  have al: "unat ?p mod 64 = 0" unfolding up by simp
  note s1 = flush_step [OF f, of a]
  have "unat ?lim \<le> unat ?p + 64 * unat ?lim" by simp
  from flush_lines_correct [OF conjunct2 [OF s1] al top this]
  obtain P' where P': "flush_lines ?p ?lim (pmem_flush a P) = Some P'"
    "flushes B A m0 F es m1 (L \<union> {line a}) {line x |x. ?p \<le> x \<and> x < ?lim} (pmem_flush a P) P'"
    by blast
  have "line ` range_set (Range a sz) \<subseteq> {line a} \<union> {line x |x. ?p \<le> x \<and> x < ?lim}"
  proof
    fix l
    assume "l \<in> line ` range_set (Range a sz)"
    then obtain x where x: "l = line x" "unat a \<le> unat x" "unat x < unat a + unat sz"
      by (auto simp: mem_range_set includes_point_nat [OF nw])
    show "l \<in> {line a} \<union> {line x |x. ?p \<le> x \<and> x < ?lim}"
    proof (cases "?p \<le> x")
      case True
      then show ?thesis using x lim by (auto simp: word_less_nat_alt)
    next
      case False
      then have "unat x < 64 * q + 64" "64 * q \<le> unat x" using up x(2) q(1) by (auto simp: word_le_nat_alt)
      then have "unat x div 64 = q" by (simp add: div_eq_iff_nat)
      then show ?thesis using x(1) by (simp add: line_eq_iff q_def)
    qed
  qed
  with flushes_subset [OF flushes_trans [OF s1 P'(2)]] P'(1) show ?thesis
    by (simp add: flush_region_def CACHE_LINE_SIZE_B_def)
qed

lemma flush_fresh_correct:
  assumes "flushing B A m0 F es m1 L P" and "fresh_ok v"
  shows "\<exists>P'. ranges_foreach flush_region v (Some P) = Some P' \<and>
           flushes B A m0 F es m1 L (line ` ranges_set v) P P'"
proof -
  have w: "\<forall>r \<in> set v. no_wrap r \<and> range_size r \<noteq> 0"
    and b: "\<forall>x \<in> ranges_set v. unat x + 64 < 18446744073709551616"
    using assms(2) by (auto simp: fresh_ok_def ranges_wf_def)
  show ?thesis
    using assms(1) w b
  proof (induction v arbitrary: P L)
    case Nil
    then show ?case using flushing_crash_safe by (auto simp: ranges_foreach_def)
  next
    case (Cons r v)
    have nw: "no_wrap (Range (range_start r) (range_size r))" and nz: "range_size r \<noteq> 0"
      and b1: "\<And>x. x \<in> range_set (Range (range_start r) (range_size r)) \<Longrightarrow> unat x + 64 < 18446744073709551616"
      using Cons.prems by auto
    obtain Q where Q: "flush_region (range_start r) (range_size r) (Some P) = Some Q"
      "flushes B A m0 F es m1 L (line ` range_set r) P Q"
      using flush_region_correct [OF Cons.prems(1) nw nz b1] by auto
    obtain P' where P': "ranges_foreach flush_region v (Some Q) = Some P'"
      "flushes B A m0 F es m1 (L \<union> line ` range_set r) (line ` ranges_set v) Q P'"
      using Cons.IH [OF conjunct2 [OF Q(2)]] Cons.prems by auto
    from flushes_trans [OF Q(2) P'(2)] P'(1) Q(1) show ?case
      by (simp add: ranges_foreach_def image_Un)
  qed
qed

section \<open>The commit record\<close>

definition committing ::
  "addr \<Rightarrow> addr set \<Rightarrow> mem \<Rightarrow> addr set \<Rightarrow> addr set \<Rightarrow> mem \<Rightarrow> u64 \<Rightarrow> undo_log_entry list \<Rightarrow> pmem \<Rightarrow> bool" where
  "committing B A m0 F D m1 w es P \<longleftrightarrow>
     log_base_ok B \<and> wf_pm P \<and> Suc (length es) < UNDO_NUM_ENTRIES \<and>
     (\<forall>e \<in> set es. good_entry B A e) \<and> saved m0 F es \<and>
     (\<forall>j < length es. \<forall>m \<in> set (pv P (eline B j)). ent B m j = es ! j) \<and>
     (\<forall>m \<in> set (pv P (eline B (length es))). entry_addr (ent B m (length es)) = 0 \<and>
        commit_tail (ent B m (length es)) \<in> {0, w}) \<and>
     (\<forall>j. length es < j \<longrightarrow> j < UNDO_NUM_ENTRIES \<longrightarrow> (\<forall>m \<in> set (pv P (eline B j)). is_null (ent B m j))) \<and>
     (\<forall>x. \<not> in_log B x \<longrightarrow> x \<in> D \<longrightarrow> (\<forall>m \<in> set (pv P (line x)). m x = m1 x)) \<and>
     (\<forall>x. \<not> in_log B x \<longrightarrow> x \<notin> F \<longrightarrow>
        (\<forall>m \<in> set (pv P (line x)). m x = m0 x \<or> undo_block x \<in> addrs es))"

text \<open>The first fence: every byte that matters is persistent.\<close>

lemma committing_start:
  assumes f: "flushing B A m0 F es m1 (line ` addrs es \<union> line ` X) P" and room: "Suc (length es) < UNDO_NUM_ENTRIES"
  shows "committing B A m0 F (- F \<union> X) m1 w es (pmem_drain P)"
    and "crash_safe B A m0 F (pmem_drain P)"
proof -
  let ?P = "pmem_drain P"
  have inv0: "log_inv B A m0 F (length es) (length es) es P" and c: "cur P = m1"
    using f by (auto simp: flushing_def)
  note inv = log_inv_fence [OF inv0]
  then show "crash_safe B A m0 F ?P" by (rule log_inv_crash_safe)
  have "\<forall>m \<in> set (pv ?P (line x)). m x = m1 x" if x: "\<not> in_log B x" "x \<in> - F \<union> X" for x
  proof (cases "line x \<in> line ` addrs es \<union> line ` X")
    case True
    then show ?thesis using f by (auto simp: flushing_def pmem_drain_def)
  next
    case False
    then have F: "x \<notin> F" and "undo_block x \<notin> addrs es"
      using x(2) block_same_line [of "undo_block x" x] by (auto simp: image_iff)
    then have m: "m x = m0 x" if "m \<in> set (pv P (line x))" for m
      using inv0 x(1) that unfolding log_inv_def by auto
    have "cur P \<in> set (pv P (line x))" "set (fv P (line x)) \<subseteq> set (pv P (line x))"
      using log_invD(2) [OF inv0] by (auto simp: wf_pm_def)
    then have "m x = cur P x" if "m \<in> set (fv P (line x))" for m
      using that m [of m] m [of "cur P"] by auto
    then show ?thesis unfolding c [symmetric] pmem_drain_def by simp
  qed
  then show "committing B A m0 F (- F \<union> X) m1 w es ?P"
    using inv room unfolding committing_def log_inv_def by (auto simp: is_null_def)
qed

lemma committing_current:
  assumes "committing B A m0 F D m1 w es P"
  shows "log_base_ok B" "Suc (length es) < UNDO_NUM_ENTRIES"
    "\<And>j. j < length es \<Longrightarrow> ent B (cur P) j = es ! j"
    "entry_addr (ent B (cur P) (length es)) = 0" "commit_tail (ent B (cur P) (length es)) \<in> {0, w}"
    "\<And>j. length es < j \<Longrightarrow> j < UNDO_NUM_ENTRIES \<Longrightarrow> is_null (ent B (cur P) j)"
    "\<And>x. \<not> in_log B x \<Longrightarrow> x \<in> D \<Longrightarrow> cur P x = m1 x"
    "\<And>x. \<not> in_log B x \<Longrightarrow> x \<notin> F \<Longrightarrow> cur P x = m0 x \<or> undo_block x \<in> addrs es"
proof -
  have "cur P \<in> set (pv P l)" for l using assms by (auto simp: committing_def wf_pm_def)
  with assms show "log_base_ok B" "Suc (length es) < UNDO_NUM_ENTRIES"
    "\<And>j. j < length es \<Longrightarrow> ent B (cur P) j = es ! j"
    "entry_addr (ent B (cur P) (length es)) = 0" "commit_tail (ent B (cur P) (length es)) \<in> {0, w}"
    "\<And>j. length es < j \<Longrightarrow> j < UNDO_NUM_ENTRIES \<Longrightarrow> is_null (ent B (cur P) j)"
    "\<And>x. \<not> in_log B x \<Longrightarrow> x \<in> D \<Longrightarrow> cur P x = m1 x"
    "\<And>x. \<not> in_log B x \<Longrightarrow> x \<notin> F \<Longrightarrow> cur P x = m0 x \<or> undo_block x \<in> addrs es"
    unfolding committing_def by blast+
qed

lemma committing_store:
  assumes c: "committing B A m0 F D m1 w es P" and k: "kk + length bs \<le> 64"
    and new: "entry_addr (ent B (wr (entry_at B (length es) + of_nat kk) bs (cur P)) (length es)) = 0"
      "commit_tail (ent B (wr (entry_at B (length es) + of_nat kk) bs (cur P)) (length es)) \<in> {0, w}"
  shows "committing B A m0 F D m1 w es (pm_step (Store (entry_at B (length es) + of_nat kk) bs) P)"
proof -
  let ?a = "entry_at B (length es) + of_nat kk"
  let ?P = "pm_step (Store ?a bs) P" and ?m = "wr ?a bs (cur P)"
  note cur = committing_current [OF c]
  have w: "wf_pm ?P" using c by (intro wf_pm_step) (simp add: committing_def)
  have len: "length es < UNDO_NUM_ENTRIES" using cur(2) by simp
  have other: "ent B ?m j = ent B (cur P) j" if "j < UNDO_NUM_ENTRIES" "j \<noteq> length es" for j
    using that by (intro ent_wr_other [OF cur(1) len _ _ k]) auto
  have byte: "?m x = cur P x" if "\<not> in_log B x" for x
    by (rule wr_entry_off_log_byte [OF cur(1) len k that])
  have "\<forall>m \<in> set (pv ?P (eline B j)). ent B m j = es ! j" if "j < length es" for j
    using that c cur(3) [OF that] other [of j] len by (simp add: committing_def)
  moreover have "\<forall>m \<in> set (pv ?P (eline B (length es))). entry_addr (ent B m (length es)) = 0 \<and>
        commit_tail (ent B m (length es)) \<in> {0, w}"
    using c new by (simp add: committing_def)
  moreover have "\<forall>m \<in> set (pv ?P (eline B j)). is_null (ent B m j)" if "length es < j" "j < UNDO_NUM_ENTRIES" for j
    using that c cur(6) [OF that] other [of j] by (simp add: committing_def)
  moreover have "\<forall>m \<in> set (pv ?P (line x)). m x = m1 x" if "\<not> in_log B x" "x \<in> D" for x
    using that c cur(7) [OF that] byte [OF that(1)] by (simp add: committing_def)
  moreover have "\<forall>m \<in> set (pv ?P (line x)). m x = m0 x \<or> undo_block x \<in> addrs es"
    if "\<not> in_log B x" "x \<notin> F" for x
    using that c cur(8) [OF that] byte [OF that(1)] by (auto simp: committing_def)
  ultimately show ?thesis using c w unfolding committing_def by blast
qed

lemma committing_flush: "committing B A m0 F D m1 w es P \<Longrightarrow> committing B A m0 F D m1 w es (pmem_flush a P)"
  using wf_pm_step [of P "Flush a"] unfolding committing_def pmem_flush_def by auto

lemma committing_fence:
  assumes c: "committing B A m0 F D m1 w es P"
  shows "committing B A m0 F D m1 w es (pmem_drain P)"
proof -
  have w: "wf_pm P" using c by (simp add: committing_def)
  then have sub: "\<And>l m. m \<in> set (fv P l) \<Longrightarrow> m \<in> set (pv P l)" by (auto simp: wf_pm_def)
  have "m x = m0 x \<or> undo_block x \<in> addrs es"
    if "\<not> in_log B x" "x \<notin> F" "m \<in> set (fv P (line x))" for m x
    using c that(1,2) sub [OF that(3)] unfolding committing_def by blast
  then show ?thesis
    using c sub wf_pm_step [OF w, of Fence] by (simp add: committing_def pmem_drain_def)
qed

definition committed :: "addr \<Rightarrow> u64 \<Rightarrow> nat \<Rightarrow> pmem \<Rightarrow> bool" where
  "committed B w n P \<longleftrightarrow> (\<forall>m \<in> set (pv P (eline B n)). commit_tail (ent B m n) = w)"

lemma write_commit_record_correct:
  assumes c: "committing B A m0 F D m1 w es P" and w: "w = word_of_int (tail + 1)"
  defines "P' \<equiv> pmem_drain (write_commit_record (entry_at B (length es)) tail P)"
  shows "safe_run (committing B A m0 F D m1 w es) P P'" and "committed B w (length es) P'"
proof -
  let ?e = "entry_at B (length es)" and ?I = "committing B A m0 F D m1 w es"
  note cur = committing_current [OF c]
  define P1 where "P1 = store_u64 (?e + 32) 0 P"
  define P2 where "P2 = store_u64 (?e + 40) w P1"
  have P': "P' = pmem_drain (pmem_flush ?e P2)"
    by (simp add: P'_def P2_def P1_def write_commit_record_def w)
  have e1: "ent B (wr (?e + 32) (le_bytes 8 (0 :: u64)) (cur P)) (length es) = (ent B (cur P) (length es))\<lparr>entry_addr := 0\<rparr>"
    by (rule read_entry_wr_addr)
  have i1: "?I P1"
    unfolding P1_def store_u64_def using committing_store [OF c, of 32 "le_bytes 8 (0 :: u64)"] cur(5) e1
    by (simp del: le_bytes.simps le_bytes_zero)
  have e2: "ent B (wr (?e + 40) (le_bytes 8 w) (cur P1)) (length es) = (ent B (cur P1) (length es))\<lparr>commit_tail := w\<rparr>"
    by (rule read_entry_wr_tail)
  have i2: "?I P2"
    unfolding P2_def store_u64_def
    using committing_store [OF i1, of 40 "le_bytes 8 w"] committing_current(4) [OF i1] e2
    by (simp del: le_bytes.simps le_bytes_zero)
  note i3 = committing_flush [OF i2, of ?e]
  note i4 = committing_fence [OF i3]
  have "safe_run ?I P P1" using c i1 unfolding P1_def store_u64_def by (rule safe_run_step)
  also have "safe_run ?I P1 P2" using i1 i2 unfolding P2_def store_u64_def by (rule safe_run_step)
  also have "safe_run ?I P2 (pmem_flush ?e P2)" using i2 i3 unfolding pmem_flush_def by (rule safe_run_step)
  also have "safe_run ?I (pmem_flush ?e P2) P'" using i3 i4 unfolding P' pmem_drain_def by (rule safe_run_step)
  finally show "safe_run ?I P P'" .
  have "commit_tail (ent B (cur P2) (length es)) = w"
    unfolding P2_def cur_store_u64 e2 by simp
  then show "committed B w (length es) P'"
    by (simp add: committed_def P' pmem_drain_def pmem_flush_def)
qed

lemma undo_log_commit_correct:
  fixes tail
  assumes st: "log_state dedup B A m0 F (length es) es ul" and fr: "fresh_ok (fresh_regions ul)"
    and room: "Suc (length es) < UNDO_NUM_ENTRIES"
  defines "D \<equiv> - F \<union> ranges_set (fresh_regions ul)" and "m1 \<equiv> cur (ul_mem ul)"
    and "w \<equiv> word_of_int (tail + 1)"
  shows "\<exists>ul'. undo_log_commit tail ul = Some (Inr ul') \<and>
           safe_run (\<lambda>Q. crash_safe B A m0 F Q \<or> committing B A m0 F D m1 w es Q) (ul_mem ul) (ul_mem ul') \<and>
           committing B A m0 F D m1 w es (ul_mem ul') \<and> committed B w (length es) (ul_mem ul') \<and>
           ul_log ul' = B \<and> ul_len ul' = Suc (length es)"
proof -
  let ?I = "\<lambda>Q. crash_safe B A m0 F Q \<or> committing B A m0 F D m1 w es Q"
  let ?P0 = "flush_logged B (length es) (ul_mem ul)"
  have B: "ul_log ul = B" "ul_len ul = length es" using st by (auto simp: log_state_def)
  have f0: "flushing B A m0 F es m1 {} (ul_mem ul)" using st by (simp add: flushing_def log_state_def m1_def)
  have s1: "flushes B A m0 F es m1 {} (line ` addrs es) (ul_mem ul) ?P0"
    using flush_logged_correct [OF f0 le_refl] by simp
  obtain P1 where P1: "ranges_foreach flush_region (fresh_regions ul) (Some ?P0) = Some P1"
    "flushes B A m0 F es m1 ({} \<union> line ` addrs es) (line ` ranges_set (fresh_regions ul)) ?P0 P1"
    using flush_fresh_correct [OF conjunct2 [OF s1] fr] by blast
  have f2: "flushes B A m0 F es m1 {} (line ` addrs es \<union> line ` ranges_set (fresh_regions ul)) (ul_mem ul) P1"
    by (rule flushes_trans [OF s1 P1(2)])
  then have f3: "flushing B A m0 F es m1 (line ` addrs es \<union> line ` ranges_set (fresh_regions ul)) P1" by simp
  have c: "committing B A m0 F D m1 w es (pmem_drain P1)" and cs: "crash_safe B A m0 F (pmem_drain P1)"
    unfolding D_def by (rule committing_start [OF f3 room])+
  let ?P2 = "pmem_drain (write_commit_record (entry_at B (length es)) tail (pmem_drain P1))"
  have w: "safe_run (committing B A m0 F D m1 w es) (pmem_drain P1) ?P2" "committed B w (length es) ?P2"
    using write_commit_record_correct [OF c] by (auto simp: w_def)
  have "safe_run ?I (ul_mem ul) P1" using f2 by (auto elim: safe_run_mono)
  also have "safe_run ?I P1 (pmem_drain P1)"
    unfolding pmem_drain_def by (rule safe_run_step) (use flushing_crash_safe [OF f3] cs in \<open>auto simp: pmem_drain_def\<close>)
  also have "safe_run ?I (pmem_drain P1) ?P2" using w(1) by (rule safe_run_mono) simp
  finally have "safe_run ?I (ul_mem ul) ?P2" .
  moreover have "undo_log_commit tail ul = Some (Inr (ul\<lparr>ul_mem := ?P2, ul_len := Suc (length es)\<rparr>))"
    using B P1(1) room by (simp add: undo_log_commit_def Let_def)
  ultimately show ?thesis using B w(2) safe_run_end [OF w(1)] by auto
qed

end
