(* ===== verification/Undo_Crash.thy ===== *)
theory Undo_Crash
  imports Undo_Commit
begin

text \<open>
  Crash consistency of the undo log, the theorems: an epoch that has not committed is rolled
  back by recovery, whenever the power fails; recovery may itself be interrupted and repeated;
  a commit is atomic and durable; the cleanup after it prepares the next epoch.\<close>

section \<open>Rolling back\<close>

abbreviation recovered_log :: "addr \<Rightarrow> nat \<Rightarrow> addr_table \<Rightarrow> mem \<Rightarrow> undo_log" where
  "recovered_log B k t m \<equiv>
     \<lparr>ul_log = B, ul_len = k, logged_addrs_hash = t, fresh_regions = [], ul_mem = boot m\<rparr>"

lemma recovering_init:
  assumes r: "recovering B A m0 F J es (boot img)" and hm: "dedup \<longrightarrow> hm < 0xFFFFFFFF"
  obtains t where "undo_log_init dedup B hm h0 True (boot img) = Some (Inr (recovered_log B (length es) t img))"
proof -
  have ok: "log_base_ok B" using r by (simp add: recovering_def)
  have "\<not> is_null (ent B img j) \<and> (commit_tail (ent B img j) > 0 \<longrightarrow> entry_addr (ent B img j) = 0)"
    if "j < length es" for j
    using recovering_current(1) [OF r that] that r good_entry_not_null [of B A "es ! j"]
    by (auto simp: recovering_def good_entry_def)
  moreover have "is_null (ent B img (length es))"
    using recovering_current(2) [OF r, of "length es"] r by (simp add: recovering_def)
  ultimately show thesis using undo_log_init_recovered [OF ok hm, of "length es" img h0] that by fastforce
qed

lemma recovering_rolls_back:
  fixes t dedup
  assumes r: "recovering B A m0 F J es (boot img)"
    and mgr: "mrm_recover mops (mrm_clear_new_region_table mops mgr) = Some (Inr mgr')"
    and man: "\<forall>a \<in> A. mrm_does_manage mops mgr' a"
  defines "ul \<equiv> recovered_log B (length es) t img"
  shows "\<exists>P ul'. undo_apply (mrm_does_manage mops mgr') B (length es) (boot img) = Inr P \<and>
           safe_run (recovering B A m0 F J es) (boot img) (pmem_drain P) \<and>
           undo_log_recover dedup mops ul mgr = Some (Inr (-1, ul', mgr')) \<and>
           ul' = undo_log_clear dedup (ul\<lparr>ul_mem := pmem_drain P\<rparr>) \<and>
           clearing B m0 F J (pmem_drain P)"
proof -
  have ok: "log_base_ok B" and len: "length es < UNDO_NUM_ENTRIES"
    and good: "\<forall>e \<in> set es. good_entry B A e" using r by (auto simp: recovering_def)
  have "\<forall>e \<in> set es. mrm_does_manage mops mgr' (entry_addr e)"
    using good man by (auto simp: good_entry_def)
  then obtain P where P: "undo_apply (mrm_does_manage mops mgr') B (length es) (boot img) = Inr P"
    "safe_run (recovering B A m0 F J es) (boot img) P" "settled B P" "cur P = undo_mem es img"
    using undo_apply_correct [OF r settled_boot le_refl] unfolding take_all [OF le_refl] cur_boot by blast
  let ?ul = "ul\<lparr>ul_mem := pmem_drain P\<rparr>"
  note rP = safe_run_end [OF P(2)]
  have "safe_run (recovering B A m0 F J es) P (pmem_drain P)"
    using rP recovering_fence [OF rP] unfolding pmem_drain_def by (rule safe_run_step)
  with P(2) have sr: "safe_run (recovering B A m0 F J es) (boot img) (pmem_drain P)" by (rule safe_run_trans)
  have val: "cur P x = m0 x" if "\<not> in_log B x" "x \<notin> F" for x
    unfolding P(4) using r that recovering_current(3) [OF r, of x]
    by (intro undo_mem_saved [OF good]) (auto simp: recovering_def)
  have last: "\<not> (0 < ul_len ul \<and> commit_tail (last_entry ul) > 0)"
    using recovering_current(1) [OF r, of "length es - 1"] good nth_mem [of "length es - 1" es]
    by (auto simp: ul_def last_entry_def good_entry_def)
  have "undo_log_recover dedup mops ul mgr = Some (Inr (-1, undo_log_clear dedup ?ul, mgr'))"
    using last mgr P(1) by (auto simp: undo_log_recover_def ul_def)
  moreover have "clearing B m0 F J (pmem_drain P)"
    using val P(3) safe_run_end [OF sr] by (auto simp: clearing_def recovering_def settled_def pmem_drain_def)
  ultimately show ?thesis using P(1) sr by blast
qed

text \<open>A byte that is in memory and would survive a failure now.\<close>

definition durably :: "pmem \<Rightarrow> addr \<Rightarrow> byte \<Rightarrow> bool" where
  "durably P x b \<longleftrightarrow> cur P x = b \<and> (\<forall>m \<in> set (pv P (line x)). m x = b)"

text \<open>Restarting on an image: \<open>undo_log_init\<close> in recovery mode, then \<open>undo_log_recover\<close>.\<close>

definition restart ::
  "bool \<Rightarrow> addr \<Rightarrow> u64 \<Rightarrow> addr_table \<Rightarrow> 'm mrm_ops \<Rightarrow> 'm \<Rightarrow> mem \<Rightarrow> (int \<times> undo_log \<times> 'm) result option" where
  "restart dedup B hm h0 mops mgr img =
     bind_ro (undo_log_init dedup B hm h0 True (boot img)) (\<lambda>ul. undo_log_recover dedup mops ul mgr)"

definition rolled_back ::
  "addr \<Rightarrow> mem \<Rightarrow> addr set \<Rightarrow> 'm \<Rightarrow> (int \<times> undo_log \<times> 'm) result option \<Rightarrow> bool" where
  "rolled_back B m0 F mgr' r \<longleftrightarrow>
     (\<exists>ul. r = Some (Inr (-1, ul, mgr')) \<and>
        (\<forall>x. \<not> in_log B x \<longrightarrow> x \<notin> F \<longrightarrow> durably (ul_mem ul) x (m0 x)))"

lemma clear_durably:
  assumes "log_base_ok B" and "ul_log ul = B" and "ul_len ul \<le> UNDO_NUM_ENTRIES"
    and "clearing B m1 F J (ul_mem ul)" and "J \<subseteq> {ul_len ul..<UNDO_NUM_ENTRIES}"
    and "\<not> in_log B x" and "x \<notin> F"
  shows "durably (ul_mem (undo_log_clear dedup ul)) x (m1 x)"
  using undo_log_clear_correct [OF assms(1-3,5,4), of dedup] assms(6,7)
    clearing_current(2) [of B m1 F _ "ul_mem (undo_log_clear dedup ul)" x]
  unfolding durably_def by (metis clearing_def)

lemma recovering_restart:
  assumes r: "recovering B A m0 F J es (boot img)" and hm: "dedup \<longrightarrow> hm < 0xFFFFFFFF"
    and mgr: "mrm_recover mops (mrm_clear_new_region_table mops mgr) = Some (Inr mgr')"
    and man: "\<forall>a \<in> A. mrm_does_manage mops mgr' a"
  shows "rolled_back B m0 F mgr' (restart dedup B hm h0 mops mgr img)"
proof -
  obtain t where i: "undo_log_init dedup B hm h0 True (boot img) = Some (Inr (recovered_log B (length es) t img))"
    by (rule recovering_init [OF r hm])
  let ?ul = "recovered_log B (length es) t img"
  obtain P where P: "undo_log_recover dedup mops ?ul mgr = Some (Inr (-1, undo_log_clear dedup (?ul\<lparr>ul_mem := pmem_drain P\<rparr>), mgr'))"
    "clearing B m0 F J (pmem_drain P)"
    using recovering_rolls_back [OF r mgr man] by blast
  have "durably (ul_mem (undo_log_clear dedup (?ul\<lparr>ul_mem := pmem_drain P\<rparr>))) x (m0 x)"
    if "\<not> in_log B x" "x \<notin> F" for x
    by (rule clear_durably [where J = J]) (use r P(2) that in \<open>auto simp: recovering_def\<close>)
  then show ?thesis using i P(1) unfolding rolled_back_def restart_def by auto
qed

text \<open>
  C4. An epoch that has not committed leaves no trace. Take any sequence of instrumented stores,
  mappings and unmappings that starts with an empty log over the memory \<open>m0\<close>. The code returns;
  and wherever the power fails meanwhile, between or inside the log's own stores and flushes
  or the application's stores, and whichever cache lines reached memory, restarting finds the log
  well formed, returns -1 and leaves, durably, every byte of \<open>m0\<close> outside the log, the
  stack and the regions mapped in the epoch.
\<close>

theorem uncommitted_epoch_rolls_back:
  assumes "log_state dedup B A m0 (unprotected S ops) 0 [] ul"
    and "\<forall>p \<in> set ops. op_ok B S p" and "tracked A skip (fresh_regions ul) ops"
    and "sum_list (map op_blocks ops) < UNDO_NUM_ENTRIES" and "dedup \<longrightarrow> hm < 0xFFFFFFFF"
    and "mrm_recover mops (mrm_clear_new_region_table mops mgr) = Some (Inr mgr')"
    and "\<forall>a \<in> A. mrm_does_manage mops mgr' a"
  shows "\<exists>ul' flag'. run_app dedup skip ops (ul, flag) = Some (Inr (ul', flag')) \<and>
           (\<forall>img. crash_during (ul_mem ul) (ul_mem ul') img \<longrightarrow>
              rolled_back B m0 (unprotected S ops) mgr' (restart dedup B hm h0 mops mgr img))"
proof -
  have "length ([] :: undo_log_entry list) = 0" by simp
  with assms(1) have st: "log_state dedup B A m0 (unprotected S ops) (length ([] :: undo_log_entry list)) [] ul" by simp
  obtain ul' flag' where r: "run_app dedup skip ops (ul, flag) = Some (Inr (ul', flag'))"
    "safe_run (crash_safe B A m0 (unprotected S ops)) (ul_mem ul) (ul_mem ul')"
    using run_app_correct [OF st assms(2,3) _ subset_refl] assms(4) by fastforce
  have "rolled_back B m0 (unprotected S ops) mgr' (restart dedup B hm h0 mops mgr img)"
    if c: "crash_during (ul_mem ul) (ul_mem ul') img" for img
  proof -
    obtain Q where "crash_safe B A m0 (unprotected S ops) Q" "crash_image Q img"
      by (rule safe_run_crash [OF r(2) c])
    then show ?thesis using crash_safe_image recovering_restart [OF _ assms(5-7)] by blast
  qed
  with r(1) show ?thesis by blast
qed

text \<open>A machine that starts on a memory whose log area is zero has an empty log.\<close>

lemma log_state_boot:
  assumes "log_base_ok B" and "\<And>x. in_log B x \<Longrightarrow> m x = 0"
  shows "log_state dedup B A m F 0 [] (recovered_log B 0 (\<lambda>_. 0) m)"
proof -
  have "is_null (ent B m j)" if "j < UNDO_NUM_ENTRIES" for j
    using assms eline_in_log [OF assms(1) that] by (intro ent_zero [OF assms(1) that]) auto
  then show ?thesis
    using assms(1) by (simp add: log_state_def log_inv_def UNDO_NUM_ENTRIES_def ah.known_none
        ranges_wf_def separated_def)
qed

abbreviation demo_mops :: "unit mrm_ops" where
  "demo_mops \<equiv> \<lparr>mrm_commit_new_region_table = id, mrm_clear_new_region_table = id, mrm_recover = (\<lambda>m. Some (Inr m)),
     mrm_does_manage = (\<lambda>_ _. True)\<rparr>"

abbreviation demo_ops :: "app_op list" where
  "demo_ops \<equiv> [AppFresh 0x80000000 4096, AppStore 0x40000000 [1, 2, 3] 0x7000000000000100,
     AppStore 0x80000010 [9] 0x7000000000000100]"

lemma demo_log: "log_base_ok 65536"
  by (simp add: log_base_ok_def UNDO_NUM_ENTRIES_def)

lemma off_log_above:
  assumes ok: "log_base_ok B" and a: "unat B + 64 * UNDO_NUM_ENTRIES \<le> unat a"
    and n: "unat a + n \<le> 18446744073709551616"
  shows "off_log B a n"
  using a window_iff [OF n] unfolding off_log_def in_log_nat [OF ok] by auto

lemma demo_ops_ok:
  "\<forall>p \<in> set demo_ops. op_ok 65536 0x7000000000000000 p"
  "tracked UNIV True v demo_ops"
  "sum_list (map op_blocks demo_ops) < UNDO_NUM_ENTRIES"
  by (auto simp: window_ok_def store_tracked_def blocks_of_def UNDO_NUM_ENTRIES_def
      intro!: off_log_above [OF demo_log])

abbreviation demo_ul :: undo_log where
  "demo_ul \<equiv> recovered_log 65536 0 (\<lambda>_. 0) (\<lambda>_. 0)"

abbreviation demo_free :: "addr set" where
  "demo_free \<equiv> unprotected 0x7000000000000000 demo_ops"

lemma demo_state: "log_state dedup 65536 UNIV (\<lambda>_. 0) demo_free 0 [] demo_ul"
  by (rule log_state_boot [OF demo_log]) simp

lemma crash_at_end: "safe_run I P P' \<Longrightarrow> wf_pm P' \<Longrightarrow> crash_during P P' (cur P')"
  unfolding crash_during_def safe_run_def
  by (elim exE conjE) (rule exI [of _ "length (trace P')"], simp add: crash_image_cur)

text \<open>
  The power fails after the last store, when everything has reached memory: the image holds the uncommitted
  store to \<open>0x40000000\<close>, and so the log holds its block.
\<close>

lemma demo_crash:
  obtains ul' flag' where "run_app True True demo_ops (demo_ul, False) = Some (Inr (ul', flag'))"
    and "crash_during (ul_mem demo_ul) (ul_mem ul') (cur (ul_mem ul'))"
    and "crash_safe 65536 UNIV (\<lambda>_. 0) demo_free (ul_mem ul')"
    and "wf_pm (ul_mem ul')" and "cur (ul_mem ul') 0x40000000 = 1"
proof -
  have st: "log_state True 65536 UNIV (\<lambda>_. 0) demo_free (length ([] :: undo_log_entry list)) [] demo_ul"
    using demo_state by simp
  have "tracked UNIV True (fresh_regions demo_ul) demo_ops" by (rule demo_ops_ok(2))
  from run_app_correct [OF st demo_ops_ok(1) this _ subset_refl, of False] demo_ops_ok(3) obtain ul' flag' where
    r: "run_app True True demo_ops (demo_ul, False) = Some (Inr (ul', flag'))"
    and sr: "safe_run (crash_safe 65536 UNIV (\<lambda>_. 0) demo_free) (ul_mem demo_ul) (ul_mem ul')"
    and e: "\<forall>x. \<not> in_log 65536 x \<longrightarrow> cur (ul_mem ul') x = app_effect demo_ops (\<lambda>_. 0) x"
    by auto
  have cs: "crash_safe 65536 UNIV (\<lambda>_. 0) demo_free (ul_mem ul')" by (rule safe_run_end [OF sr])
  then have wf: "wf_pm (ul_mem ul')" unfolding crash_safe_def using log_invD(2) by blast
  have "cur (ul_mem ul') 0x40000000 = app_effect demo_ops (\<lambda>_. 0) 0x40000000"
    by (rule e [rule_format]) (simp add: in_log_def UNDO_NUM_ENTRIES_def)
  also have "\<dots> = 1" by (simp add: wr_def)
  finally show thesis using that r crash_at_end [OF sr wf] cs wf by blast
qed

theorem uncommitted_epoch_rolls_back_witness:
  "\<exists>ul' flag' img. run_app True True demo_ops (demo_ul, False) = Some (Inr (ul', flag')) \<and>
     crash_during (ul_mem demo_ul) (ul_mem ul') img \<and> img 0x40000000 = 1 \<and>
     rolled_back 65536 (\<lambda>_. 0) demo_free () (restart True 65536 0 (\<lambda>_. 0) demo_mops () img)"
proof -
  obtain ul' flag' where r: "run_app True True demo_ops (demo_ul, False) = Some (Inr (ul', flag'))"
    and c: "crash_during (ul_mem demo_ul) (ul_mem ul') (cur (ul_mem ul'))" "cur (ul_mem ul') 0x40000000 = 1"
    by (rule demo_crash)
  have "tracked UNIV True (fresh_regions demo_ul) demo_ops" by (rule demo_ops_ok(2))
  from uncommitted_epoch_rolls_back [OF demo_state demo_ops_ok(1) this demo_ops_ok(3),
      of True 0 demo_mops "()" "()" False "\<lambda>_. 0"]
  show ?thesis using r c by auto
qed

section \<open>Committing\<close>

definition rolled_forward ::
  "addr \<Rightarrow> mem \<Rightarrow> addr set \<Rightarrow> int \<Rightarrow> 'm \<Rightarrow> (int \<times> undo_log \<times> 'm) result option \<Rightarrow> bool" where
  "rolled_forward B m1 D tail mgr' r \<longleftrightarrow>
     (\<exists>ul. r = Some (Inr (tail, ul, mgr')) \<and>
        (\<forall>x. \<not> in_log B x \<longrightarrow> x \<in> D \<longrightarrow> durably (ul_mem ul) x (m1 x)))"

lemma tail_roundtrip:
  assumes "0 \<le> tail" and "tail < 2 ^ 31"
  shows "(word_of_int (tail + 1) :: u64) > 0"
    and "sint (ucast ((word_of_int (tail + 1) :: u64) - 1) :: u32) = tail"
proof -
  have "uint (word_of_int (tail + 1) :: u64) = tail + 1"
    using assms by (simp add: uint_word_of_int del: of_int_add)
  then show "(word_of_int (tail + 1) :: u64) > 0"
    using assms(1) by (simp add: word_less_def)
  have "(word_of_int (tail + 1) :: u64) - 1 = word_of_int tail" by simp
  then have "ucast ((word_of_int (tail + 1) :: u64) - 1) = (word_of_int tail :: u32)"
    using assms by (simp add: ucast_eq uint_word_of_int)
  then show "sint (ucast ((word_of_int (tail + 1) :: u64) - 1) :: u32) = tail"
    using assms by (simp add: signed_of_int signed_take_bit_int_eq_self)
qed

lemma committing_image:
  assumes c: "committing B A m0 F D m1 w es P" and img: "crash_image P img"
  shows "\<And>j. j < length es \<Longrightarrow> ent B img j = es ! j"
    and "entry_addr (ent B img (length es)) = 0" and "commit_tail (ent B img (length es)) \<in> {0, w}"
    and "\<And>j. length es < j \<Longrightarrow> j < UNDO_NUM_ENTRIES \<Longrightarrow> is_null (ent B img j)"
    and "\<And>x. \<not> in_log B x \<Longrightarrow> x \<in> D \<Longrightarrow> img x = m1 x"
    and "\<And>x. \<not> in_log B x \<Longrightarrow> x \<notin> F \<Longrightarrow> img x = m0 x \<or> undo_block x \<in> addrs es"
    and "committed B w (length es) P \<Longrightarrow> commit_tail (ent B img (length es)) = w"
proof -
  have ok: "log_base_ok B" and len: "length es < UNDO_NUM_ENTRIES" using committing_current [OF c] by auto
  show "ent B img j = es ! j" if "j < length es" for j
    using crash_image_ent [OF ok _ img, of j] c that len unfolding committing_def by (metis order.strict_trans)
  show "entry_addr (ent B img (length es)) = 0" "commit_tail (ent B img (length es)) \<in> {0, w}"
    using crash_image_ent [OF ok len img] c unfolding committing_def by metis+
  show "is_null (ent B img j)" if "length es < j" "j < UNDO_NUM_ENTRIES" for j
    using crash_image_ent [OF ok that(2) img] c that unfolding committing_def by metis
  show "img x = m1 x" if "\<not> in_log B x" "x \<in> D" for x
    using crash_image_byte [OF img, of x] c that unfolding committing_def by metis
  show "img x = m0 x \<or> undo_block x \<in> addrs es" if "\<not> in_log B x" "x \<notin> F" for x
    using crash_image_byte [OF img, of x] c that unfolding committing_def by metis
  show "commit_tail (ent B img (length es)) = w" if "committed B w (length es) P"
    using crash_image_ent [OF ok len img] that unfolding committed_def by metis
qed

lemma committing_not_yet:
  assumes c: "committing B A m0 F D m1 w es P" and img: "crash_image P img"
    and z: "commit_tail (ent B img (length es)) = 0"
  shows "recovering B A m0 F {length es..<UNDO_NUM_ENTRIES} es (boot img)"
proof -
  note i = committing_image [OF c img]
  have "is_null (ent B img j)" if "length es \<le> j" "j < UNDO_NUM_ENTRIES" for j
    using i(2,4) z that by (cases "j = length es") (auto simp: is_null_def)
  then show ?thesis using i(1,6) c by (auto simp: recovering_def committing_def)
qed

lemma committed_restart:
  assumes c: "committing B A m0 F D m1 w es P" and img: "crash_image P img"
    and z: "commit_tail (ent B img (length es)) = w"
    and t: "w = word_of_int (tail + 1)" "0 \<le> tail" "tail < 2 ^ 31" and hm: "dedup \<longrightarrow> hm < 0xFFFFFFFF"
    and mgr: "mrm_recover mops (mrm_commit_new_region_table mops mgr) = Some (Inr mgr')"
  shows "\<exists>ul. restart dedup B hm h0 mops mgr img = Some (Inr (tail, ul, mgr')) \<and>
           log_state dedup B A' m1 (- D) 0 [] ul \<and>
           (\<forall>x. \<not> in_log B x \<longrightarrow> x \<in> D \<longrightarrow> durably (ul_mem ul) x (m1 x))"
proof -
  note i = committing_image [OF c img] and cur = committing_current [OF c]
  have w0: "w > 0" using tail_roundtrip(1) [OF t(2,3)] t(1) by simp
  let ?n = "Suc (length es)"
  have "\<not> is_null (ent B img j) \<and> (commit_tail (ent B img j) > 0 \<longrightarrow> entry_addr (ent B img j) = 0)"
    if "j < ?n" for j
  proof (cases "j = length es")
    case True
    then show ?thesis using i(2) z w0 by (auto simp: is_null_def)
  next
    case False
    then have "j < length es" using that by simp
    with i(1) [OF this] c show ?thesis by (auto simp: committing_def good_entry_def is_null_def)
  qed
  moreover have "is_null (ent B img ?n)" using i(4) cur(2) by simp
  ultimately obtain tb where init: "undo_log_init dedup B hm h0 True (boot img) = Some (Inr (recovered_log B ?n tb img))"
    using undo_log_init_recovered [OF cur(1) hm, of ?n img h0] by blast
  let ?ul = "recovered_log B ?n tb img"
  have "last_entry ?ul = ent B img (length es)" by (simp add: last_entry_def)
  then have "undo_log_recover dedup mops ?ul mgr = Some (Inr (tail, undo_log_clear dedup ?ul, mgr'))"
    using z w0 mgr tail_roundtrip(2) [OF t(2,3)] t(1) by (simp add: undo_log_recover_def)
  then have r: "restart dedup B hm h0 mops mgr img = Some (Inr (tail, undo_log_clear dedup ?ul, mgr'))"
    using init by (simp add: restart_def)
  have cl: "clearing B m1 (- D) {ul_len ?ul..<UNDO_NUM_ENTRIES} (ul_mem ?ul)"
    using i(4,5) by (simp add: clearing_def)
  have "durably (ul_mem (undo_log_clear dedup ?ul)) x (m1 x)" if "\<not> in_log B x" "x \<in> D" for x
    by (rule clear_durably [OF cur(1) _ _ cl]) (use that cur(2) in auto)
  moreover have "log_state dedup B A' m1 (- D) 0 [] (undo_log_clear dedup ?ul)"
    by (rule log_state_clear [OF cur(1) _ _ cl]) (use cur(2) in auto)
  ultimately show ?thesis using r by blast
qed

lemma rolled_forward_cong:
  "rolled_forward B m D tail mgr r \<Longrightarrow> (\<And>x. \<not> in_log B x \<Longrightarrow> m x = m' x) \<Longrightarrow> rolled_forward B m' D tail mgr r"
  unfolding rolled_forward_def by fastforce

lemma log_state_cong:
  "log_state dedup B A m F 0 [] ul \<Longrightarrow> (\<And>x. \<not> in_log B x \<Longrightarrow> m x = m' x) \<Longrightarrow> log_state dedup B A m' F 0 [] ul"
  unfolding log_state_def log_inv_def by simp

lemma committing_restart:
  assumes c: "committing B A m0 F D m1 w es P" and img: "crash_image P img"
    and t: "w = word_of_int (tail + 1)" "0 \<le> tail" "tail < 2 ^ 31" and hm: "dedup \<longrightarrow> hm < 0xFFFFFFFF"
    and mgr: "mrm_recover mops (mrm_clear_new_region_table mops mgr) = Some (Inr mgr1)"
      "\<forall>a \<in> A. mrm_does_manage mops mgr1 a"
      "mrm_recover mops (mrm_commit_new_region_table mops mgr) = Some (Inr mgr2)"
  shows "rolled_back B m0 F mgr1 (restart dedup B hm h0 mops mgr img) \<or>
         rolled_forward B m1 D tail mgr2 (restart dedup B hm h0 mops mgr img)"
    and "committed B w (length es) P \<Longrightarrow> rolled_forward B m1 D tail mgr2 (restart dedup B hm h0 mops mgr img)"
proof -
  have fwd: "rolled_forward B m1 D tail mgr2 (restart dedup B hm h0 mops mgr img)"
    if "commit_tail (ent B img (length es)) = w"
    using committed_restart [OF c img that t hm mgr(3)] unfolding rolled_forward_def by blast
  show "rolled_forward B m1 D tail mgr2 (restart dedup B hm h0 mops mgr img)"
    if "committed B w (length es) P" using fwd committing_image(7) [OF c img that] by blast
  show "rolled_back B m0 F mgr1 (restart dedup B hm h0 mops mgr img) \<or>
      rolled_forward B m1 D tail mgr2 (restart dedup B hm h0 mops mgr img)"
    using fwd committing_image(3) [OF c img] recovering_restart [OF committing_not_yet [OF c img] hm mgr(1,2)]
    by blast
qed

text \<open>One epoch and its commit, from an empty log.\<close>

lemma epoch_commit:
  assumes st: "log_state dedup B A m0 (unprotected S ops) 0 [] ul" and fr: "fresh_ok (fresh_regions ul)"
    and ops: "\<forall>p \<in> set ops. op_ok B S p" "tracked A skip (fresh_regions ul) ops"
    and room: "Suc (sum_list (map op_blocks ops)) < UNDO_NUM_ENTRIES"
  defines "F \<equiv> unprotected S ops"
  defines "D \<equiv> - F \<union> ranges_set (fold fresh_after ops (fresh_regions ul))"
  obtains es ul' flag' ul'' where
    "run_app dedup skip ops (ul, flag) = Some (Inr (ul', flag'))"
    "undo_log_commit tail ul' = Some (Inr ul'')"
    "\<And>x. \<not> in_log B x \<Longrightarrow> cur (ul_mem ul') x = app_effect ops (cur (ul_mem ul)) x"
    "safe_run (\<lambda>Q. crash_safe B A m0 F Q \<or>
       committing B A m0 F D (cur (ul_mem ul')) (word_of_int (tail + 1)) es Q) (ul_mem ul') (ul_mem ul'')"
    "committing B A m0 F D (cur (ul_mem ul')) (word_of_int (tail + 1)) es (ul_mem ul'')"
    "committed B (word_of_int (tail + 1)) (length es) (ul_mem ul'')"
    "ul_log ul'' = B" "ul_len ul'' = Suc (length es)"
proof -
  have st0: "log_state dedup B A m0 F (length ([] :: undo_log_entry list)) [] ul" using st by (simp add: F_def)
  obtain es ul' flag' where r: "run_app dedup skip ops (ul, flag) = Some (Inr (ul', flag'))"
    "log_state dedup B A m0 F (length es) es ul'" "length es \<le> sum_list (map op_blocks ops)"
    "fresh_regions ul' = fold fresh_after ops (fresh_regions ul)"
    "\<And>x. \<not> in_log B x \<Longrightarrow> cur (ul_mem ul') x = app_effect ops (cur (ul_mem ul)) x"
    using run_app_correct [OF st0 ops] room by (fastforce simp: F_def)
  have fr': "fresh_ok (fresh_regions ul')" unfolding r(4) by (rule fresh_ok_fold [OF fr ops(1)])
  have "Suc (length es) < UNDO_NUM_ENTRIES" using r(3) room by simp
  from undo_log_commit_correct [OF r(2) fr' this, of tail, unfolded r(4), folded D_def] r(1,5) that
  show thesis by blast
qed

text \<open>
  C5. Commit is atomic and durable. After any epoch that starts with an empty log, \<open>undo_log_commit\<close>
  returns. A failure anywhere inside it leaves a state from which restarting either rolls back to
  the memory \<open>m0\<close> of the previous commit with tail -1, or returns the new tail with every byte
  of the epoch's result durable, fresh regions included; and once it has returned, every failure
  leads to the second outcome.
\<close>

theorem commit_atomic_and_durable:
  assumes "log_state dedup B A m0 (unprotected S ops) 0 [] ul" and "fresh_ok (fresh_regions ul)"
    and "\<forall>p \<in> set ops. op_ok B S p" and "tracked A skip (fresh_regions ul) ops"
    and "Suc (sum_list (map op_blocks ops)) < UNDO_NUM_ENTRIES"
    and "0 \<le> tail" and "tail < 2 ^ 31" and "dedup \<longrightarrow> hm < 0xFFFFFFFF"
    and "mrm_recover mops (mrm_clear_new_region_table mops mgr) = Some (Inr mgr1)"
    and "\<forall>a \<in> A. mrm_does_manage mops mgr1 a"
    and "mrm_recover mops (mrm_commit_new_region_table mops mgr) = Some (Inr mgr2)"
  shows "\<exists>ul' flag' ul''. run_app dedup skip ops (ul, flag) = Some (Inr (ul', flag')) \<and>
     undo_log_commit tail ul' = Some (Inr ul'') \<and>
     (\<forall>img. crash_during (ul_mem ul') (ul_mem ul'') img \<longrightarrow>
        rolled_back B m0 (unprotected S ops) mgr1 (restart dedup B hm h0 mops mgr img) \<or>
        rolled_forward B (app_effect ops (cur (ul_mem ul)))
          (- unprotected S ops \<union> ranges_set (fold fresh_after ops (fresh_regions ul))) tail mgr2
          (restart dedup B hm h0 mops mgr img)) \<and>
     (\<forall>img. crash_image (ul_mem ul'') img \<longrightarrow>
        rolled_forward B (app_effect ops (cur (ul_mem ul)))
          (- unprotected S ops \<union> ranges_set (fold fresh_after ops (fresh_regions ul))) tail mgr2
          (restart dedup B hm h0 mops mgr img))"
proof (rule epoch_commit [OF assms(1-5), where flag = flag and tail = tail])
  fix es ul' flag' ul''
  assume r: "run_app dedup skip ops (ul, flag) = Some (Inr (ul', flag'))"
    "undo_log_commit tail ul' = Some (Inr ul'')"
    and m1: "\<And>x. \<not> in_log B x \<Longrightarrow> cur (ul_mem ul') x = app_effect ops (cur (ul_mem ul)) x"
    and sr: "safe_run (\<lambda>Q. crash_safe B A m0 (unprotected S ops) Q \<or>
       committing B A m0 (unprotected S ops) (- unprotected S ops \<union> ranges_set (fold fresh_after ops (fresh_regions ul)))
         (cur (ul_mem ul')) (word_of_int (tail + 1)) es Q) (ul_mem ul') (ul_mem ul'')"
    and c: "committing B A m0 (unprotected S ops) (- unprotected S ops \<union> ranges_set (fold fresh_after ops (fresh_regions ul)))
         (cur (ul_mem ul')) (word_of_int (tail + 1)) es (ul_mem ul'')"
    and fin: "committed B (word_of_int (tail + 1)) (length es) (ul_mem ul'')"
  have fwd: "rolled_forward B (app_effect ops (cur (ul_mem ul))) X tail mgr2 z"
    if "rolled_forward B (cur (ul_mem ul')) X tail mgr2 z" for X z
    using that m1 by (rule rolled_forward_cong)
  note restart = committing_restart [OF _ _ refl assms(6-11)]
  have "rolled_back B m0 (unprotected S ops) mgr1 (restart dedup B hm h0 mops mgr img) \<or>
      rolled_forward B (app_effect ops (cur (ul_mem ul)))
        (- unprotected S ops \<union> ranges_set (fold fresh_after ops (fresh_regions ul))) tail mgr2
        (restart dedup B hm h0 mops mgr img)" if "crash_during (ul_mem ul') (ul_mem ul'') img" for img
  proof (rule safe_run_crash [OF sr that])
    fix Q
    assume "crash_safe B A m0 (unprotected S ops) Q \<or>
       committing B A m0 (unprotected S ops) (- unprotected S ops \<union> ranges_set (fold fresh_after ops (fresh_regions ul)))
         (cur (ul_mem ul')) (word_of_int (tail + 1)) es Q" and i: "crash_image Q img"
    then show ?thesis
      using crash_safe_image [OF _ i] recovering_restart [OF _ assms(8-10)] restart(1) [OF _ i] fwd by blast
  qed
  moreover have "rolled_forward B (app_effect ops (cur (ul_mem ul)))
      (- unprotected S ops \<union> ranges_set (fold fresh_after ops (fresh_regions ul))) tail mgr2
      (restart dedup B hm h0 mops mgr img)" if "crash_image (ul_mem ul'') img" for img
    by (rule fwd [OF restart(2) [OF c that fin(1)]])
  ultimately show ?thesis using r by blast
qed

lemma demo_fresh: "fresh_ok (fresh_regions demo_ul)" "tracked UNIV True (fresh_regions demo_ul) demo_ops"
  "Suc (sum_list (map op_blocks demo_ops)) < UNDO_NUM_ENTRIES"
  using demo_ops_ok(2) by (simp_all add: blocks_of_def UNDO_NUM_ENTRIES_def)

theorem commit_atomic_and_durable_witness:
  "\<exists>ul' flag' ul''. run_app True True demo_ops (demo_ul, False) = Some (Inr (ul', flag')) \<and>
     undo_log_commit 41 ul' = Some (Inr ul'') \<and>
     (\<forall>img. crash_image (ul_mem ul'') img \<longrightarrow>
        rolled_forward 65536 (app_effect demo_ops (\<lambda>_. 0))
          (- unprotected 0x7000000000000000 demo_ops \<union> ranges_set (fold fresh_after demo_ops [])) 41 ()
          (restart True 65536 0 (\<lambda>_. 0) demo_mops () img))"
  using commit_atomic_and_durable [OF demo_state demo_fresh(1) demo_ops_ok(1) demo_fresh(2,3),
      of 41 True 0 demo_mops "()" "()" "()" False "\<lambda>_. 0"]
  by auto

lemma cleanup_ready:
  assumes c: "committing B A m0 F D m1 w es (ul_mem ul)" and f: "committed B w (length es) (ul_mem ul)"
    and w: "w > 0" and ul: "ul_log ul = B" "ul_len ul = Suc (length es)"
  shows "undo_log_post_commit_cleanup dedup ul = Inr (undo_log_clear dedup ul)"
    and "log_state dedup B A' m1 (- D) 0 [] (undo_log_clear dedup ul)"
proof -
  note cur = committing_current [OF c]
  have wf: "wf_pm (ul_mem ul)" using c by (simp add: committing_def)
  then have "cur (ul_mem ul) \<in> set (pv (ul_mem ul) l)" for l by (auto simp: wf_pm_def)
  then have "commit_tail (last_entry ul) = w"
    using f ul by (simp add: committed_def last_entry_def)
  then show "undo_log_post_commit_cleanup dedup ul = Inr (undo_log_clear dedup ul)"
    using w ul by (simp add: undo_log_post_commit_cleanup_def)
  have "m x = m1 x" if "\<not> in_log B x" "x \<in> D" "m \<in> set (fv (ul_mem ul) (line x))" for m x
  proof -
    have "m \<in> set (pv (ul_mem ul) (line x))" using that(3) wf by (auto simp: wf_pm_def)
    with that(1,2) c show ?thesis unfolding committing_def by blast
  qed
  then have "clearing B m1 (- D) {ul_len ul..<UNDO_NUM_ENTRIES} (ul_mem ul)"
    using c wf ul(2) by (simp add: clearing_def committing_def Suc_le_eq)
  then show "log_state dedup B A' m1 (- D) 0 [] (undo_log_clear dedup ul)"
    using cur(2) ul by (intro log_state_clear [OF cur(1) ul(1)]) auto
qed

text \<open>
  C9. The cleanup after a commit closes the epoch: \<open>undo_log_post_commit_cleanup\<close> passes its
  assertions and leaves the empty log over the epoch's result from which the theorems above start,
  so epochs can be chained.
\<close>

theorem cleanup_starts_next_epoch:
  assumes "log_state dedup B A m0 (unprotected S ops) 0 [] ul" and "fresh_ok (fresh_regions ul)"
    and "\<forall>p \<in> set ops. op_ok B S p" and "tracked A skip (fresh_regions ul) ops"
    and "Suc (sum_list (map op_blocks ops)) < UNDO_NUM_ENTRIES" and "0 \<le> tail" and "tail < 2 ^ 31"
  shows "\<exists>ul' flag' ul'' ul3. run_app dedup skip ops (ul, flag) = Some (Inr (ul', flag')) \<and>
     undo_log_commit tail ul' = Some (Inr ul'') \<and> undo_log_post_commit_cleanup dedup ul'' = Inr ul3 \<and>
     fresh_regions ul3 = [] \<and>
     (\<forall>A'. log_state dedup B A' (app_effect ops (cur (ul_mem ul)))
        (unprotected S ops - ranges_set (fold fresh_after ops (fresh_regions ul))) 0 [] ul3)"
proof (rule epoch_commit [OF assms(1-5), where flag = flag and tail = tail])
  fix es ul' flag' ul''
  let ?F = "unprotected S ops" and ?w = "word_of_int (tail + 1) :: u64"
  let ?D = "- ?F \<union> ranges_set (fold fresh_after ops (fresh_regions ul))"
  assume r: "run_app dedup skip ops (ul, flag) = Some (Inr (ul', flag'))" "undo_log_commit tail ul' = Some (Inr ul'')"
    and m1: "\<And>x. \<not> in_log B x \<Longrightarrow> cur (ul_mem ul') x = app_effect ops (cur (ul_mem ul)) x"
    and c: "committing B A m0 ?F ?D (cur (ul_mem ul')) ?w es (ul_mem ul'')"
    and f: "committed B ?w (length es) (ul_mem ul'')" and ul: "ul_log ul'' = B" "ul_len ul'' = Suc (length es)"
  have e: "- ?D = ?F - ranges_set (fold fresh_after ops (fresh_regions ul))" by auto
  note cl = cleanup_ready [OF c f tail_roundtrip(1) [OF assms(6,7)] ul, of dedup, unfolded e]
  have "log_state dedup B A' (app_effect ops (cur (ul_mem ul)))
      (?F - ranges_set (fold fresh_after ops (fresh_regions ul))) 0 [] (undo_log_clear dedup ul'')" for A'
    using cl(2) m1 by (rule log_state_cong)
  then show ?thesis using r cl(1) by (fastforce simp: undo_log_clear_def ranges_clear_def)
qed

theorem cleanup_starts_next_epoch_witness:
  "\<exists>ul' flag' ul'' ul3. run_app False True demo_ops (demo_ul, False) = Some (Inr (ul', flag')) \<and>
     undo_log_commit 41 ul' = Some (Inr ul'') \<and> undo_log_post_commit_cleanup False ul'' = Inr ul3 \<and>
     fresh_regions ul3 = [] \<and> log_state False 65536 {} (app_effect demo_ops (\<lambda>_. 0))
        (unprotected 0x7000000000000000 demo_ops - ranges_set (fold fresh_after demo_ops [])) 0 [] ul3"
  using cleanup_starts_next_epoch [OF demo_state demo_fresh(1) demo_ops_ok(1) demo_fresh(2,3), of 41 False False]
  by auto

text \<open>
  C10. Recovery may be repeated. If the power fails again while \<open>undo_log_recover\<close> puts the saved
  blocks back, up to and including its fence before \<open>undo_log_clear\<close>, the next restart rolls
  back to the same memory \<open>m0\<close>.
\<close>

theorem undo_phase_restartable:
  assumes "log_state dedup B A m0 (unprotected S ops) 0 [] ul"
    and "\<forall>p \<in> set ops. op_ok B S p" and "tracked A skip (fresh_regions ul) ops"
    and "sum_list (map op_blocks ops) < UNDO_NUM_ENTRIES" and "dedup \<longrightarrow> hm < 0xFFFFFFFF"
    and "mrm_recover mops (mrm_clear_new_region_table mops mgr) = Some (Inr mgr')"
    and "\<forall>a \<in> A. mrm_does_manage mops mgr' a"
    and "run_app dedup skip ops (ul, flag) = Some (Inr (ul', flag'))"
    and "crash_during (ul_mem ul) (ul_mem ul') img"
    and "undo_log_init dedup B hm h0 True (boot img) = Some (Inr ul1)"
    and "undo_apply (mrm_does_manage mops mgr') B (ul_len ul1) (ul_mem ul1) = Inr P"
    and "crash_during (ul_mem ul1) (pmem_drain P) img2"
  shows "rolled_back B m0 (unprotected S ops) mgr' (restart dedup B hm h0 mops mgr img2)"
proof -
  have st: "log_state dedup B A m0 (unprotected S ops) (length ([] :: undo_log_entry list)) [] ul"
    using assms(1) by simp
  have sr: "safe_run (crash_safe B A m0 (unprotected S ops)) (ul_mem ul) (ul_mem ul')"
    using run_app_correct [OF st assms(2,3) _ subset_refl, of flag] assms(4,8) by auto
  obtain Q where "crash_safe B A m0 (unprotected S ops) Q" "crash_image Q img"
    by (rule safe_run_crash [OF sr assms(9)])
  then obtain J es where r: "recovering B A m0 (unprotected S ops) J es (boot img)"
    using crash_safe_image by blast
  obtain t where ul1: "ul1 = recovered_log B (length es) t img"
    using recovering_init [OF r assms(5)] assms(10) by (metis option.inject sum.inject(2))
  have "safe_run (recovering B A m0 (unprotected S ops) J es) (boot img) (pmem_drain P)"
    using recovering_rolls_back [OF r assms(6,7), of dedup t] assms(11) ul1 by auto
  then obtain Q2 where "recovering B A m0 (unprotected S ops) J es Q2" "crash_image Q2 img2"
    by (rule safe_run_crash) (use assms(12) ul1 in auto)
  then have "recovering B A m0 (unprotected S ops) J es (boot img2)" by (rule recovering_image)
  then show ?thesis by (rule recovering_restart [OF _ assms(5-7)])
qed

theorem undo_phase_restartable_witness:
  "\<exists>ul' flag' img ul1 P. run_app True True demo_ops (demo_ul, False) = Some (Inr (ul', flag')) \<and>
     crash_during (ul_mem demo_ul) (ul_mem ul') img \<and> img 0x40000000 = 1 \<and>
     undo_log_init True 65536 0 (\<lambda>_. 0) True (boot img) = Some (Inr ul1) \<and> 0 < ul_len ul1 \<and>
     undo_apply (mrm_does_manage demo_mops ()) 65536 (ul_len ul1) (ul_mem ul1) = Inr P \<and>
     crash_during (ul_mem ul1) (pmem_drain P) (cur (pmem_drain P)) \<and>
     rolled_back 65536 (\<lambda>_. 0) demo_free () (restart True 65536 0 (\<lambda>_. 0) demo_mops () (cur (pmem_drain P)))"
proof -
  obtain ul' flag' where r: "run_app True True demo_ops (demo_ul, False) = Some (Inr (ul', flag'))"
    and c: "crash_during (ul_mem demo_ul) (ul_mem ul') (cur (ul_mem ul'))"
    and cs: "crash_safe 65536 UNIV (\<lambda>_. 0) demo_free (ul_mem ul')" "wf_pm (ul_mem ul')" and one: "cur (ul_mem ul') 0x40000000 = 1"
    by (rule demo_crash)
  let ?img = "cur (ul_mem ul')"
  obtain J es where rec: "recovering 65536 UNIV (\<lambda>_. 0) demo_free J es (boot ?img)"
    using crash_safe_image [OF cs(1) crash_image_cur [OF cs(2)]] by blast
  have "\<not> in_log 65536 0x40000000" "0x40000000 \<notin> demo_free"
    by (simp_all add: in_log_def UNDO_NUM_ENTRIES_def unprotected_def mem_range_set includes_point_def)
  with rec one have "undo_block 0x40000000 \<in> addrs es" unfolding recovering_def by auto
  then have ne: "0 < length es" by (cases es) auto
  obtain t where i: "undo_log_init True 65536 0 (\<lambda>_. 0) True (boot ?img) = Some (Inr (recovered_log 65536 (length es) t ?img))"
    by (rule recovering_init [OF rec, of True 0 "\<lambda>_. 0"]) simp_all
  let ?ul = "recovered_log 65536 (length es) t ?img"
  obtain P where P: "undo_apply (mrm_does_manage demo_mops ()) 65536 (length es) (boot ?img) = Inr P"
    "safe_run (recovering 65536 UNIV (\<lambda>_. 0) demo_free J es) (boot ?img) (pmem_drain P)"
    using recovering_rolls_back [OF rec, of demo_mops "()" "()"] by auto
  have "wf_pm (pmem_drain P)" using safe_run_end [OF P(2)] by (simp add: recovering_def)
  from crash_at_end [OF P(2) this] have c2: "crash_during (ul_mem ?ul) (pmem_drain P) (cur (pmem_drain P))" by simp
  have "rolled_back 65536 (\<lambda>_. 0) demo_free () (restart True 65536 0 (\<lambda>_. 0) demo_mops () (cur (pmem_drain P)))"
    by (rule undo_phase_restartable [OF demo_state demo_ops_ok(1) demo_fresh(2) demo_ops_ok(3) _ _ _ r c i _ c2])
      (use P(1) in simp_all)
  with r c i P(1) c2 ne one show ?thesis
    by (intro exI [of _ ul'] exI [of _ flag'] exI [of _ ?img] exI [of _ ?ul] exI [of _ P]) simp
qed

end
