(* ===== verification/Undo_Holes.thy ===== *)
theory Undo_Holes
  imports Undo_Crash
begin

text \<open>
  Three executions that the crash consistency of theory Undo_Crash does not cover, all proved from
  the same definitions. Entries written in one \<open>undo_log_record\<close> reach memory in any order, and
  \<open>undo_log_recover\<close> clears only the prefix it scanned; an entry that stays behind later makes
  \<open>undo_log_recover\<close> fail its own assertion. And the non-temporal stores of
  \<open>undo_log_clear\<close> are not ordered, so a failure during the cleanup may lose the commit record
  before the entries it guards. And \<open>ranges::remove\<close> forgets mappings that an unmapping does not touch, so that
  \<open>undo_log_commit\<close> does not flush what was stored there.
\<close>

section \<open>Steps without a fence\<close>

text \<open>Until a fence, everything that a line could hold it may still hold.\<close>

lemma pv_write_entry: "m \<in> set (pv P l) \<Longrightarrow> m \<in> set (pv (write_entry e p P) l)"
proof -
  assume m: "m \<in> set (pv P l)"
  have "m \<in> set (pv (store_bytes a bs P) l)" for a bs
    using m by (induction bs arbitrary: a P) auto
  then show ?thesis by (simp add: write_entry_def pmem_flush_def store_u64_def)
qed

lemma run_write_entry: "\<exists>es. write_entry e p P = pm_run es P"
proof -
  have s: "\<exists>es. store_bytes a bs Q = pm_run es Q" for a bs Q
  proof (induction bs arbitrary: a Q)
    case Nil
    then show ?case by (intro exI [of _ "[]"]) simp
  next
    case (Cons b bs)
    obtain es where "store_bytes (a + 1) bs (pm_step (Store a [b]) Q) = pm_run es (pm_step (Store a [b]) Q)"
      using Cons by blast
    then show ?case by (intro exI [of _ "Store a [b] # es"]) simp
  qed
  obtain es where "store_bytes e (rd (cur P) p UNDO_BLK_SIZE_B) P = pm_run es P" using s by blast
  then show ?thesis
    by (intro exI [of _ "es @ [Store (e + 32) (le_bytes 8 p), Store (e + 40) (le_bytes 8 (0 :: u64)), Flush e]"])
       (simp add: write_entry_def pmem_flush_def store_u64_def del: le_bytes.simps le_bytes_zero)
qed

lemma crash_during_prefix:
  assumes "Q = pm_run es P" and "P' = pm_run fs Q" and "crash_image Q img"
  shows "crash_during P P' img"
  unfolding crash_during_def using assms(3) by (intro exI [of _ "length es"]) (simp add: assms(1,2))

section \<open>A stale entry\<close>

abbreviation stale_first :: addr where "stale_first \<equiv> 0x40000000"
abbreviation stale_second :: addr where "stale_second \<equiv> 0x40000020"

text \<open>Both entries of a store that straddles two blocks are written, none is fenced.\<close>

definition two_entries :: pmem where
  "two_entries = write_entry (entry_at 65536 1) stale_second
     (write_entry (entry_at 65536 0) stale_first (boot (\<lambda>_. 0)))"

lemma run_two_entries:
  obtains es where "two_entries = pm_run es (boot (\<lambda>_. 0))"
proof -
  obtain es where e: "write_entry (entry_at 65536 0) stale_first (boot (\<lambda>_. 0)) = pm_run es (boot (\<lambda>_. 0))"
    using run_write_entry by blast
  obtain fs where "write_entry (entry_at 65536 1) stale_second (pm_run es (boot (\<lambda>_. 0))) =
      pm_run fs (pm_run es (boot (\<lambda>_. 0)))"
    using run_write_entry by blast
  then have "two_entries = pm_run (es @ fs) (boot (\<lambda>_. 0))" by (simp add: two_entries_def e)
  then show thesis by (rule that)
qed

text \<open>Only the second of them reaches memory.\<close>

definition stale_img :: mem where
  "stale_img = (\<lambda>x. if line x = eline 65536 1 then cur two_entries x else 0)"

lemma log_size: "0 < UNDO_NUM_ENTRIES" "1 < UNDO_NUM_ENTRIES" "2 < UNDO_NUM_ENTRIES"
  by (simp_all add: UNDO_NUM_ENTRIES_def)

lemma two_entries_inv:
  "\<exists>e0 e1. log_inv 65536 UNIV (\<lambda>_. 0) {} 0 2 [e0, e1] two_entries \<and> entry_addr e1 = stale_second"
proof -
  have ok: "\<not> in_log 65536 stale_first" "\<not> in_log 65536 stale_second"
    unfolding in_log_nat [OF demo_log] by (simp_all add: UNDO_NUM_ENTRIES_def)
  have al: "undo_block stale_first = stale_first" "undo_block stale_second = stale_second"
    by (simp_all add: undo_block_def)
  have nz: "stale_first \<noteq> 0" "stale_second \<noteq> 0" by simp_all
  have room: "Suc (length ([] :: undo_log_entry list)) < UNDO_NUM_ENTRIES"
    "Suc (length [e]) < UNDO_NUM_ENTRIES" for e :: undo_log_entry
    by (simp_all add: UNDO_NUM_ENTRIES_def)
  have "log_inv 65536 UNIV (\<lambda>_. 0) {} 0 (length ([] :: undo_log_entry list)) [] (boot (\<lambda>_. 0))"
    using log_state_boot [OF demo_log, of "\<lambda>_. 0" False UNIV "{}"] by (simp add: log_state_def)
  from write_entry_correct(1) [OF this room(1) nz(1) al(1) ok(1) UNIV_I]
  obtain e0 where e0: "log_inv 65536 UNIV (\<lambda>_. 0) {} 0 (length [e0]) [e0]
      (write_entry (entry_at 65536 0) stale_first (boot (\<lambda>_. 0)))" by auto
  from write_entry_correct(1) [OF this room(2) nz(2) al(2) ok(2) UNIV_I]
  have "log_inv 65536 UNIV (\<lambda>_. 0) {} 0 2 [e0, \<lparr>blk = rd (cur (write_entry (entry_at 65536 0) stale_first
      (boot (\<lambda>_. 0)))) stale_second 32, entry_addr = stale_second, commit_tail = 0\<rparr>] two_entries"
    by (simp add: two_entries_def numeral_2_eq_2)
  then show ?thesis by (intro exI conjI) (assumption, rule undo_log_entry.select_convs(2))
qed

lemma stale_entries:
  "is_null (ent 65536 stale_img 0)" "is_null (ent 65536 stale_img 2)"
  "entry_addr (ent 65536 stale_img 1) = stale_second" "commit_tail (ent 65536 stale_img 1) = 0"
  "length (blk (ent 65536 stale_img 1)) = 32"
proof -
  obtain e0 e1 where inv: "log_inv 65536 UNIV (\<lambda>_. 0) {} 0 2 [e0, e1] two_entries"
    and e1: "entry_addr e1 = stale_second" using two_entries_inv by blast
  have "ent 65536 stale_img 1 = ent 65536 (cur two_entries) 1"
    by (rule ent_cong [OF demo_log log_size(2)]) (simp add: stale_img_def)
  also have "\<dots> = e1" using log_invD(8) [OF inv, of 1] by simp
  finally have 1: "ent 65536 stale_img 1 = e1" .
  have "good_entry 65536 UNIV e1" using log_invD(6) [OF inv] by simp
  with 1 e1 show "entry_addr (ent 65536 stale_img 1) = stale_second" "commit_tail (ent 65536 stale_img 1) = 0"
    "length (blk (ent 65536 stale_img 1)) = 32"
    by (auto simp: good_entry_def)
  have "stale_img x = 0" if "line x = eline 65536 j" "j < UNDO_NUM_ENTRIES" "j \<noteq> 1" for x j
    using that eline_inject [OF demo_log _ log_size(2), of j] by (simp add: stale_img_def)
  then show "is_null (ent 65536 stale_img 0)" "is_null (ent 65536 stale_img 2)"
    using log_size by (auto intro!: ent_zero [OF demo_log])
qed

lemma stale_crash_image: "crash_image two_entries stale_img"
  unfolding crash_image_def
proof
  fix l
  have z: "(\<lambda>_. 0) \<in> set (pv two_entries l)" unfolding two_entries_def by (intro pv_write_entry) simp
  have "wf_pm two_entries" using two_entries_inv log_invD(2) by blast
  then have "cur two_entries \<in> set (pv two_entries l)" by (auto simp: wf_pm_def)
  with z show "\<exists>m \<in> set (pv two_entries l). \<forall>a. line a = l \<longrightarrow> stale_img a = m a"
    by (cases "l = eline 65536 1") (auto simp: stale_img_def)
qed

text \<open>The instrumented store that straddles the blocks, and the failure inside it.\<close>

lemma record_two_blocks:
  "undo_log_record False 0x4000001F 2 demo_ul =
     Some (demo_ul\<lparr>ul_mem := pmem_drain two_entries, ul_len := 2\<rparr>, False)"
proof -
  have b: "undo_block 0x4000001F = stale_first" by (simp add: undo_block_def)
  let ?ul = "log_block False stale_second (log_block False stale_first demo_ul)"
  have "record_loop False stale_first 0x40000021 demo_ul =
      record_loop False stale_second 0x40000021 (log_block False stale_first demo_ul)"
    by (subst record_loop.simps) (simp add: UNDO_BLK_SIZE_B_def)
  also have "\<dots> = record_loop False 0x40000040 0x40000021 ?ul"
    by (subst record_loop.simps) (simp add: UNDO_BLK_SIZE_B_def)
  also have "\<dots> = Some ?ul" by (subst record_loop.simps) simp
  also have "?ul = demo_ul\<lparr>ul_mem := two_entries, ul_len := 2\<rparr>"
    by (simp add: log_block_def two_entries_def)
  finally show ?thesis
    by (simp add: undo_log_record_def b ranges_find_def COMMIT_THRESHOLD_def LOGGED_ADDR_HASH_SIZE_def)
qed

lemma clear_nothing:
  assumes "wf_pm P"
  shows "cur (memset_movnt_avx 65536 0 0 P) = cur P" and "wf_pm (memset_movnt_avx 65536 0 0 P)"
proof -
  show "cur (memset_movnt_avx 65536 0 0 P) = cur P"
    by (subst memset_movnt_avx_fill) (simp_all add: fill_apply fun_eq_iff)
  have "safe_run wf_pm P (memset_movnt_avx 65536 0 0 P)"
    by (rule memset_movnt_avx_lines(1)) (use assms wf_pm_step in auto)
  then show "wf_pm (memset_movnt_avx 65536 0 0 P)" by (rule safe_run_end)
qed

lemma stale_restart:
  "\<exists>ul2. restart False 65536 0 (\<lambda>_. 0) demo_mops () stale_img = Some (Inr (-1, ul2, ())) \<and>
     ul_log ul2 = 65536 \<and> ul_len ul2 = 0 \<and> fresh_regions ul2 = [] \<and>
     cur (ul_mem ul2) = stale_img \<and> wf_pm (ul_mem ul2)"
proof -
  obtain t where i: "undo_log_init False 65536 0 (\<lambda>_. 0) True (boot stale_img) =
      Some (Inr (recovered_log 65536 0 t stale_img))"
    using undo_log_init_recovered [OF demo_log, of False 0 0 stale_img "\<lambda>_. 0"] stale_entries(1) by auto
  let ?P = "pmem_drain (boot stale_img)"
  have w: "wf_pm ?P" unfolding pmem_drain_def by (rule wf_pm_step) simp
  note c = clear_nothing [OF w]
  have "wf_pm (pmem_drain (memset_movnt_avx 65536 0 0 ?P))"
    unfolding pmem_drain_def [of "memset_movnt_avx 65536 0 0 ?P"] by (rule wf_pm_step [OF c(2)])
  then show ?thesis
    using i c(1) by (simp add: restart_def undo_log_recover_def undo_log_clear_def ranges_clear_def)
qed

text \<open>An epoch that logs nothing commits at entry 0, in front of the stale entry.\<close>

lemma stale_commit:
  assumes "ul_log ul = 65536" "ul_len ul = 0" "fresh_regions ul = []" "cur (ul_mem ul) = stale_img" "wf_pm (ul_mem ul)"
  shows "\<exists>ul3. undo_log_commit 41 ul = Some (Inr ul3) \<and> wf_pm (ul_mem ul3) \<and>
           commit_tail (ent 65536 (cur (ul_mem ul3)) 0) = 42 \<and> entry_addr (ent 65536 (cur (ul_mem ul3)) 0) = 0 \<and>
           ent 65536 (cur (ul_mem ul3)) 1 = ent 65536 stale_img 1 \<and> is_null (ent 65536 (cur (ul_mem ul3)) 2)"
proof -
  let ?e = "entry_at 65536 0"
  define P where "P = pmem_drain (write_commit_record ?e 41 (pmem_drain (ul_mem ul)))"
  let ?m1 = "wr (?e + 32) (le_bytes 8 (0 :: u64)) stale_img"
  let ?m = "wr (?e + 40) (le_bytes 8 (42 :: u64)) ?m1"
  have c: "cur P = ?m"
    using assms(4) by (simp add: P_def write_commit_record_def del: le_bytes.simps le_bytes_zero)
  have k: "32 + length (le_bytes 8 (0 :: u64)) \<le> 64" "40 + length (le_bytes 8 (42 :: u64)) \<le> 64"
    by (simp_all del: le_bytes.simps le_bytes_zero)
  have other: "ent 65536 (cur P) j = ent 65536 stale_img j" if "0 < j" "j < UNDO_NUM_ENTRIES" for j
  proof -
    have n: "0 \<noteq> j" using that by simp
    have "ent 65536 ?m j = ent 65536 ?m1 j"
      using ent_wr_other [OF demo_log log_size(1) that(2) n k(2), of ?m1] by (simp only: of_nat_numeral)
    also have "\<dots> = ent 65536 stale_img j"
      using ent_wr_other [OF demo_log log_size(1) that(2) n k(1), of stale_img] by (simp only: of_nat_numeral)
    finally show ?thesis unfolding c .
  qed
  have 0: "ent 65536 (cur P) 0 = (ent 65536 stale_img 0)\<lparr>entry_addr := 0, commit_tail := 42\<rparr>"
    unfolding c read_entry_wr_tail read_entry_wr_addr by simp
  have wf: "wf_pm P"
    unfolding P_def pmem_drain_def write_commit_record_def pmem_flush_def store_u64_def
    by (intro wf_pm_step assms(5))
  have "undo_log_commit 41 ul = Some (Inr (ul\<lparr>ul_mem := P, ul_len := 1\<rparr>))"
    using assms log_size by (simp add: undo_log_commit_def ranges_foreach_def P_def)
  then show ?thesis
    using wf 0 other [of 1] other [of 2] log_size stale_entries(2) by auto
qed

lemma stale_blocks_restart:
  assumes "commit_tail (ent 65536 m 0) = 42" "entry_addr (ent 65536 m 0) = 0"
    and "ent 65536 m 1 = ent 65536 stale_img 1" and "is_null (ent 65536 m 2)"
  shows "restart False 65536 0 (\<lambda>_. 0) demo_mops () m = Some (Inl (Assertion ''there should be no commit entry''))"
proof -
  have "\<not> is_null (ent 65536 m j) \<and> (commit_tail (ent 65536 m j) > 0 \<longrightarrow> entry_addr (ent 65536 m j) = 0)"
    if "j < 2" for j
    using that assms stale_entries by (cases "j = 0") (auto simp: is_null_def less_2_cases_iff)
  then obtain t where i: "undo_log_init False 65536 0 (\<lambda>_. 0) True (boot m) = Some (Inr (recovered_log 65536 2 t m))"
    using undo_log_init_recovered [OF demo_log, of False 0 2 m "\<lambda>_. 0"] assms(4) by auto
  let ?e = "ent 65536 m 1"
  define P where "P = pmem_flush (entry_addr ?e) (store_bytes (entry_addr ?e) (blk ?e) (boot m))"
  have off: "off_log 65536 (entry_addr ?e) (length (blk ?e))"
    unfolding assms(3) stale_entries
    by (rule off_log_above [OF demo_log]) (simp_all add: UNDO_NUM_ENTRIES_def)
  have "length (blk ?e) < 18446744073709551616" unfolding assms(3) stale_entries(5) by simp
  then have "cur P = wr (entry_addr ?e) (blk ?e) m"
    unfolding P_def by (simp only: cur_flush cur_store_bytes cur_boot)
  then have "commit_tail (ent 65536 (cur P) 0) = 42"
    using ent_wr_off_log [OF demo_log log_size(1) off, of m] assms(1) by simp
  then have "undo_apply (\<lambda>_. True) 65536 (Suc 0) P = Inl (Assertion ''there should be no commit entry'')"
    by (simp add: Let_def)
  moreover have "commit_tail ?e = 0" "entry_addr ?e \<noteq> 0" unfolding assms(3) stale_entries by simp_all
  then have "undo_apply (\<lambda>_. True) 65536 (Suc (Suc 0)) (boot m) = undo_apply (\<lambda>_. True) 65536 (Suc 0) P"
    by (subst undo_apply.simps(2)) (simp add: Let_def P_def del: undo_apply.simps)
  ultimately have "undo_apply (\<lambda>_. True) 65536 2 (boot m) = Inl (Assertion ''there should be no commit entry'')"
    by (simp only: numeral_2_eq_2)
  moreover have "commit_tail (last_entry (recovered_log 65536 2 t m)) = 0"
    using stale_entries(4) assms(3) by (simp add: last_entry_def)
  ultimately show ?thesis using i by (simp add: restart_def undo_log_recover_def)
qed

text \<open>
  C12. An entry left behind by recovery can make a later restart fail. A store that straddles two
  blocks writes two entries before the fence; the power fails when only the second is in memory.
  Restarting rolls back correctly, but \<open>undo_log_clear\<close> erases no entry, since the scan stopped at
  the null first one. The next epoch logs nothing and commits at entry 0; after a failure
  the scan runs on into the stale entry, takes the log for uncommitted, and aborts on the commit
  record: the committed state cannot be recovered.
\<close>

theorem stale_entry_breaks_restart:
  "\<exists>ul' flag' img ul2 ul3 img'.
     instrumented_store False True 0x4000001F [1, 2] 0x7000000000000100 (demo_ul, False) = Some (ul', flag') \<and>
     crash_during (ul_mem demo_ul) (ul_mem ul') img \<and>
     restart False 65536 0 (\<lambda>_. 0) demo_mops () img = Some (Inr (-1, ul2, ())) \<and>
     undo_log_commit 41 ul2 = Some (Inr ul3) \<and> crash_image (ul_mem ul3) img' \<and>
     restart False 65536 0 (\<lambda>_. 0) demo_mops () img' = Some (Inl (Assertion ''there should be no commit entry''))"
proof -
  let ?ul = "demo_ul\<lparr>ul_mem := store_bytes 0x4000001F [1, 2] (pmem_drain two_entries), ul_len := 2\<rparr>"
  have st: "instrumented_store False True 0x4000001F [1, 2] 0x7000000000000100 (demo_ul, False) = Some (?ul, False)"
    using record_two_blocks by (simp add: instrumented_store_def record_write_def)
  obtain es where "two_entries = pm_run es (boot (\<lambda>_. 0))" by (rule run_two_entries)
  then have "crash_during (boot (\<lambda>_. 0)) (ul_mem ?ul) stale_img"
    by (rule crash_during_prefix [where fs = "[Fence, Store 0x4000001F [1], Store 0x40000020 [2]]", OF _ _ stale_crash_image])
       (simp add: pmem_drain_def)
  moreover obtain ul2 where ul2: "restart False 65536 0 (\<lambda>_. 0) demo_mops () stale_img = Some (Inr (-1, ul2, ()))"
    "ul_log ul2 = 65536" "ul_len ul2 = 0" "fresh_regions ul2 = []" "cur (ul_mem ul2) = stale_img" "wf_pm (ul_mem ul2)"
    using stale_restart by blast
  moreover obtain ul3 where ul3: "undo_log_commit 41 ul2 = Some (Inr ul3)" "wf_pm (ul_mem ul3)"
    "commit_tail (ent 65536 (cur (ul_mem ul3)) 0) = 42" "entry_addr (ent 65536 (cur (ul_mem ul3)) 0) = 0"
    "ent 65536 (cur (ul_mem ul3)) 1 = ent 65536 stale_img 1" "is_null (ent 65536 (cur (ul_mem ul3)) 2)"
    using stale_commit [OF ul2(2-6)] by blast
  ultimately show ?thesis
    using st crash_image_cur [OF ul3(2)] stale_blocks_restart [OF ul3(3-6)]
    by (intro exI [of _ ?ul] exI [of _ False] exI [of _ stale_img] exI [of _ ul2] exI [of _ ul3]
        exI [of _ "cur (ul_mem ul3)"]) simp
qed

section \<open>A failure during the cleanup\<close>

text \<open>The failure that loses the commit record and nothing else.\<close>

definition lost_record :: "addr \<Rightarrow> nat \<Rightarrow> mem \<Rightarrow> mem" where
  "lost_record B n m = (\<lambda>x. if line x = eline B n then 0 else m x)"

lemma lost_record_crash:
  assumes ok: "log_base_ok B" and n: "n < ul_len ul" "ul_len ul \<le> UNDO_NUM_ENTRIES"
    and ul: "ul_log ul = B" "wf_pm (ul_mem ul)"
  shows "crash_during (ul_mem ul) (ul_mem (undo_log_clear dedup ul)) (lost_record B n (cur (ul_mem ul)))"
proof -
  let ?P = "ul_mem ul" and ?len = "ul_len ul * 64"
  let ?Q = "memset_movnt_avx B 0 ?len ?P"
  let ?I = "\<lambda>Q. wf_pm Q \<and> (\<forall>l. cur ?P \<in> set (pv Q l))"
  have al: "unat B mod 64 = 0" "?len mod 64 = 0" "?len < 18446744073709551616"
    using ok n(2) by (auto simp: log_base_ok_def UNDO_NUM_ENTRIES_def)
  have I0: "?I ?P" using ul(2) by (auto simp: wf_pm_def)
  have sr: "safe_run ?I ?P ?Q"
    by (rule memset_movnt_avx_lines(1) [where I = ?I, OF al I0]) (auto intro: wf_pm_step)
  then obtain es where es: "?Q = pm_run es ?P" unfolding safe_run_def by blast
  note Q = safe_run_end [OF sr]
  have z: "cur ?Q x = 0" if "line x = eline B n" for x
  proof -
    have "n < UNDO_NUM_ENTRIES" using n by simp
    then have "unat (x - B) < ?len"
      using entry_window [OF ok, of n x] that n window_iff [of B ?len x] ok by (simp add: log_base_ok_def)
    then show ?thesis using al by (subst memset_movnt_avx_fill) (simp_all add: fill_apply ucast_0)
  qed
  have "crash_image ?Q (lost_record B n (cur ?P))"
    unfolding crash_image_def
  proof
    fix l
    have "cur ?Q \<in> set (pv ?Q l)" using Q by (auto simp: wf_pm_def)
    then show "\<exists>m \<in> set (pv ?Q l). \<forall>a. line a = l \<longrightarrow> lost_record B n (cur ?P) a = m a"
      using Q z by (cases "l = eline B n") (auto simp: lost_record_def)
  qed
  moreover have "ul_mem (undo_log_clear dedup ul) = pm_run [Fence] ?Q"
    using ul(1) by (simp add: undo_log_clear_def CACHE_LINE_SIZE_B_def pmem_drain_def)
  ultimately show ?thesis using es crash_during_prefix by blast
qed

lemma lost_record_recovering:
  assumes c: "committing B A m0 F D m1 w es P"
  shows "recovering B A m0 F {length es..<UNDO_NUM_ENTRIES} es (boot (lost_record B (length es) (cur P)))"
proof -
  let ?img = "lost_record B (length es) (cur P)"
  note cur = committing_current [OF c]
  have len: "length es < UNDO_NUM_ENTRIES" using cur(2) by simp
  have same: "ent B ?img j = ent B (cur P) j" if "j < UNDO_NUM_ENTRIES" "j \<noteq> length es" for j
    using that eline_inject [OF cur(1) that(1) len] by (intro ent_cong [OF cur(1)]) (auto simp: lost_record_def)
  have "is_null (ent B ?img (length es))"
    by (rule ent_zero [OF cur(1) len]) (simp add: lost_record_def)
  then have "is_null (ent B ?img j)" if "length es \<le> j" "j < UNDO_NUM_ENTRIES" for j
    using that same [of j] cur(6) [of j] by (cases "j = length es") auto
  moreover have "?img x = cur P x" if "\<not> in_log B x" for x
    using that eline_in_log [OF cur(1) len, of x] by (auto simp: lost_record_def)
  ultimately show ?thesis
    using c cur(3,8) same len by (auto simp: recovering_def committing_def)
qed

text \<open>
  C13. A failure during the cleanup can take back a durable commit. Whatever the epoch, once
  \<open>undo_log_commit\<close> has returned there is a point inside \<open>undo_log_post_commit_cleanup\<close>, between
  its unordered non-temporal stores and its fence, where the power failure may leave the log
  without its commit record and with all its entries: restarting then undoes the whole
  committed epoch and reports no commit, although the tail of the operation log has been advanced
  in between.
\<close>

theorem cleanup_may_undo_commit:
  assumes "log_state dedup B A m0 (unprotected S ops) 0 [] ul" and "fresh_ok (fresh_regions ul)"
    and "\<forall>p \<in> set ops. op_ok B S p" and "tracked A skip (fresh_regions ul) ops"
    and "Suc (sum_list (map op_blocks ops)) < UNDO_NUM_ENTRIES" and "0 \<le> tail" and "tail < 2 ^ 31"
    and "dedup \<longrightarrow> hm < 0xFFFFFFFF"
    and "mrm_recover mops (mrm_clear_new_region_table mops mgr) = Some (Inr mgr1)"
    and "\<forall>a \<in> A. mrm_does_manage mops mgr1 a"
  shows "\<exists>ul' flag' ul'' ul3 img. run_app dedup skip ops (ul, flag) = Some (Inr (ul', flag')) \<and>
     undo_log_commit tail ul' = Some (Inr ul'') \<and> undo_log_post_commit_cleanup dedup ul'' = Inr ul3 \<and>
     crash_during (ul_mem ul'') (ul_mem ul3) img \<and>
     rolled_back B m0 (unprotected S ops) mgr1 (restart dedup B hm h0 mops mgr img)"
proof (rule epoch_commit [OF assms(1-5), where flag = flag and tail = tail])
  fix es ul' flag' ul''
  let ?w = "word_of_int (tail + 1) :: u64"
  let ?D = "- unprotected S ops \<union> ranges_set (fold fresh_after ops (fresh_regions ul))"
  assume r: "run_app dedup skip ops (ul, flag) = Some (Inr (ul', flag'))" "undo_log_commit tail ul' = Some (Inr ul'')"
    and c: "committing B A m0 (unprotected S ops) ?D (cur (ul_mem ul')) ?w es (ul_mem ul'')"
    and f: "committed B ?w (length es) (ul_mem ul'')" and ul: "ul_log ul'' = B" "ul_len ul'' = Suc (length es)"
  note cl = cleanup_ready(1) [OF c f tail_roundtrip(1) [OF assms(6,7)] ul, of dedup]
  note cur = committing_current [OF c]
  have "crash_during (ul_mem ul'') (ul_mem (undo_log_clear dedup ul'')) (lost_record B (length es) (cur (ul_mem ul'')))"
    using c ul cur(2) by (intro lost_record_crash [OF cur(1)]) (auto simp: committing_def)
  moreover have "rolled_back B m0 (unprotected S ops) mgr1
      (restart dedup B hm h0 mops mgr (lost_record B (length es) (cur (ul_mem ul''))))"
    by (rule recovering_restart [OF lost_record_recovering [OF c] assms(8-10)])
  ultimately show ?thesis using r cl by blast
qed

theorem cleanup_may_undo_commit_witness:
  "\<exists>ul' flag' ul'' ul3 img. run_app False True demo_ops (demo_ul, False) = Some (Inr (ul', flag')) \<and>
     undo_log_commit 41 ul' = Some (Inr ul'') \<and> undo_log_post_commit_cleanup False ul'' = Inr ul3 \<and>
     crash_during (ul_mem ul'') (ul_mem ul3) img \<and>
     rolled_back 65536 (\<lambda>_. 0) (unprotected 0x7000000000000000 demo_ops) ()
       (restart False 65536 0 (\<lambda>_. 0) demo_mops () img)"
  by (rule cleanup_may_undo_commit [OF demo_state demo_fresh(1) demo_ops_ok(1) demo_fresh(2,3)]) simp_all

section \<open>An unmapping that forgets another mapping\<close>

lemma two_ranges_insert:
  assumes "no_wrap r" "no_wrap s" and "range_end r < range_start s \<or> range_end s < range_start r"
  shows "ranges_insert (range_start s) (range_size s) (ranges_insert (range_start r) (range_size r) []) \<in> {[r, s], [s, r]}"
proof -
  have "\<not> range_start s - range_start r \<le> range_size r" if "range_end r < range_start s"
    using that assms(1) unat_range_end [OF assms(1)] by (simp add: word_less_nat_alt word_le_nat_alt unat_sub_le)
  moreover have "\<not> range_start r - range_start s \<le> range_size s" if "range_end s < range_start r"
    using that assms(2) unat_range_end [OF assms(2)] by (simp add: word_less_nat_alt word_le_nat_alt unat_sub_le)
  moreover have "r < s \<longleftrightarrow> range_end r < range_start s"
    using assms(3) unat_range_end [OF assms(1)] unat_range_end [OF assms(2)]
    by (auto simp: less_range_def word_less_nat_alt)
  ultimately show ?thesis using assms(3) by (auto simp: ranges_insert_def not_less)
qed

text \<open>\<open>remove\<close> of one of two mappings leaves none.\<close>

lemma remove_leaves_none:
  assumes r: "no_wrap r" "range_size r \<noteq> 0" and s: "no_wrap s"
    and apart: "range_end r < range_start s \<or> range_end s < range_start r" and v: "v \<in> {[r, s], [s, r]}"
  shows "ranges_remove (range_start r) (range_size r) v = Inr []"
proof -
  have "0 < unat (range_end r)" using unat_range_end [OF r(1)] r(2) by (simp add: unat_gt_0)
  then have "range_end r \<noteq> 0" by auto
  then have e: "unat (range_end r - 1) = unat (range_start r) + unat (range_size r) - 1"
    "range_end (Range (range_start r) (range_size r)) = range_end r"
    using unat_range_end [OF r(1)] by (simp_all add: unat_minus_one range_end_def)
  have "\<not> includes_point s (range_start r)" "\<not> includes_point s (range_end r - 1)"
    using apart unat_range_end [OF r(1)] unat_range_end [OF s] e(1) r(2)
    by (auto simp: includes_point_nat [OF s] word_less_nat_alt unat_gt_0)
  then have "remove_loop (Range (range_start r) (range_size r)) v = Inr []"
    using v e(2) by (auto simp: remove_left_def remove_right_def Let_def)
  then show ?thesis using r(2) by (simp add: ranges_remove_def)
qed

text \<open>After a commit the memory of a restart is the image itself, outside the log.\<close>

lemma committed_restart_image:
  assumes c: "committing B A m0 F D m1 w es P" "committed B w (length es) P" and img: "crash_image P img"
    and t: "w = word_of_int (tail + 1)" "0 \<le> tail" "tail < 2 ^ 31" and hm: "dedup \<longrightarrow> hm < 0xFFFFFFFF"
    and mgr: "mrm_recover mops (mrm_commit_new_region_table mops mgr) = Some (Inr mgr')"
  shows "\<exists>u. restart dedup B hm h0 mops mgr img = Some (Inr (tail, u, mgr')) \<and>
           (\<forall>x. \<not> in_log B x \<longrightarrow> durably (ul_mem u) x (img x))"
proof -
  note i = committing_image [OF c(1) img]
  have "committing B A m0 F UNIV img w es (boot img)"
    using i(1-4,6) c(1) by (auto simp: committing_def)
  moreover have "crash_image (boot img) img" using crash_image_cur [OF wf_boot, of img] by simp
  ultimately have "\<exists>u. restart dedup B hm h0 mops mgr img = Some (Inr (tail, u, mgr')) \<and> log_state dedup B A img (- UNIV) 0 [] u \<and>
      (\<forall>x. \<not> in_log B x \<longrightarrow> x \<in> UNIV \<longrightarrow> durably (ul_mem u) x (img x))"
    by (rule committed_restart [OF _ _ i(7) [OF c(2)] t hm mgr])
  then show ?thesis by blast
qed

lemma lost_stores_image:
  fixes e p tail bs
  assumes wf: "wf_pm P"
  defines "P' \<equiv> pmem_drain (write_commit_record e tail (pmem_drain (store_bytes p bs P)))"
  shows "crash_image P' (\<lambda>x. if line x = line e then cur P' x else cur P x)"
  unfolding crash_image_def
proof
  fix l
  have s: "m \<in> set (fv Q l) \<Longrightarrow> m \<in> set (fv (store_bytes p bs Q) l)" for m p Q
    by (induction bs arbitrary: p Q) auto
  have "cur P \<in> set (fv P l)" using wf by (auto simp: wf_pm_def)
  then have f: "cur P \<in> set (fv (store_bytes p bs P) l)" by (rule s)
  have "wf_pm (store_bytes p bs P)" by (rule wf_store_bytes [OF wf])
  then have "wf_pm P'"
    unfolding P'_def pmem_drain_def write_commit_record_def pmem_flush_def store_u64_def by (intro wf_pm_step)
  then have "cur P' \<in> set (pv P' l)" by (auto simp: wf_pm_def)
  moreover have "cur P \<in> set (pv P' l)" if "l \<noteq> line e"
    using f that by (simp add: P'_def pmem_drain_def write_commit_record_def pmem_flush_def store_u64_def del: le_bytes.simps)
  ultimately show "\<exists>m \<in> set (pv P' l). \<forall>a. line a = l \<longrightarrow> (if line a = line e then cur P' a else cur P a) = m a"
    by (cases "l = line e") auto
qed

lemma window_in_range:
  assumes w: "window_ok B p n" and s: "no_wrap s" "includes_range s (Range p (of_nat n))" and x: "unat (x - p) < n"
  shows "x \<in> range_set s"
proof -
  have n: "0 < n" "n < 18446744073709551616" using w by (auto simp: window_ok_def)
  have pw: "no_wrap (Range p (of_nat n))" "of_nat n \<noteq> (0 :: u64)" "unat p + n \<le> 18446744073709551616"
    using w n by (auto simp: window_ok_def no_wrap_def unat_of_nat_small word_eq_iff_unat)
  have "unat p \<le> unat x" "unat x < unat p + n" using x window_iff [OF pw(3)] by auto
  then have "includes_point s x"
    using s(2) n(2) unfolding includes_range_nat [OF s(1) pw(1), simplified, OF pw(2)] includes_point_nat [OF s(1)]
    by (simp add: unat_of_nat_small)
  then show ?thesis by (simp add: mem_range_set)
qed

text \<open>The command leaves a store that is neither logged nor in a fresh region.\<close>

lemma run_forgets_mapping:
  assumes fr: "fresh_regions ul = []" and r: "no_wrap (Range a (ucast sa))" "sa \<noteq> 0" and s: "no_wrap (Range b (ucast sb))"
    and apart: "a + ucast sa < b \<or> b + ucast sb < a" and n: "length bs < 2 ^ 32"
    and p: "includes_range (Range b (ucast sb)) (Range p (of_nat (length bs)))" "\<not> (skip \<and> rsp - 128 \<le> p)"
  shows "run_app dedup skip [AppFresh a sa, AppFresh b sb, AppStore p bs rsp, AppUnfresh a sa] (ul, flag) =
    Some (Inr (ul\<lparr>ul_mem := store_bytes p bs (ul_mem ul)\<rparr>, flag))"
proof -
  let ?r = "Range a (ucast sa)" and ?s = "Range b (ucast sb)"
  let ?v = "ranges_insert b (ucast sb) (ranges_insert a (ucast sa) [])"
  have sz: "ucast sa \<noteq> (0 :: u64)" using r(2) unat_ucast_u32 [of sa] by (metis unat_eq_zero)
  have v: "?v \<in> {[?r, ?s], [?s, ?r]}" using two_ranges_insert [OF r(1) s] apart by (simp add: range_end_def)
  have n: "ucast (of_nat (length bs) :: u32) = (of_nat (length bs) :: u64)" using n by (simp add: word_eq_iff_unat unat_ucast_u32 unat_of_nat)
  have "ranges_find ?v p (ucast (of_nat (length bs) :: u32))" using v p(1) unfolding n ranges_find_def by auto
  moreover have "ranges_remove a (ucast sa) ?v = Inr []"
    using remove_leaves_none [OF r(1) _ s _ v] sz apart by (simp add: range_end_def)
  ultimately show ?thesis
    using fr p(2)
    by (simp add: undo_log_record_fresh_region_def undo_log_remove_fresh_region_def instrumented_store_def record_write_def undo_log_record_def)
qed

text \<open>
  C17. An unmapping loses what a committed command stored elsewhere. The command maps two areas \<open>r\<close> and \<open>s\<close> that
  do not touch, stores into \<open>s\<close>, and unmaps \<open>r\<close>. The store is not logged, since \<open>s\<close> is fresh; but \<open>remove\<close> has dropped \<open>s\<close>
  together with \<open>r\<close>, so \<open>undo_log_commit\<close> does not flush it. After the commit there is a power failure after which the
  restart reports the new tail, the command as executed, and has everywhere outside the log the memory from before the command.
\<close>

theorem unmap_loses_committed_store:
  assumes st: "log_state dedup B A m0 F 0 [] ul" "fresh_regions ul = []"
    and r: "no_wrap (Range a (ucast sa))" "sa \<noteq> 0" and s: "no_wrap (Range b (ucast sb))" "range_set (Range b (ucast sb)) \<subseteq> F"
    and apart: "a + ucast sa < b \<or> b + ucast sb < a"
    and p: "window_ok B p (length bs)" "includes_range (Range b (ucast sb)) (Range p (of_nat (length bs)))" "\<not> (skip \<and> rsp - 128 \<le> p)"
    and t: "0 \<le> tail" "tail < 2 ^ 31" and hm: "dedup \<longrightarrow> hm < 0xFFFFFFFF"
    and mgr: "mrm_recover mops (mrm_commit_new_region_table mops mgr) = Some (Inr mgr')"
  shows "\<exists>ul' ul'' img u. run_app dedup skip [AppFresh a sa, AppFresh b sb, AppStore p bs rsp, AppUnfresh a sa] (ul, flag) = Some (Inr (ul', flag)) \<and>
     cur (ul_mem ul') = wr p bs (cur (ul_mem ul)) \<and> undo_log_commit tail ul' = Some (Inr ul'') \<and> crash_image (ul_mem ul'') img \<and>
     restart dedup B hm h0 mops mgr img = Some (Inr (tail, u, mgr')) \<and>
     (\<forall>x. \<not> in_log B x \<longrightarrow> durably (ul_mem u) x (cur (ul_mem ul) x))"
proof -
  let ?ul = "ul\<lparr>ul_mem := store_bytes p bs (ul_mem ul)\<rparr>"
  let ?P = "pmem_drain (write_commit_record (entry_at B 0) tail (pmem_drain (store_bytes p bs (ul_mem ul))))"
  let ?img = "\<lambda>x. if line x = eline B 0 then cur ?P x else cur (ul_mem ul) x"
  have len: "length bs < 2 ^ 32" "length bs < 18446744073709551616" using p(1) by (auto simp: window_ok_def)
  note run = run_forgets_mapping [OF st(2) r s(1) apart len(1) p(2,3), of dedup flag]
  have B: "ul_log ul = B" "ul_len ul = 0" "wf_pm (ul_mem ul)" "log_base_ok B" using st(1) by (auto simp: log_state_def log_inv_def)
  have com: "undo_log_commit tail ?ul = Some (Inr (?ul\<lparr>ul_mem := ?P, ul_len := 1\<rparr>))"
    using B st(2) log_size by (simp add: undo_log_commit_def ranges_foreach_def)
  have "log_state dedup B A m0 F (length ([] :: undo_log_entry list)) [] ?ul"
    using st(1) p(1) s(2) window_in_range [OF p(1) s(1) p(2)] by (intro log_state_store(1)) (auto simp: window_ok_def)
  from undo_log_commit_correct [OF this, of tail] com st(2) log_size
  have c: "committing B A m0 F (- F) (cur (ul_mem ?ul)) (word_of_int (tail + 1)) [] ?P"
    "committed B (word_of_int (tail + 1)) (length ([] :: undo_log_entry list)) ?P" by auto
  have img: "crash_image ?P ?img" by (rule lost_stores_image [OF B(3)])
  obtain u where u: "restart dedup B hm h0 mops mgr ?img = Some (Inr (tail, u, mgr'))" "\<forall>x. \<not> in_log B x \<longrightarrow> durably (ul_mem u) x (?img x)"
    using committed_restart_image [OF c img refl t hm mgr] by blast
  have "durably (ul_mem u) x (cur (ul_mem ul) x)" if "\<not> in_log B x" for x
    using u(2) that eline_in_log [OF B(4) log_size(1), of x] by fastforce
  with run com img u(1) len(2) show ?thesis
    by (intro exI [of _ ?ul] exI [of _ "?ul\<lparr>ul_mem := ?P, ul_len := 1\<rparr>"] exI [of _ ?img] exI [of _ u]) simp
qed

theorem unmap_loses_committed_store_witness:
  "\<exists>ul' ul'' img u. run_app False True [AppFresh 0x40000000 4096, AppFresh 0x50000000 4096, AppStore 0x50000010 [7] 0x7000000000000100,
       AppUnfresh 0x40000000 4096] (demo_ul, False) = Some (Inr (ul', False)) \<and>
     cur (ul_mem ul') 0x50000010 = 7 \<and> undo_log_commit 41 ul' = Some (Inr ul'') \<and> crash_image (ul_mem ul'') img \<and>
     restart False 65536 0 (\<lambda>_. 0) demo_mops () img = Some (Inr (41, u, ())) \<and> durably (ul_mem u) 0x50000010 0"
proof -
  have st: "log_state False 65536 UNIV (\<lambda>_. 0) UNIV 0 [] demo_ul"
    by (rule log_state_boot [OF demo_log]) simp
  have w: "window_ok 65536 0x50000010 (length [7 :: byte])"
    using off_log_above [OF demo_log, of "0x50000010" 1] by (simp add: window_ok_def UNDO_NUM_ENTRIES_def)
  have "\<not> in_log 65536 0x50000010" unfolding in_log_nat [OF demo_log] by (simp add: UNDO_NUM_ENTRIES_def)
  then show ?thesis
    using unmap_loses_committed_store [OF st, where a = "0x40000000" and sa = 4096 and b = "0x50000000" and sb = 4096 and p = "0x50000010"
        and bs = "[7]" and rsp = "0x7000000000000100" and tail = 41 and hm = 0 and mops = demo_mops and mgr = "()" and skip = True, OF _ _ _ _ _ _ w]
    by (fastforce simp: no_wrap_def includes_range_def wr_def)
qed

end
