(* ===== verification/Psm_Log.thy ===== *)
theory Psm_Log
  imports Pmem
begin

text \<open>
  The operation log shared by the foreground and the background process:
  \<^verbatim>\<open>src/src/internal.h\<close>, the log operations of \<^verbatim>\<open>src/src/fg.cc\<close> and the constants of
  \<^verbatim>\<open>src/include/libpsm/psm.h\<close>. The struct \<open>psm_log\<close> lies in persistent memory: its head,
  its tail 64 bytes on, and 128 bytes on the circular buffer. \<open>psm\<close> is the struct of the
  source; sizes are 64-bit words. The consume function belongs to the application and is an
  argument. The copy routine \<open>pmem_memcpy_nodrain\<close> is libpmem's and an argument, too.
\<close>

section \<open>Types and constants\<close>

definition PSM_LOG_SIZE_B :: u64 where
  "PSM_LOG_SIZE_B = push_bit 20 1"

definition PSM_SGARRAY_MAXSIZE :: nat where
  "PSM_SGARRAY_MAXSIZE = 10"

datatype psm_mode = PSM_MODE_NO_PERSIST | PSM_MODE_UNDO | PSM_MODE_CHKPT

text \<open>\<open>CACHE_LINE_SIZE_B\<close> is \<open>64u\<close>, so the mask is built at 32 bits and then widened.\<close>

definition align_to_cache_line_size :: "u64 \<Rightarrow> u64" where
  "align_to_cache_line_size len = (len + ucast (64 - 1 :: u32)) AND ucast (NOT (64 - 1) :: u32)"

text \<open>\<open>base\<close> is the address of the \<open>psm_log\<close>; \<open>head\<close> and \<open>tail\<close> are the two atomics.\<close>

record psm =
  log_base :: addr
  mode :: psm_mode
  head :: u64
  tail :: u64
  local_head :: u64
  local_tail :: u64
  psm_mem :: pmem

abbreviation tail_at :: "addr \<Rightarrow> addr" where "tail_at b \<equiv> b + 64"
abbreviation buf_at :: "addr \<Rightarrow> addr" where "buf_at b \<equiv> b + 128"

abbreviation word_at :: "addr \<Rightarrow> addr set" where "word_at a \<equiv> {x. unat (x - a) < 8}"

section \<open>Operations\<close>

text \<open>The constructor: both counters and the whole buffer are zeroed.\<close>

definition psm_log_construct :: "addr \<Rightarrow> pmem \<Rightarrow> pmem" where
  "psm_log_construct b P =
     pmem_drain (pmem_flush (tail_at b) (pmem_flush b
       (store_bytes (buf_at b) (replicate (unat PSM_LOG_SIZE_B) 0)
         (store_u64 (tail_at b) 0 (store_u64 b 0 P)))))"

definition persist_word :: "addr \<Rightarrow> u64 \<Rightarrow> pmem \<Rightarrow> pmem" where
  "persist_word a w P = pmem_drain (pmem_flush a (store_u64 a w P))"

definition update_head :: "u64 \<Rightarrow> psm \<Rightarrow> psm" where
  "update_head new_head s =
     s\<lparr>psm_mem := persist_word (log_base s) new_head (psm_mem s), head := new_head\<rparr>"

definition update_tail :: "u64 \<Rightarrow> psm \<Rightarrow> psm" where
  "update_tail new_tail s =
     s\<lparr>psm_mem := persist_word (tail_at (log_base s)) new_tail (psm_mem s), tail := new_tail\<rparr>"

text \<open>
  \<open>consume\<close>: \<open>f\<close> is the consume function, on a state \<open>'s\<close> whose memory is \<open>mem_of\<close>; \<open>b\<close> is
  the address of the buffer. The return value -1 is that of \<open>size_t\<close>.
\<close>

function consume ::
  "('s \<Rightarrow> mem) \<Rightarrow> (addr \<Rightarrow> 's \<Rightarrow> (int \<times> 's) result option) \<Rightarrow> addr \<Rightarrow> u64 \<Rightarrow> u64 \<Rightarrow> 's \<Rightarrow> (u64 \<times> 's) result option" where
  "consume mem_of f b hd_off tl_off s =
     (if tl_off = hd_off then Some (Inr (-1, s))
      else if mem_of s (b + tl_off) = 0
      then if tl_off > hd_off then consume mem_of f b hd_off 0 s
           else Some (Inl (Assertion ''tail > head''))
      else if unat (b + tl_off) mod 64 \<noteq> 0 then Some (Inl (Assertion ''BUG: tail pointer is not aligned''))
      else bind_ro (f (b + tl_off) s) (\<lambda>(n, s').
        let consumed_len = scast (ucast (align_to_cache_line_size (word_of_int n)) :: u32) in
        if tl_off + consumed_len \<le> PSM_LOG_SIZE_B
        then Some (Inr ((tl_off + consumed_len) mod PSM_LOG_SIZE_B, s'))
        else Some (Inl (Assertion ''tail + consumed_len <= PSM_LOG_SIZE_B''))))"
  by pat_completeness auto
termination
  by (relation "measure (\<lambda>(_, _, _, _, tl_off, _). unat tl_off)") (auto simp: word_less_nat_alt)

text \<open>
  The spin loop of \<open>psm_reserve\<close>: \<open>loads i\<close> is what the \<open>i\<close>-th load of the shared tail returns.
\<close>

definition free_space :: "u64 \<Rightarrow> u64 \<Rightarrow> u64" where
  "free_space lt lh = (lt + PSM_LOG_SIZE_B - lh - 1) mod PSM_LOG_SIZE_B"

partial_function (option) reserve_spin :: "(nat \<Rightarrow> u64) \<Rightarrow> u64 \<Rightarrow> u64 \<Rightarrow> nat \<Rightarrow> u64 \<Rightarrow> u64 option" where
  "reserve_spin loads lh len i lt =
     (if free_space lt lh < len then reserve_spin loads lh len (Suc i) (loads i) else Some lt)"

definition psm_reserve :: "(nat \<Rightarrow> u64) \<Rightarrow> u64 \<Rightarrow> psm \<Rightarrow> (addr \<times> psm) result option" where
  "psm_reserve loads len0 s =
     (let len1 = align_to_cache_line_size len0 in
      if \<not> len1 > 0 then Some (Inl (Assertion ''must reserve a non-zero number of bytes''))
      else if \<not> len1 \<le> PSM_LOG_SIZE_B - 1 then Some (Inl (Assertion ''log entry length exceeds log length''))
      else let lh = local_head s;
               truncated_tail = lh + len1 > PSM_LOG_SIZE_B;
               len = (if truncated_tail then len1 + (PSM_LOG_SIZE_B - lh) else len1)
      in case reserve_spin loads lh len 0 (local_tail s) of
           None \<Rightarrow> None
         | Some lt \<Rightarrow>
             let p = buf_at (log_base s) + lh in
             if unat p mod 64 \<noteq> 0 then Some (Inl (Assertion ''BUG: head pointer is not aligned''))
             else let s1 = s\<lparr>local_tail := lt, local_head := (lh + len) mod PSM_LOG_SIZE_B\<rparr>
             in if truncated_tail
                then Some (Inr (buf_at (log_base s),
                       s1\<lparr>psm_mem := pmem_flush_invalidate p (store_bytes p [0] (psm_mem s))\<rparr>))
                else Some (Inr (p, s1)))"

definition psm_push ::
  "(addr \<Rightarrow> byte list \<Rightarrow> pmem \<Rightarrow> pmem) \<Rightarrow> (nat \<Rightarrow> u64) \<Rightarrow> byte list \<Rightarrow> psm \<Rightarrow> psm result option" where
  "psm_push memcpy_nodrain loads src s =
     bind_ro (psm_reserve loads (of_nat (length src)) s)
       (\<lambda>(dest, s1). Some (Inr (s1\<lparr>psm_mem := memcpy_nodrain dest src (psm_mem s1)\<rparr>)))"

text \<open>The flushing loop of \<open>psm_commit\<close>.\<close>

partial_function (option) commit_flush :: "addr \<Rightarrow> u64 \<Rightarrow> u64 \<Rightarrow> pmem \<Rightarrow> pmem result option" where
  "commit_flush b i lh P =
     (if i = lh then Some (Inr P)
      else if unat (b + i) mod 64 \<noteq> 0 then Some (Inl (Assertion ''p is not cache-line aligned''))
      else commit_flush b ((i + 64) mod PSM_LOG_SIZE_B) lh (pmem_flush_invalidate (b + i) P))"

definition psm_commit :: "bool \<Rightarrow> psm \<Rightarrow> psm result option" where
  "psm_commit push_only s =
     (if local_head s = head s then Some (Inr s)
      else bind_ro (if push_only then Some (Inr (psm_mem s))
                    else commit_flush (buf_at (log_base s)) (head s) (local_head s) (psm_mem s))
        (\<lambda>P. Some (Inr (update_head (local_head s) (s\<lparr>psm_mem := pmem_drain P\<rparr>)))))"

section \<open>Rounding up to a cache line\<close>

definition round64 :: "nat \<Rightarrow> nat" where
  "round64 n = 64 * ((n + 63) div 64)"

lemma round64_bounds: "n \<le> round64 n" "round64 n < n + 64" "round64 n mod 64 = 0"
proof -
  have "64 * ((n + 63) div 64) \<le> n + 63" "n + 63 < 64 * ((n + 63) div 64) + 64"
    using div_eq_iff_nat [of 64 "n + 63" "(n + 63) div 64"] by auto
  then show "n \<le> round64 n" "round64 n < n + 64" by (auto simp: round64_def)
  show "round64 n mod 64 = 0" by (simp add: round64_def)
qed

lemma round64_pos: "0 < n \<Longrightarrow> 64 \<le> round64 n"
proof -
  assume "0 < n"
  then have "64 div 64 \<le> (n + 63) div 64" by (intro div_le_mono) simp
  then show ?thesis by (simp add: round64_def)
qed

lemma psm_log_size: "PSM_LOG_SIZE_B = 1048576"
  unfolding PSM_LOG_SIZE_B_def by simp

lemma align_eq: "align_to_cache_line_size len = push_bit 6 (drop_bit 6 (take_bit 32 (len + 63)))"
proof -
  have "(ucast (NOT (64 - 1) :: u32) :: u64) = take_bit 32 (NOT (mask 6))"
    by (rule bit_word_eqI) (auto simp: bit_simps mask_eq_exp_minus_1)
  moreover have "x AND take_bit 32 (NOT (mask 6)) = push_bit 6 (drop_bit 6 (take_bit 32 x))" for x :: u64
    by (rule bit_word_eqI) (auto simp: bit_simps)
  ultimately show ?thesis by (simp add: align_to_cache_line_size_def)
qed

lemma unat_align: "unat (align_to_cache_line_size len) = 64 * ((unat len + 63) mod 2 ^ 32 div 64)"
proof -
  let ?x = "len + 63"
  have m: "(unat len + 63) mod 18446744073709551616 mod 4294967296 = (unat len + 63) mod 4294967296"
    by (rule mod_mod_cancel) simp
  have x: "unat (take_bit 32 ?x) = (unat len + 63) mod 4294967296"
    using m by (simp add: unsigned_take_bit_eq take_bit_eq_mod unat_word_ariths)
  have "(unat len + 63) mod 4294967296 < 4294967296" by simp
  then have b: "64 * ((unat len + 63) mod 4294967296 div 64) < 4294967296"
    using le_less_trans [OF times_div_less_eq_dividend [of 64 "(unat len + 63) mod 4294967296"]] by blast
  have "unat (align_to_cache_line_size len) = take_bit LENGTH(64) (push_bit 6 (unat (line (take_bit 32 ?x))))"
    unfolding align_eq line_def by (rule unsigned_push_bit_eq)
  also have "\<dots> = 64 * ((unat len + 63) mod 4294967296 div 64) mod 2 ^ 64"
    unfolding unat_line x by (simp add: take_bit_eq_mod push_bit_eq_mult mult.commute)
  also have "\<dots> = 64 * ((unat len + 63) mod 4294967296 div 64)"
    using b by (intro mod_less) simp
  finally show ?thesis by simp
qed

lemma unat_align_small: "unat len + 63 < 4294967296 \<Longrightarrow> unat (align_to_cache_line_size len) = round64 (unat len)"
  by (simp add: unat_align round64_def)

end
