(* ===== verification/Psm_Queue.thy ===== *)
theory Psm_Queue
  imports Psm_Log
begin

text \<open>
  The operation log is a FIFO queue. The abstract queue has committed and pending entries;
  \<open>ring_rep\<close> relates a state of the circular buffer to it. Head and tail are read as residues
  of counters that only grow, so that entries that wrap, and the padding in front of them, are
  consecutive. \<open>psm_push\<close>, \<open>psm_commit\<close> and \<open>consume\<close> with \<open>update_tail\<close> implement the
  operations of the locale \<open>op_queue\<close>, whose clients see only the queue.
\<close>

abbreviation RING :: nat where "RING \<equiv> 1048576"

section \<open>Entries in the buffer\<close>

definition entry_ok :: "byte list \<Rightarrow> bool" where
  "entry_ok e \<longleftrightarrow> e \<noteq> [] \<and> hd e \<noteq> 0 \<and> round64 (length e) < RING"

definition stored_at :: "mem \<Rightarrow> addr \<Rightarrow> nat \<Rightarrow> byte list \<Rightarrow> bool" where
  "stored_at m b p e \<longleftrightarrow> p + round64 (length e) \<le> RING \<and> rd m (b + of_nat p) (length e) = e"

text \<open>The space that is skipped when the entry does not fit before the end.\<close>

definition pad :: "nat \<Rightarrow> byte list \<Rightarrow> nat" where
  "pad v e = (if v mod RING + round64 (length e) \<le> RING then 0 else RING - v mod RING)"

definition span :: "nat \<Rightarrow> byte list \<Rightarrow> nat" where
  "span v e = pad v e + round64 (length e)"

fun chain :: "mem \<Rightarrow> addr \<Rightarrow> nat \<Rightarrow> byte list list \<Rightarrow> nat \<Rightarrow> bool" where
  "chain m b v [] w \<longleftrightarrow> v = w"
| "chain m b v (e # es) w \<longleftrightarrow>
     entry_ok e \<and> (pad v e \<noteq> 0 \<longrightarrow> m (b + of_nat (v mod RING)) = 0) \<and>
     stored_at m b ((v + pad v e) mod RING) e \<and> chain m b (v + span v e) es w"

lemma pad_le: "pad v e \<le> RING"
  by (simp add: pad_def)

lemma pad_place: "entry_ok e \<Longrightarrow> (v + pad v e) mod RING + round64 (length e) \<le> RING"
proof (cases "v mod RING + round64 (length e) \<le> RING")
  case False
  assume e: "entry_ok e"
  obtain q where q: "v = RING * q + v mod RING" using that [of "v div RING"] by simp
  define r where "r = v mod RING"
  have "r < RING" "v = RING * q + r" using q by (simp_all add: r_def)
  then have "v + (RING - r) = RING * (q + 1)" by simp
  then have "(v + pad v e) mod RING = 0"
    using False unfolding pad_def r_def [symmetric] by (simp only: if_False mod_mult_self1_is_0)
  with e show ?thesis by (simp add: entry_ok_def)
qed (simp add: pad_def)

lemma mod_add_small:
  fixes a d n :: nat
  assumes "a < n" and "d < n"
  shows "(a + d) mod n = (if a + d < n then a + d else a + d - n)"
  using assms by (simp add: mod_if)

lemma chain_le: "chain m b v es w \<Longrightarrow> v \<le> w"
  by (induction es arbitrary: v) (auto dest!: add_leD1)

lemma chain_append: "chain m b v (es @ fs) w \<longleftrightarrow> (\<exists>u. chain m b v es u \<and> chain m b u fs w)"
  by (induction es arbitrary: v) auto

lemma span_pos: "entry_ok e \<Longrightarrow> 64 \<le> span v e"
  using round64_pos [of "length e"] by (simp add: span_def entry_ok_def)

lemma chain_less: "chain m b v es w \<Longrightarrow> es \<noteq> [] \<Longrightarrow> v < w"
proof (cases es)
  case (Cons e es')
  assume "chain m b v es w" "es \<noteq> []"
  with Cons show ?thesis using chain_le [of m b "v + span v e" es' w] span_pos [of e v] by auto
qed simp

text \<open>Only the window of the chain matters.\<close>

lemma chain_frame:
  assumes "chain m b v es w" and "\<And>i. v \<le> i \<Longrightarrow> i < w \<Longrightarrow> m' (b + of_nat (i mod RING)) = m (b + of_nat (i mod RING))"
  shows "chain m' b v es w"
  using assms
proof (induction es arbitrary: v)
  case Nil
  then show ?case by simp
next
  case (Cons e es)
  let ?p = "v + pad v e"
  have e: "entry_ok e" and rest: "chain m b (v + span v e) es w" using Cons.prems(1) by auto
  have w: "v + span v e \<le> w" using rest by (rule chain_le)
  have len: "length e \<le> round64 (length e)" "0 < length e"
    using round64_bounds [of "length e"] e by (auto simp: entry_ok_def)
  have "rd m' (b + of_nat (?p mod RING)) (length e) = rd m (b + of_nat (?p mod RING)) (length e)"
  proof (rule rd_cong)
    fix i
    assume i: "i < length e"
    have "?p mod RING + i < RING" using pad_place [OF e, of v] i len by linarith
    then have "(?p + i) mod RING = ?p mod RING + i" by (metis mod_add_left_eq mod_less)
    moreover have "v \<le> ?p + i" "?p + i < w" using w i len by (auto simp: span_def)
    ultimately show "m' (b + of_nat (?p mod RING) + of_nat i) = m (b + of_nat (?p mod RING) + of_nat i)"
      using Cons.prems(2) [of "?p + i"] by (simp add: add.assoc)
  qed
  moreover have "m' (b + of_nat (v mod RING)) = m (b + of_nat (v mod RING))"
    using w span_pos [OF e, of v] by (intro Cons.prems(2)) auto
  moreover have "chain m' b (v + span v e) es w"
    by (rule Cons.IH [OF rest]) (use Cons.prems(2) in auto)
  ultimately show ?case using Cons.prems(1) by (simp add: stored_at_def)
qed

text \<open>Two counters less than one turn apart never meet.\<close>

lemma ring_apart: "i < j \<Longrightarrow> j < i + RING \<Longrightarrow> i mod RING \<noteq> j mod RING"
proof
  assume ij: "i < j" "j < i + RING" and eq: "i mod RING = j mod RING"
  have "RING dvd j - i" using eq ij(1) mod_eq_dvd_iff_nat [of i j RING] by simp
  with ij show False by (auto dest: dvd_imp_le)
qed

section \<open>The buffer and the queue\<close>

text \<open>
  \<open>lt\<close>, \<open>t\<close>, \<open>h\<close> and \<open>l\<close> are the unbounded counters behind the producer's copy of the tail, the
  published tail, the published head and the producer's head.
\<close>

definition counters :: "nat \<Rightarrow> nat \<Rightarrow> nat \<Rightarrow> nat \<Rightarrow> psm \<Rightarrow> bool" where
  "counters lt t h l s \<longleftrightarrow>
     lt \<le> t \<and> t \<le> h \<and> h \<le> l \<and> l < lt + RING \<and>
     lt mod 64 = 0 \<and> t mod 64 = 0 \<and> h mod 64 = 0 \<and> l mod 64 = 0 \<and>
     local_tail s = of_nat (lt mod RING) \<and> tail s = of_nat (t mod RING) \<and>
     head s = of_nat (h mod RING) \<and> local_head s = of_nat (l mod RING)"

definition base_ok :: "addr \<Rightarrow> bool" where
  "base_ok b \<longleftrightarrow> unat b mod 64 = 0 \<and> unat b + 128 + RING \<le> 2 ^ 64"

definition ring_rep :: "psm \<Rightarrow> byte list list \<Rightarrow> byte list list \<Rightarrow> bool" where
  "ring_rep s qs ps \<longleftrightarrow> base_ok (log_base s) \<and>
     (\<exists>lt t h l. counters lt t h l s \<and>
        chain (cur (psm_mem s)) (buf_at (log_base s)) t qs h \<and>
        chain (cur (psm_mem s)) (buf_at (log_base s)) h ps l)"

lemma unat_buf:
  assumes "base_ok b" and "p < RING"
  shows "unat (buf_at b + of_nat p) = unat b + 128 + p"
proof -
  have "unat (buf_at b) = unat b + 128"
    using assms(1) unat_add_of_nat [of b 128] by (simp add: base_ok_def)
  then show ?thesis using assms unat_add_of_nat [of "buf_at b" p] by (simp add: base_ok_def)
qed

lemma unat_mod_ring: "unat (of_nat (v mod RING) :: u64) = v mod RING"
  by (rule unat_of_nat_small) (rule less_trans [OF mod_less_divisor], simp_all)

lemma free_space_nat:
  assumes "lt \<le> l" and "l < lt + RING"
  shows "unat (free_space (of_nat (lt mod RING)) (of_nat (l mod RING))) = RING - 1 - (l - lt)"
proof -
  let ?a = "lt mod RING" and ?c = "l mod RING"
  have a: "?a < RING" and c: "?c < RING" by simp_all
  have "(of_nat ?a + PSM_LOG_SIZE_B - of_nat ?c - 1 :: u64) = of_nat (?a + RING - ?c - 1)"
    using c by (simp add: psm_log_size of_nat_diff)
  then have f: "free_space (of_nat ?a) (of_nat ?c) = of_nat (?a + RING - ?c - 1) mod of_nat RING"
    unfolding free_space_def by (simp only: psm_log_size) simp
  have "unat (of_nat (?a + RING - ?c - 1) :: u64) = ?a + RING - ?c - 1"
    using a by (intro unat_of_nat_small) linarith
  then have u: "unat (free_space (of_nat ?a) (of_nat ?c)) = (?a + RING - ?c - 1) mod RING"
    unfolding f unat_mod by simp
  define d where "d = l - lt"
  have d: "d < RING" "l = lt + d" using assms by (auto simp: d_def)
  define a where "a = lt mod RING"
  have "a < RING" using a by (simp only: a_def)
  have "?c = (a + d) mod RING" unfolding d(2) a_def by (rule mod_add_left_eq [symmetric])
  also have "\<dots> = (if a + d < RING then a + d else a + d - RING)"
    by (rule mod_add_small [OF \<open>a < RING\<close> d(1)])
  finally have c: "?c = (if a + d < RING then a + d else a + d - RING)" .
  have "(a + RING - ?c - 1) mod RING = RING - 1 - d"
  proof (cases "a + d < RING")
    case True
    then have "a + RING - ?c - 1 = RING - 1 - d" using c d(1) by simp
    then show ?thesis by (simp only:) (simp add: mod_less)
  next
    case False
    then have "a + RING - ?c - 1 = (RING - 1 - d) + RING" using c d(1) by simp
    then show ?thesis by (simp only: mod_add_self2) (simp add: mod_less)
  qed
  then show ?thesis unfolding u d_def [symmetric] by (simp only: a_def)
qed

section \<open>Reserving\<close>

lemma reserve_spin_sound:
  assumes "reserve_spin loads lh len i lt = Some r"
  shows "\<not> free_space r lh < len \<and> (r = lt \<or> (\<exists>j. r = loads j))"
proof (rule reserve_spin.raw_induct [where P = "\<lambda>loads lh len i lt r. \<not> free_space r lh < len \<and> (r = lt \<or> (\<exists>j. r = loads j))"])
  show "reserve_spin loads lh len i lt = Some r" by (rule assms)
qed (auto split: if_splits, metis+)

lemma reserve_spin_returns:
  assumes "\<not> free_space (loads j) lh < len" and "i \<le> j"
  shows "\<exists>r. reserve_spin loads lh len i lt = Some r"
  using assms(2)
proof (induction "Suc j - i" arbitrary: i lt)
  case 0
  then show ?case by simp
next
  case (Suc d)
  show ?case
  proof (cases "free_space lt lh < len \<and> i < j")
    case True
    then have "d = Suc j - Suc i" "Suc i \<le> j" using Suc.hyps(2) by auto
    from Suc.hyps(1) [OF this] True show ?thesis by (subst reserve_spin.simps) simp
  next
    case False
    then have "\<not> free_space lt lh < len \<or> i = j" using Suc.prems by auto
    then show ?thesis using assms(1) by (auto simp: reserve_spin.simps)
  qed
qed

lemma entry_len:
  assumes "entry_ok e"
  shows "unat (of_nat (length e) :: u64) = length e"
    and "unat (align_to_cache_line_size (of_nat (length e))) = round64 (length e)"
proof -
  have l: "length e < RING" using assms round64_bounds(1) [of "length e"] by (simp add: entry_ok_def)
  then show u: "unat (of_nat (length e) :: u64) = length e" by (intro unat_of_nat_small) simp
  show "unat (align_to_cache_line_size (of_nat (length e))) = round64 (length e)"
    using unat_align_small [of "of_nat (length e)"] l u by simp
qed

lemma mod_ring_64: "v mod 64 = 0 \<Longrightarrow> v mod RING mod 64 = 0"
  using mod_mod_cancel [of 64 RING v] by simp

lemma buf_aligned:
  assumes "base_ok b" and "v mod 64 = 0"
  shows "unat (buf_at b + of_nat (v mod RING)) mod 64 = 0"
proof -
  have "unat (buf_at b + of_nat (v mod RING)) = unat b + 128 + v mod RING"
    by (rule unat_buf [OF assms(1)]) simp
  moreover have "unat b mod 64 = 0" using assms(1) by (simp add: base_ok_def)
  ultimately show ?thesis using mod_ring_64 [OF assms(2)] by (simp add: mod_add_eq [symmetric, of "unat b + 128"] mod_add_eq [symmetric, of "unat b"])
qed

lemma psm_reserve_eq:
  assumes c: "counters lt t h l s" and b: "base_ok (log_base s)" and e: "entry_ok e"
  shows "psm_reserve loads (of_nat (length e)) s =
     (case reserve_spin loads (local_head s) (of_nat (span l e)) 0 (local_tail s) of
        None \<Rightarrow> None
      | Some lt' \<Rightarrow> Some (Inr (buf_at (log_base s) + of_nat ((l + pad l e) mod RING),
          s\<lparr>local_tail := lt', local_head := of_nat ((l + span l e) mod RING),
            psm_mem := (if pad l e = 0 then psm_mem s
              else pmem_flush_invalidate (buf_at (log_base s) + of_nat (l mod RING))
                     (store_bytes (buf_at (log_base s) + of_nat (l mod RING)) [0] (psm_mem s)))\<rparr>)))"
proof -
  define r where "r = round64 (length e)"
  define p where "p = l mod RING"
  let ?len1 = "align_to_cache_line_size (of_nat (length e))"
  have r: "0 < r" "r < RING" "unat ?len1 = r"
    using e entry_len(2) [OF e] round64_pos [of "length e"] by (auto simp: r_def entry_ok_def)
  have p: "p < RING" and lh: "local_head s = of_nat p" "unat (of_nat p :: u64) = p"
    using c unat_mod_ring [of l] by (auto simp: counters_def p_def)
  have len1: "?len1 = of_nat r" using r(3) by (metis of_nat_unat ucast_id)
  have al: "unat (buf_at (log_base s) + of_nat p) mod 64 = 0"
    unfolding p_def using c by (intro buf_aligned [OF b]) (simp add: counters_def)
  have sum: "unat (of_nat p + of_nat r :: u64) = p + r"
    using unat_add_of_nat [of "of_nat p" r] lh(2) p r(2) by simp
  have trunc: "local_head s + ?len1 > PSM_LOG_SIZE_B \<longleftrightarrow> \<not> p + r \<le> RING"
    unfolding lh(1) len1 word_less_nat_alt sum by (simp add: psm_log_size not_le)
  have padv: "pad l e = (if p + r \<le> RING then 0 else RING - p)" "span l e = pad l e + r"
    by (simp_all add: pad_def span_def p_def r_def)
  have sp: "(if local_head s + ?len1 > PSM_LOG_SIZE_B then ?len1 + (PSM_LOG_SIZE_B - local_head s) else ?len1) =
      (of_nat (span l e) :: u64)"
    unfolding trunc unfolding padv lh(1) len1 using p by (simp add: psm_log_size of_nat_diff)
  have new: "((local_head s + of_nat (span l e)) mod PSM_LOG_SIZE_B :: u64) = of_nat ((l + span l e) mod RING)"
  proof -
    have lt: "p + span l e < 18446744073709551616" using padv p r by auto
    have "unat ((of_nat p + of_nat (span l e)) mod PSM_LOG_SIZE_B :: u64) = (p + span l e) mod RING"
      using unat_add_of_nat [of "of_nat p" "span l e"] lh(2) lt by (simp add: unat_mod psm_log_size)
    also have "\<dots> = (l + span l e) mod RING" unfolding p_def by (rule mod_add_left_eq)
    finally have "unat ((of_nat p + of_nat (span l e)) mod PSM_LOG_SIZE_B :: u64) =
        unat (of_nat ((l + span l e) mod RING) :: u64)" by (simp only: unat_mod_ring)
    then show ?thesis unfolding lh(1) by (simp only: word_eq_iff_unat)
  qed
  have z: "pad l e \<noteq> 0 \<Longrightarrow> (l + pad l e) mod RING = 0"
  proof -
    assume "pad l e \<noteq> 0"
    then have pe: "pad l e = RING - p" using padv(1) by (simp split: if_splits)
    have "(l + pad l e) mod RING = (p + pad l e) mod RING"
      unfolding p_def by (rule mod_add_left_eq [symmetric])
    also have "\<dots> = 0" using pe p by simp
    finally show ?thesis .
  qed
  have d: "0 < ?len1" "?len1 \<le> PSM_LOG_SIZE_B - 1"
    using r by (simp_all add: word_less_nat_alt word_le_nat_alt psm_log_size)
  show ?thesis
  proof (cases "p + r \<le> RING")
    case True
    then have tr: "\<not> PSM_LOG_SIZE_B < local_head s + ?len1" and "pad l e = 0"
      and ll: "?len1 = of_nat (span l e)"
      using trunc padv len1 by auto
    then show ?thesis
      unfolding psm_reserve_def Let_def if_not_P [OF tr] using d new al
      by (simp add: ll lh(1) p_def [symmetric] not_less split: option.splits)
  next
    case False
    then have tr: "PSM_LOG_SIZE_B < local_head s + ?len1" and pe: "pad l e \<noteq> 0"
      using trunc padv p by auto
    have ll: "?len1 + (PSM_LOG_SIZE_B - local_head s) = of_nat (span l e)" using sp tr by simp
    show ?thesis
      unfolding psm_reserve_def Let_def if_P [OF tr] ll using d new al z [OF pe] pe
      by (simp add: lh(1) p_def [symmetric] split: option.splits)
  qed
qed

section \<open>Pushing\<close>

text \<open>
  What the log relies on of \<open>pmem_memcpy_nodrain\<close>: it copies, and leaves a memory that a
  failure can only find in states the hardware allows.
\<close>

definition copies :: "(addr \<Rightarrow> byte list \<Rightarrow> pmem \<Rightarrow> pmem) \<Rightarrow> bool" where
  "copies mc \<longleftrightarrow> (\<forall>d bs P. wf_pm P \<longrightarrow> length bs < RING \<longrightarrow>
     wf_pm (mc d bs P) \<and> cur (mc d bs P) = wr d bs (cur P))"

lemma wr_ring_out:
  assumes "p + length bs \<le> RING" and "q < RING" and "\<not> (p \<le> q \<and> q < p + length bs)"
  shows "wr (b + of_nat p) bs m (b + of_nat q) = m (b + of_nat q)"
proof (rule wr_out)
  have "p < 18446744073709551616" using assms by simp
  moreover have "unat (b + of_nat q - b) = q" using assms(2) by (simp add: unat_of_nat_small)
  ultimately show "length bs \<le> unat (b + of_nat q - (b + of_nat p))"
    using unat_window_shift [of p "b + of_nat q" b] assms by (auto split: if_splits)
qed

lemma wr_virtual_out:
  assumes p: "v mod RING + length bs \<le> RING" and i: "i < v" "v + length bs \<le> i + RING"
  shows "wr (b + of_nat (v mod RING)) bs m (b + of_nat (i mod RING)) = m (b + of_nat (i mod RING))"
proof (rule wr_ring_out [OF p])
  show "\<not> (v mod RING \<le> i mod RING \<and> i mod RING < v mod RING + length bs)"
  proof
    assume a: "v mod RING \<le> i mod RING \<and> i mod RING < v mod RING + length bs"
    define k where "k = i mod RING - v mod RING"
    have k: "k < length bs" "v mod RING + k = i mod RING" "v mod RING + k < RING"
      using a p by (auto simp: k_def)
    then have "(v + k) mod RING = i mod RING" using mod_add_left_eq [of v RING k] by (metis mod_less)
    moreover have "i mod RING \<noteq> (v + k) mod RING" using i k(1) by (intro ring_apart) auto
    ultimately show False by simp
  qed
qed simp

lemma chain_single:
  assumes e: "entry_ok e" and m: "pad l e \<noteq> 0 \<longrightarrow> m (b + of_nat (l mod RING)) = 0"
    and fit: "span l e < RING"
  shows "chain (wr (b + of_nat ((l + pad l e) mod RING)) e m) b l [e] (l + span l e)"
proof -
  have len: "length e \<le> round64 (length e)" "length e < RING"
    using round64_bounds(1) [of "length e"] e by (auto simp: entry_ok_def)
  have p: "(l + pad l e) mod RING + length e \<le> RING" using pad_place [OF e, of l] len by linarith
  let ?m = "wr (b + of_nat ((l + pad l e) mod RING)) e m"
  have "?m (b + of_nat (l mod RING)) = 0" if "pad l e \<noteq> 0"
    using that m fit len by (subst wr_virtual_out [OF p]) (auto simp: span_def)
  moreover have "rd ?m (b + of_nat ((l + pad l e) mod RING)) (length e) = e"
    by (rule rd_wr_same) (use len in simp)
  ultimately show ?thesis using e pad_place [OF e, of l] by (simp add: stored_at_def)
qed

text \<open>The state behind a push: the padding is marked, then the entry is copied behind it.\<close>

definition pad_mem :: "nat \<Rightarrow> byte list \<Rightarrow> psm \<Rightarrow> pmem" where
  "pad_mem l e s = (if pad l e = 0 then psm_mem s
     else pmem_flush_invalidate (buf_at (log_base s) + of_nat (l mod RING))
            (store_bytes (buf_at (log_base s) + of_nat (l mod RING)) [0] (psm_mem s)))"

lemma psm_push_shape:
  assumes c: "counters lt t h l s" and b: "base_ok (log_base s)" and e: "entry_ok e"
    and r: "psm_push mc (\<lambda>_. tail s) e s = Some res"
  obtains u where
    "res = Inr (s\<lparr>local_tail := of_nat (u mod RING), local_head := of_nat ((l + span l e) mod RING),
       psm_mem := mc (buf_at (log_base s) + of_nat ((l + pad l e) mod RING)) e (pad_mem l e s)\<rparr>)"
    "u \<le> t" "l + span l e < u + RING"
    "\<And>P. counters u t h (l + span l e) (s\<lparr>local_tail := of_nat (u mod RING), local_head := of_nat ((l + span l e) mod RING), psm_mem := P\<rparr>)"
proof -
  obtain lt' where spin: "reserve_spin (\<lambda>_. tail s) (local_head s) (of_nat (span l e)) 0 (local_tail s) = Some lt'"
    using r unfolding psm_push_def psm_reserve_eq [OF c b e] by (auto simp: bind_ro_def split: option.splits)
  obtain u where u: "lt' = of_nat (u mod RING)" "lt \<le> u" "u \<le> t" "u mod 64 = 0"
    using reserve_spin_sound [OF spin] c by (auto simp: counters_def)
  have ul: "u \<le> l" "l < u + RING" using u c by (auto simp: counters_def)
  have "span l e < 2 * RING" using e pad_le [of l e] by (auto simp: entry_ok_def span_def)
  then have "span l e \<le> RING - 1 - (l - u)"
    using reserve_spin_sound [OF spin] free_space_nat [OF ul] c u(1) unat_of_nat_small [of "span l e"]
    by (simp add: counters_def word_less_nat_alt)
  then have fit: "l + span l e < u + RING" using ul by linarith
  have al: "(l + span l e) mod 64 = 0"
    using c mod_ring_64 [of l] round64_bounds(3) [of "length e"]
    by (auto simp: span_def pad_def counters_def mod_eq_0_iff_dvd intro!: dvd_add dvd_diff_nat)
  show thesis
  proof (rule that [OF _ u(3) fit])
    show "res = Inr (s\<lparr>local_tail := of_nat (u mod RING), local_head := of_nat ((l + span l e) mod RING),
       psm_mem := mc (buf_at (log_base s) + of_nat ((l + pad l e) mod RING)) e (pad_mem l e s)\<rparr>)"
      using r spin unfolding psm_push_def psm_reserve_eq [OF c b e] by (simp add: pad_mem_def u(1))
  qed (use c u fit al in \<open>auto simp: counters_def\<close>)
qed

text \<open>A push that finds room appends one pending entry and nothing else.\<close>

lemma psm_push_some:
  assumes rep: "ring_rep s qs ps" and e: "entry_ok e" and mc: "copies mc" and wf: "wf_pm (psm_mem s)"
    and r: "psm_push mc (\<lambda>_. tail s) e s = Some res"
  shows "\<exists>s'. res = Inr s' \<and> ring_rep s' qs (ps @ [e]) \<and> head s' = head s \<and> tail s' = tail s \<and>
           log_base s' = log_base s \<and> wf_pm (psm_mem s')"
proof -
  let ?b = "buf_at (log_base s)"
  obtain lt t h l where c: "counters lt t h l s" and q: "chain (cur (psm_mem s)) ?b t qs h"
    and ps: "chain (cur (psm_mem s)) ?b h ps l" and b: "base_ok (log_base s)"
    using rep by (auto simp: ring_rep_def)
  define P1 where "P1 = pad_mem l e s"
  define d where "d = ?b + of_nat ((l + pad l e) mod RING)"
  obtain u where res: "res = Inr (s\<lparr>local_tail := of_nat (u mod RING), local_head := of_nat ((l + span l e) mod RING), psm_mem := mc d e P1\<rparr>)"
    and u: "u \<le> t" and fit: "l + span l e < u + RING"
    and c': "counters u t h (l + span l e) (s\<lparr>local_tail := of_nat (u mod RING), local_head := of_nat ((l + span l e) mod RING), psm_mem := mc d e P1\<rparr>)"
    by (rule psm_push_shape [OF c b e r]) (simp add: P1_def d_def)
  have len: "length e \<le> round64 (length e)" "length e < RING" and lu: "u \<le> l"
    using round64_bounds(1) [of "length e"] e c u by (auto simp: entry_ok_def counters_def)
  have wf1: "wf_pm P1" using wf by (auto simp: P1_def pad_mem_def pmem_flush_invalidate_def intro: wf_pm_step)
  have m1: "cur P1 = (if pad l e = 0 then cur (psm_mem s) else wr (?b + of_nat (l mod RING)) [0] (cur (psm_mem s)))"
    by (simp add: P1_def pad_mem_def)
  have m2: "wf_pm (mc d e P1)" "cur (mc d e P1) = wr d e (cur P1)"
    using mc wf1 len unfolding copies_def by auto
  have p: "(l + pad l e) mod RING + length e \<le> RING" using pad_place [OF e, of l] len by linarith
  have frame: "cur (mc d e P1) (?b + of_nat (i mod RING)) = cur (psm_mem s) (?b + of_nat (i mod RING))"
    if "t \<le> i" "i < l" for i
  proof -
    have "wr d e (cur P1) (?b + of_nat (i mod RING)) = cur P1 (?b + of_nat (i mod RING))"
      unfolding d_def using that fit u len by (intro wr_virtual_out [OF p]) (auto simp: span_def)
    moreover have "l mod RING < RING" by simp
    then have "l mod RING + length [0 :: byte] \<le> RING" by simp
    then have "wr (?b + of_nat (l mod RING)) [0] m (?b + of_nat (i mod RING)) = m (?b + of_nat (i mod RING))" for m
      using that fit u span_pos [OF e, of l] by (intro wr_virtual_out) auto
    ultimately show ?thesis by (simp add: m1 m2)
  qed
  have "h \<le> l" "t \<le> h" using c by (auto simp: counters_def)
  then have "chain (cur (mc d e P1)) ?b t qs h" "chain (cur (mc d e P1)) ?b h ps l"
    using frame by (auto intro!: chain_frame [OF q] chain_frame [OF ps])
  moreover have "chain (cur (mc d e P1)) ?b l [e] (l + span l e)"
    unfolding m2(2) unfolding d_def using fit lu by (intro chain_single [OF e]) (auto simp: m1 wr_single)
  ultimately have ch: "chain (cur (mc d e P1)) ?b t qs h" "chain (cur (mc d e P1)) ?b h (ps @ [e]) (l + span l e)"
    unfolding chain_append by blast+
  show ?thesis using res c' b ch m2(1) by (auto simp: ring_rep_def)
qed

lemma psm_push_returns:
  assumes rep: "counters lt t h l s" "base_ok (log_base s)" and e: "entry_ok e"
    and room: "l + span l e < t + RING"
  shows "\<exists>res. psm_push mc (\<lambda>_. tail s) e s = Some res"
proof -
  have tl: "t \<le> l" "l < t + RING" "span l e < 18446744073709551616"
    using rep e pad_le [of l e] by (auto simp: counters_def span_def entry_ok_def)
  have "\<not> free_space (tail s) (local_head s) < of_nat (span l e)"
    using rep(1) free_space_nat [OF tl(1,2)] unat_of_nat_small [OF tl(3)] room
    by (simp add: counters_def word_less_nat_alt)
  then obtain lt' where "reserve_spin (\<lambda>_. tail s) (local_head s) (of_nat (span l e)) 0 (local_tail s) = Some lt'"
    using reserve_spin_returns [of "\<lambda>_. tail s" 0 "local_head s" "of_nat (span l e)" 0] by blast
  then show ?thesis by (simp add: psm_push_def psm_reserve_eq [OF rep e])
qed

section \<open>Committing\<close>

text \<open>The lines that the loop flushes.\<close>

fun flushes :: "addr \<Rightarrow> nat \<Rightarrow> nat \<Rightarrow> pevent list" where
  "flushes b i 0 = []"
| "flushes b i (Suc n) = Flush (b + of_nat (i mod RING)) # flushes b (i + 64) n"

lemma commit_flush_returns:
  assumes "base_ok b" and "i mod 64 = 0" and "n * 64 < RING"
  shows "commit_flush (buf_at b) (of_nat (i mod RING)) (of_nat ((i + n * 64) mod RING)) P =
    Some (Inr (pm_run (flushes (buf_at b) i n) P))"
  using assms(2,3)
proof (induction n arbitrary: i P)
  case 0
  then show ?case by (subst commit_flush.simps) auto
next
  case (Suc n)
  let ?P = "pmem_flush_invalidate (buf_at b + of_nat (i mod RING)) P"
  have "i mod RING \<noteq> (i + Suc n * 64) mod RING" using Suc.prems by (intro ring_apart) auto
  then have ne: "of_nat (i mod RING) \<noteq> (of_nat ((i + Suc n * 64) mod RING) :: u64)"
    by (metis unat_mod_ring)
  have nxt: "(of_nat (i mod RING) + 64) mod PSM_LOG_SIZE_B = (of_nat ((i + 64) mod RING) :: u64)"
  proof -
    have "unat (of_nat (i mod RING) + of_nat 64 :: u64) = i mod RING + 64"
      using unat_mod_ring [of i] mod_less_divisor [of RING i] by (intro unat_add_of_nat [of "of_nat (i mod RING)" 64, unfolded unat_mod_ring]) simp
    then have "unat ((of_nat (i mod RING) + 64) mod PSM_LOG_SIZE_B :: u64) = (i + 64) mod RING"
      by (simp add: unat_mod psm_log_size mod_add_left_eq)
    then show ?thesis by (simp only: word_eq_iff_unat unat_mod_ring)
  qed
  have "commit_flush (buf_at b) (of_nat ((i + 64) mod RING)) (of_nat (((i + 64) + n * 64) mod RING)) ?P =
      Some (Inr (pm_run (flushes (buf_at b) (i + 64) n) ?P))"
    using Suc.IH [of "i + 64" ?P] Suc.prems by simp
  then show ?case
    using ne buf_aligned [OF assms(1) Suc.prems(1)]
    by (subst commit_flush.simps) (simp add: nxt add.assoc pmem_flush_invalidate_def)
qed

lemma cur_flushes [simp]: "cur (pm_run (flushes b i n) P) = cur P"
  by (induction n arbitrary: i P) auto

lemma wr_field_buf:
  assumes "base_ok b" and "k + length bs \<le> 128" and "q < RING"
  shows "wr (b + of_nat k) bs m (buf_at b + of_nat q) = m (buf_at b + of_nat q)"
proof (rule wr_out)
  have "unat (b + of_nat (128 + q) - b) = 128 + q" using assms(3) by (simp add: unat_of_nat_small del: of_nat_add)
  then have "unat (buf_at b + of_nat q - b) = 128 + q" by (simp add: add.assoc)
  then show "length bs \<le> unat (buf_at b + of_nat q - (b + of_nat k))"
    using unat_window_shift [of k "buf_at b + of_nat q" b] assms(2) by (auto split: if_splits)
qed

lemma cur_persist_word [simp]: "cur (persist_word a w P) = wr a (le_bytes 8 w) (cur P)"
  by (simp add: persist_word_def del: le_bytes.simps)

lemma wf_persist_word: "wf_pm P \<Longrightarrow> wf_pm (persist_word a w P)"
  by (simp add: persist_word_def pmem_drain_def pmem_flush_def store_u64_def wf_pm_step del: le_bytes.simps)

lemma chain_update:
  assumes "base_ok b" and "chain (cur P) (buf_at b) v es w" and "k \<in> {0, 64}"
  shows "chain (cur (persist_word (b + of_nat k) x P)) (buf_at b) v es w"
  using assms(2)
  by (rule chain_frame) (use assms(1,3) in \<open>auto simp del: le_bytes.simps intro!: wr_field_buf [OF assms(1)]\<close>)

lemma psm_commit_correct:
  assumes rep: "ring_rep s qs ps" and wf: "wf_pm (psm_mem s)"
  shows "\<exists>s'. psm_commit push_only s = Some (Inr s') \<and> ring_rep s' (qs @ ps) [] \<and> head s' = local_head s \<and>
           tail s' = tail s \<and> log_base s' = log_base s \<and> wf_pm (psm_mem s')"
proof -
  let ?b = "buf_at (log_base s)"
  obtain lt t h l where c: "counters lt t h l s" and q: "chain (cur (psm_mem s)) ?b t qs h"
    and ps: "chain (cur (psm_mem s)) ?b h ps l" and b: "base_ok (log_base s)"
    using rep by (auto simp: ring_rep_def)
  have qp: "chain (cur (psm_mem s)) ?b t (qs @ ps) l" using q ps chain_append by blast
  have hl: "h \<le> l" "l < h + RING" using c by (auto simp: counters_def)
  show ?thesis
  proof (cases "local_head s = head s")
    case True
    then have "(of_nat (l mod RING) :: u64) = of_nat (h mod RING)"
      using c unfolding counters_def by metis
    then have "l mod RING = h mod RING" by (metis unat_mod_ring)
    then have "h = l" using ring_apart [of h l] hl by (metis le_neq_implies_less)
    then show ?thesis using True qp c b wf by (auto simp: psm_commit_def ring_rep_def)
  next
    case False
    have "64 dvd l - h" using c by (auto simp: counters_def mod_eq_0_iff_dvd intro!: dvd_diff_nat)
    then obtain n where "l - h = 64 * n" by (rule dvdE)
    then have n: "l = h + n * 64" "n * 64 < RING" using hl by auto
    have h64: "h mod 64 = 0" and hs: "head s = of_nat (h mod RING)" "local_head s = of_nat (l mod RING)"
      using c by (auto simp: counters_def)
    obtain P where P: "(if push_only then Some (Inr (psm_mem s))
        else commit_flush ?b (head s) (local_head s) (psm_mem s)) = Some (Inr P)" "cur P = cur (psm_mem s)" "wf_pm P"
      using commit_flush_returns [OF b h64 n(2), of "psm_mem s"] wf wf_pm_run unfolding hs n(1) by (cases push_only) auto
    let ?s = "update_head (local_head s) (s\<lparr>psm_mem := pmem_drain P\<rparr>)"
    have r: "psm_commit push_only s = Some (Inr ?s)" using False P(1) by (simp add: psm_commit_def)
    have "chain (cur (pmem_drain P)) ?b t (qs @ ps) l" using qp P(2) by simp
    from chain_update [OF b this, of 0] have "chain (cur (psm_mem ?s)) ?b t (qs @ ps) l"
      by (simp add: update_head_def del: cur_persist_word)
    moreover have "counters lt t l l ?s" using c by (auto simp: counters_def update_head_def)
    moreover have "wf_pm (psm_mem ?s)"
      using P(3) by (simp add: update_head_def wf_persist_word pmem_drain_def wf_pm_step)
    ultimately show ?thesis using r b by (auto simp: ring_rep_def update_head_def)
  qed
qed

section \<open>Consuming\<close>

lemma consumed_len_nat:
  assumes "entry_ok e"
  shows "scast (ucast (align_to_cache_line_size (word_of_int (int (length e)))) :: u32) = (of_nat (round64 (length e)) :: u64)"
proof -
  have l: "align_to_cache_line_size (of_nat (length e)) = of_nat (round64 (length e))"
    using entry_len(2) [OF assms] by (metis of_nat_unat ucast_id)
  have r: "round64 (length e) < 1048576" using assms by (simp add: entry_ok_def)
  have "sint (of_nat (round64 (length e)) :: u32) = int (round64 (length e))"
    using r by (simp add: signed_of_nat signed_take_bit_int_eq_self)
  moreover have "(ucast (of_nat (round64 (length e)) :: u64) :: u32) = of_nat (round64 (length e))"
    using r of_nat_unat [of "of_nat (round64 (length e)) :: u64", where 'a = u32] by (simp add: unat_of_nat_small)
  ultimately show ?thesis
    using of_int_sint [of "of_nat (round64 (length e)) :: u32", where 'a = u64] by (simp add: l)
qed

lemma span_64: "t mod 64 = 0 \<Longrightarrow> (t + span t e) mod 64 = 0"
  using mod_ring_64 [of t] round64_bounds(3) [of "length e"]
  by (auto simp: span_def pad_def mod_eq_0_iff_dvd intro!: dvd_add dvd_diff_nat)

lemma consume_entry:
  assumes ch: "chain (mem_of s) (buf_at b) t (e # qs) h" and b: "base_ok b" and t: "t mod 64 = 0" "h < t + RING"
    and f: "f (buf_at b + of_nat ((t + pad t e) mod RING)) s = Some (Inr (int (length e), s'))"
  shows "consume mem_of f (buf_at b) (of_nat (h mod RING)) (of_nat (t mod RING)) s =
           Some (Inr (of_nat ((t + span t e) mod RING), s'))"
proof -
  let ?m = "mem_of s" and ?b = "buf_at b"
  have e: "entry_ok e" and st: "stored_at ?m ?b ((t + pad t e) mod RING) e"
    and pz: "pad t e \<noteq> 0 \<longrightarrow> ?m (?b + of_nat (t mod RING)) = 0" and th: "t + span t e \<le> h"
    using ch chain_le by fastforce+
  have "rd ?m (?b + of_nat ((t + pad t e) mod RING)) (length e) ! 0 = e ! 0" using st by (simp add: stored_at_def)
  then have first: "?m (?b + of_nat ((t + pad t e) mod RING)) \<noteq> 0"
    using e by (auto simp: entry_ok_def hd_conv_nth)
  have p64: "(t + pad t e) mod 64 = 0"
    using t(1) mod_ring_64 [OF t(1)] by (auto simp: pad_def mod_eq_0_iff_dvd intro!: dvd_add dvd_diff_nat)
  have direct: "consume mem_of f ?b (of_nat (h mod RING)) (of_nat ((t + pad t e) mod RING)) s =
      Some (Inr (of_nat ((t + span t e) mod RING), s'))"
  proof -
    define p where "p = (t + pad t e) mod RING"
    have pr: "p + round64 (length e) \<le> RING" unfolding p_def by (rule pad_place [OF e])
    have "h < (t + pad t e) + RING" using t(2) by simp
    moreover have "t + pad t e < h" using th round64_pos [of "length e"] e by (auto simp: span_def entry_ok_def)
    ultimately have "p \<noteq> h mod RING" unfolding p_def using ring_apart by blast
    then have ne: "(of_nat p :: u64) \<noteq> of_nat (h mod RING)" unfolding p_def by (metis unat_mod_ring)
    have sum: "unat (of_nat p + of_nat (round64 (length e)) :: u64) = p + round64 (length e)"
      using unat_add_of_nat [of "of_nat p" "round64 (length e)"] pr unat_of_nat_small [of p] by simp
    have le: "of_nat p + of_nat (round64 (length e)) \<le> PSM_LOG_SIZE_B"
      unfolding word_le_nat_alt sum using pr by (simp add: psm_log_size)
    have "unat ((of_nat p + of_nat (round64 (length e))) mod PSM_LOG_SIZE_B :: u64) = (t + span t e) mod RING"
      unfolding unat_mod sum unfolding p_def span_def by (simp add: psm_log_size mod_add_left_eq add.assoc)
    then have nxt: "(of_nat p + of_nat (round64 (length e))) mod PSM_LOG_SIZE_B = (of_nat ((t + span t e) mod RING) :: u64)"
      by (simp only: word_eq_iff_unat unat_mod_ring)
    have al: "unat (?b + of_nat p) mod 64 = 0" unfolding p_def by (rule buf_aligned [OF b p64])
    show ?thesis
      unfolding p_def [symmetric] using ne first f al le nxt
      by (subst consume.simps) (simp add: p_def [symmetric] consumed_len_nat [OF e, simplified] Let_def del: consume.simps)
  qed
  show ?thesis
  proof (cases "pad t e = 0")
    case True
    with direct show ?thesis by simp
  next
    case False
    have tw: "(t + pad t e) mod RING = 0" "pad t e = RING - t mod RING" "t mod RING < RING"
    proof -
      show p: "pad t e = RING - t mod RING" using False by (simp add: pad_def split: if_splits)
      show "t mod RING < RING" by simp
      have "(t + pad t e) mod RING = (t mod RING + pad t e) mod RING" by (rule mod_add_left_eq [symmetric])
      then show "(t + pad t e) mod RING = 0" using p \<open>t mod RING < RING\<close> by simp
    qed
    define k where "k = h - (t + pad t e)"
    have k: "h = (t + pad t e) + k" "k < t mod RING"
      using th t(2) tw(2,3) by (auto simp: k_def span_def)
    have "h mod RING = ((t + pad t e) mod RING + k) mod RING" unfolding k(1) by (rule mod_add_left_eq [symmetric])
    also have "\<dots> = k" using k(2) tw by simp
    finally have hk: "h mod RING < t mod RING" using k(2) by simp
    have "(of_nat (h mod RING) :: u64) < of_nat (t mod RING)"
      unfolding word_less_nat_alt unat_mod_ring by (rule hk)
    then have "consume mem_of f ?b (of_nat (h mod RING)) (of_nat (t mod RING)) s =
        consume mem_of f ?b (of_nat (h mod RING)) 0 s"
      using pz False by (subst consume.simps) (auto simp del: consume.simps)
    then show ?thesis using direct tw(1) by simp
  qed
qed

section \<open>The interface: a FIFO of entries\<close>

text \<open>
  Runs of a producer and a consumer over any log: what was pushed, what was taken. The
  interleaving is arbitrary at the granularity of operations.
\<close>

inductive fifo_run ::
  "('e \<Rightarrow> 's \<Rightarrow> 's \<Rightarrow> bool) \<Rightarrow> ('s \<Rightarrow> 's \<Rightarrow> bool) \<Rightarrow> ('e \<Rightarrow> 's \<Rightarrow> 's \<Rightarrow> bool) \<Rightarrow> 's \<Rightarrow> 'e list \<Rightarrow> 'e list \<Rightarrow> 's \<Rightarrow> bool"
  for push publish take_one s0 where
  start: "fifo_run push publish take_one s0 [] [] s0"
| push: "fifo_run push publish take_one s0 ins outs s \<Longrightarrow> push e s s' \<Longrightarrow>
    fifo_run push publish take_one s0 (ins @ [e]) outs s'"
| publish: "fifo_run push publish take_one s0 ins outs s \<Longrightarrow> publish s s' \<Longrightarrow>
    fifo_run push publish take_one s0 ins outs s'"
| take_one: "fifo_run push publish take_one s0 ins outs s \<Longrightarrow> take_one e s s' \<Longrightarrow>
    fifo_run push publish take_one s0 ins (outs @ [e]) s'"

locale fifo_log =
  fixes rep :: "'s \<Rightarrow> 'e list \<Rightarrow> 'e list \<Rightarrow> bool"
    and push :: "'e \<Rightarrow> 's \<Rightarrow> 's \<Rightarrow> bool"
    and publish :: "'s \<Rightarrow> 's \<Rightarrow> bool"
    and take_one :: "'e \<Rightarrow> 's \<Rightarrow> 's \<Rightarrow> bool"
  assumes push_rep: "rep s qs ps \<Longrightarrow> push e s s' \<Longrightarrow> rep s' qs (ps @ [e])"
    and publish_rep: "rep s qs ps \<Longrightarrow> publish s s' \<Longrightarrow> rep s' (qs @ ps) []"
    and take_rep: "rep s qs ps \<Longrightarrow> take_one e s s' \<Longrightarrow> \<exists>qs'. qs = e # qs' \<and> rep s' qs' ps"
begin

lemma run_fifo:
  assumes "fifo_run push publish take_one s0 ins outs s" and "rep s0 [] []"
  shows "\<exists>qs ps. rep s qs ps \<and> ins = outs @ qs @ ps"
  using assms
proof (induction rule: fifo_run.induct)
  case start
  then show ?case by (intro exI [of _ "[]"]) simp
next
  case (push ins outs s e s')
  then obtain qs ps where "rep s qs ps" "ins = outs @ qs @ ps" by blast
  with push_rep [OF this(1) push.hyps(2)] show ?case by (intro exI [of _ qs] exI [of _ "ps @ [e]"]) simp
next
  case (publish ins outs s s')
  then obtain qs ps where "rep s qs ps" "ins = outs @ qs @ ps" by blast
  with publish_rep [OF this(1) publish.hyps(2)] show ?case by (intro exI [of _ "qs @ ps"] exI [of _ "[]"]) simp
next
  case (take_one ins outs s e s')
  then obtain qs ps where r: "rep s qs ps" "ins = outs @ qs @ ps" by blast
  obtain qs' where "qs = e # qs'" "rep s' qs' ps" using take_rep [OF r(1) take_one.hyps(2)] by blast
  with r(2) show ?case by (intro exI [of _ qs'] exI [of _ ps]) simp
qed

lemma outs_prefix:
  assumes "fifo_run push publish take_one s0 ins outs s" and "rep s0 [] []"
  shows "\<exists>rest. ins = outs @ rest"
  using run_fifo [OF assms] by blast

end

section \<open>The buffer implements it\<close>

text \<open>
  \<open>parse m a\<close> is the length that the consume function reports for the entry at \<open>a\<close>. A message
  format is a set of entries that determine their own length.
\<close>

locale message_format =
  fixes parse :: "mem \<Rightarrow> addr \<Rightarrow> nat"
    and messages :: "byte list set"
  assumes parse_len: "e \<in> messages \<Longrightarrow> rd m a (length e) = e \<Longrightarrow> parse m a = length e"
    and message_ok: "e \<in> messages \<Longrightarrow> entry_ok e"

definition ring_state :: "byte list set \<Rightarrow> psm \<Rightarrow> byte list list \<Rightarrow> byte list list \<Rightarrow> bool" where
  "ring_state E s qs ps \<longleftrightarrow> ring_rep s qs ps \<and> wf_pm (psm_mem s) \<and> set qs \<union> set ps \<subseteq> E"

definition ring_push :: "byte list set \<Rightarrow> byte list \<Rightarrow> psm \<Rightarrow> psm \<Rightarrow> bool" where
  "ring_push E e s s' \<longleftrightarrow> e \<in> E \<and> (\<exists>mc. copies mc \<and> psm_push mc (\<lambda>_. tail s) e s = Some (Inr s'))"

definition ring_publish :: "psm \<Rightarrow> psm \<Rightarrow> bool" where
  "ring_publish s s' \<longleftrightarrow> (\<exists>push_only. psm_commit push_only s = Some (Inr s'))"

text \<open>
  The consumer: \<open>consume\<close> with the function that notes the address it is called on, then
  \<open>update_tail\<close>.
\<close>

definition ring_take :: "(mem \<Rightarrow> addr \<Rightarrow> nat) \<Rightarrow> byte list \<Rightarrow> psm \<Rightarrow> psm \<Rightarrow> bool" where
  "ring_take parse e s s' \<longleftrightarrow>
     (\<exists>a nt. consume (\<lambda>_. cur (psm_mem s)) (\<lambda>a called. Some (Inr (int (parse (cur (psm_mem s)) a), called @ [a])))
        (buf_at (log_base s)) (head s) (tail s) [] = Some (Inr (nt, [a])) \<and>
        e = rd (cur (psm_mem s)) a (parse (cur (psm_mem s)) a) \<and> s' = update_tail nt s)"

lemma ring_take_shape:
  assumes mf: "message_format parse E" and c: "counters lt t h l s" and q: "chain (cur (psm_mem s)) (buf_at (log_base s)) t qs h"
    and b: "base_ok (log_base s)" and E: "set qs \<subseteq> E" and tk: "ring_take parse e s s'"
  shows "\<exists>qs'. qs = e # qs' \<and> s' = update_tail (of_nat ((t + span t e) mod RING)) s"
proof -
  let ?m = "cur (psm_mem s)" and ?b = "buf_at (log_base s)"
  let ?f = "\<lambda>a called. Some (Inr (int (parse ?m a), called @ [a])) :: (int \<times> addr list) result option"
  obtain a nt where r: "consume (\<lambda>_. ?m) ?f ?b (head s) (tail s) [] = Some (Inr (nt, [a]))"
    "e = rd ?m a (parse ?m a)" "s' = update_tail nt s"
    using tk unfolding ring_take_def by blast
  have cs: "head s = of_nat (h mod RING)" "tail s = of_nat (t mod RING)" "t mod 64 = 0" "h < t + RING"
    using c by (auto simp: counters_def)
  show ?thesis
  proof (cases qs)
    case Nil
    then have "t = h" using q by simp
    then have "consume (\<lambda>_. ?m) ?f ?b (head s) (tail s) [] = Some (Inr (-1, []))"
      using cs by (subst consume.simps) simp
    with r(1) show ?thesis by simp
  next
    case (Cons e0 qs0)
    let ?a = "?b + of_nat ((t + pad t e0) mod RING)"
    have "e0 \<in> E" using E Cons by simp
    moreover have st0: "rd ?m ?a (length e0) = e0" using q Cons by (simp add: stored_at_def)
    ultimately have pl: "parse ?m ?a = length e0" by (rule message_format.parse_len [OF mf])
    have "consume (\<lambda>_. ?m) ?f ?b (head s) (tail s) [] = Some (Inr (of_nat ((t + span t e0) mod RING), [?a]))"
      unfolding cs(1,2) using q Cons pl by (intro consume_entry [OF _ b cs(3,4)]) auto
    then have nt: "nt = of_nat ((t + span t e0) mod RING)" "a = ?a" using r(1) by auto
    then have "e = e0" using r(2) pl st0 by simp
    with nt r(3) Cons show ?thesis by simp
  qed
qed

lemma counters_take:
  assumes "counters lt t h l s" and "t + span t e \<le> h"
  shows "counters lt (t + span t e) h l (update_tail (of_nat ((t + span t e) mod RING)) s)"
  using assms span_64 [of t e] by (auto simp: counters_def update_tail_def)

lemma ring_take_state:
  assumes mf: "message_format parse E" and st: "ring_state E s qs ps" and tk: "ring_take parse e s s'"
  shows "\<exists>qs'. qs = e # qs' \<and> ring_state E s' qs' ps"
proof -
  let ?m = "cur (psm_mem s)" and ?b = "buf_at (log_base s)"
  obtain lt t h l where c: "counters lt t h l s" and q: "chain ?m ?b t qs h"
    and ps: "chain ?m ?b h ps l" and b: "base_ok (log_base s)" and E: "set qs \<subseteq> E"
    using st by (auto simp: ring_state_def ring_rep_def)
  define nt :: u64 where "nt = of_nat ((t + span t e) mod RING)"
  obtain qs' where qs: "qs = e # qs'" and s': "s' = update_tail nt s"
    using ring_take_shape [OF mf c q b E tk] by (auto simp: nt_def)
  have q': "chain ?m ?b (t + span t e) qs' h" using q qs by simp
  have mem: "psm_mem s' = persist_word (log_base s + of_nat 64) nt (psm_mem s)" "log_base s' = log_base s"
    by (simp_all add: s' update_tail_def)
  have ch: "chain (cur (psm_mem s')) ?b (t + span t e) qs' h" "chain (cur (psm_mem s')) ?b h ps l"
    unfolding mem by (rule chain_update [OF b q'], simp) (rule chain_update [OF b ps], simp)
  have "counters lt (t + span t e) h l s'"
    unfolding s' nt_def by (rule counters_take [OF c chain_le [OF q']])
  then have "ring_rep s' qs' ps" unfolding ring_rep_def mem(2) using b ch by blast
  then show ?thesis using qs st by (auto simp: ring_state_def mem wf_persist_word)
qed

lemma ring_take_available:
  assumes mf: "message_format parse E" and st: "ring_state E s (e # qs) ps"
  shows "\<exists>s'. ring_take parse e s s'"
proof -
  let ?m = "cur (psm_mem s)" and ?b = "buf_at (log_base s)"
  obtain lt t h l where c: "counters lt t h l s" and q: "chain ?m ?b t (e # qs) h" and b: "base_ok (log_base s)"
    using st by (auto simp: ring_state_def ring_rep_def)
  let ?a = "?b + of_nat ((t + pad t e) mod RING)"
  let ?f = "\<lambda>a called. Some (Inr (int (parse ?m a), called @ [a])) :: (int \<times> addr list) result option"
  have "e \<in> E" using st by (simp add: ring_state_def)
  moreover have st0: "rd ?m ?a (length e) = e" using q by (simp add: stored_at_def)
  ultimately have pl: "parse ?m ?a = length e" by (rule message_format.parse_len [OF mf])
  have "consume (\<lambda>_. ?m) ?f ?b (head s) (tail s) [] = Some (Inr (of_nat ((t + span t e) mod RING), [?a]))"
    using c q pl consume_entry [where mem_of = "\<lambda>_. ?m" and f = ?f and s = "[]" and s' = "[?a]", OF _ b]
    by (auto simp: counters_def)
  then show ?thesis unfolding ring_take_def using pl st0 by (intro exI conjI) auto
qed

context message_format
begin

lemma ring_fifo_log: "fifo_log (ring_state messages) (ring_push messages) ring_publish (ring_take parse)"
proof
  fix s qs ps e s'
  assume st: "ring_state messages s qs ps"
  show "ring_state messages s' qs (ps @ [e])" if "ring_push messages e s s'"
    using that st psm_push_some [of s qs ps e] message_ok
    by (fastforce simp: ring_state_def ring_push_def)
  show "ring_state messages s' (qs @ ps) []" if "ring_publish s s'"
  proof -
    obtain po where "psm_commit po s = Some (Inr s')" using \<open>ring_publish s s'\<close> by (auto simp: ring_publish_def)
    with psm_commit_correct [of s qs ps po] st show ?thesis by (auto simp: ring_state_def)
  qed
  show "\<exists>qs'. qs = e # qs' \<and> ring_state messages s' qs' ps" if "ring_take parse e s s'"
    by (rule ring_take_state [OF _ st that]) unfold_locales
qed

end

sublocale message_format \<subseteq> ring: fifo_log "ring_state messages" "ring_push messages" ring_publish "ring_take parse"
  by (rule ring_fifo_log)

end
