(* ===== verification/Sga.thy ===== *)
theory Sga
  imports Psm_Queue
begin

text \<open>
  Scatter-gather messages: the decoder that \<open>bg_run\<close> (\<^verbatim>\<open>src/src/bg.cc\<close>) wraps around the
  application's consume function, and the types \<open>psm_sgaseg_t\<close> and \<open>psm_sgarray_t\<close> of
  \<^verbatim>\<open>src/include/libpsm/psm.h\<close>. The messages form a \<open>message_format\<close>, so the log
  delivers them in order.
\<close>

record psm_sgaseg =
  seg_len :: int
  seg_buf :: addr

record psm_sgarray =
  num_segs :: int
  segs :: "psm_sgaseg list"

text \<open>
  The loop over the segments, \<open>i\<close> of them done and \<open>k\<close> left; \<open>segs\<close> has room for
  \<open>PSM_SGARRAY_MAXSIZE\<close> and the source does not check it.
\<close>

fun sga_loop :: "mem \<Rightarrow> nat \<Rightarrow> nat \<Rightarrow> addr \<Rightarrow> (psm_sgaseg list \<times> addr) result" where
  "sga_loop m i 0 p = Inr ([], p)"
| "sga_loop m i (Suc k) p =
     (if i \<ge> PSM_SGARRAY_MAXSIZE then Inl (Undefined ''sga.segs[i]'')
      else let len = sint (le_word (rd m p 4) :: u32) in
        bind_result (sga_loop m (Suc i) k (p + 4 + word_of_int len))
          (\<lambda>(rest, q). Inr (\<lparr>seg_len = len, seg_buf = p + 4\<rparr> # rest, q)))"

definition sga_decode :: "mem \<Rightarrow> addr \<Rightarrow> (psm_sgarray \<times> int) result" where
  "sga_decode m buf =
     (let n = sint (m buf) in
      bind_result (sga_loop m 0 (nat n) (buf + 1))
        (\<lambda>(ss, p). Inr (\<lparr>num_segs = n, segs = ss\<rparr>, sint (ucast (p - buf) :: u32))))"

text \<open>The lambda: decode, call the application, return the length.\<close>

definition sga_consume ::
  "('s \<Rightarrow> mem) \<Rightarrow> (psm_sgarray \<Rightarrow> 's \<Rightarrow> 's result option) \<Rightarrow> addr \<Rightarrow> 's \<Rightarrow> (int \<times> 's) result option" where
  "sga_consume mem_of consume_func buf s =
     (case sga_decode (mem_of s) buf of
        Inl e \<Rightarrow> Some (Inl e)
      | Inr (sga, n) \<Rightarrow> bind_ro (consume_func sga s) (\<lambda>s'. Some (Inr (n, s'))))"

section \<open>Messages\<close>

definition encode_seg :: "byte list \<Rightarrow> byte list" where
  "encode_seg bs = le_bytes 4 (of_nat (length bs) :: u32) @ bs"

definition sga_encode :: "byte list list \<Rightarrow> byte list" where
  "sga_encode ss = of_nat (length ss) # concat (map encode_seg ss)"

definition sga_ok :: "byte list list \<Rightarrow> bool" where
  "sga_ok ss \<longleftrightarrow> ss \<noteq> [] \<and> length ss \<le> PSM_SGARRAY_MAXSIZE \<and> round64 (length (sga_encode ss)) < RING"

text \<open>The segments as the decoder finds them from \<open>p\<close> on.\<close>

fun located :: "byte list list \<Rightarrow> addr \<Rightarrow> psm_sgaseg list" where
  "located [] p = []"
| "located (bs # ss) p = \<lparr>seg_len = int (length bs), seg_buf = p + 4\<rparr> # located ss (p + of_nat (length (encode_seg bs)))"

lemma length_encode_seg [simp]: "length (encode_seg bs) = 4 + length bs"
  by (simp add: encode_seg_def del: le_bytes.simps)

lemma sga_loop_encode:
  assumes "rd m p (length (concat (map encode_seg ss))) = concat (map encode_seg ss)"
    and "i + length ss \<le> PSM_SGARRAY_MAXSIZE" and "length (concat (map encode_seg ss)) < RING"
  shows "sga_loop m i (length ss) p = Inr (located ss p, p + of_nat (length (concat (map encode_seg ss))))"
  using assms
proof (induction ss arbitrary: i p)
  case Nil
  then show ?case by simp
next
  case (Cons bs ss)
  let ?rest = "concat (map encode_seg ss)"
  have r: "rd m p (length (encode_seg bs @ ?rest)) = encode_seg bs @ ?rest" using Cons.prems(1) by simp
  have hd4: "rd m p 4 = le_bytes 4 (of_nat (length bs) :: u32)"
    using rd_split(1) [OF rd_split(1) [OF r, unfolded encode_seg_def]] by (simp del: le_bytes.simps)
  have lb: "length bs < RING" using Cons.prems(3) by simp
  have len: "sint (le_word (rd m p 4) :: u32) = int (length bs)"
    unfolding hd4 le_word_le_bytes32 using lb by (simp add: signed_of_nat signed_take_bit_int_eq_self)
  have nxt: "p + 4 + word_of_int (int (length bs)) = p + of_nat (length (encode_seg bs))" by simp
  have "rd m (p + of_nat (length (encode_seg bs))) (length ?rest) = ?rest" by (rule rd_split(2) [OF r])
  then have "sga_loop m (Suc i) (length ss) (p + of_nat (length (encode_seg bs))) =
      Inr (located ss (p + of_nat (length (encode_seg bs))), p + of_nat (length (encode_seg bs)) + of_nat (length ?rest))"
    by (rule Cons.IH) (use Cons.prems in auto)
  moreover have "i < PSM_SGARRAY_MAXSIZE" using Cons.prems(2) by simp
  ultimately show ?case unfolding list.size sga_loop.simps by (simp add: Let_def len nxt [simplified] add.assoc)
qed

lemma sga_decode_encode:
  assumes ok: "sga_ok ss" and r: "rd m a (length (sga_encode ss)) = sga_encode ss"
  shows "sga_decode m a = Inr (\<lparr>num_segs = int (length ss), segs = located ss (a + 1)\<rparr>, int (length (sga_encode ss)))"
proof -
  let ?rest = "concat (map encode_seg ss)"
  have l: "length ss \<le> 10" "length (sga_encode ss) < RING" "length ?rest < RING"
    using ok round64_bounds(1) [of "length (sga_encode ss)"] by (auto simp: sga_ok_def PSM_SGARRAY_MAXSIZE_def sga_encode_def)
  have r': "rd m a (length ([of_nat (length ss)] @ ?rest)) = [of_nat (length ss)] @ ?rest" using r by (simp add: sga_encode_def)
  have "m a = of_nat (length ss)" using rd_split(1) [OF r'] by (simp add: rd_def)
  then have n: "sint (m a) = int (length ss)"
    using l(1) by (simp add: signed_of_nat signed_take_bit_int_eq_self)
  have "sga_loop m 0 (length ss) (a + 1) = Inr (located ss (a + 1), a + 1 + of_nat (length ?rest))"
    using rd_split(2) [OF r'] l ok by (intro sga_loop_encode) (auto simp: sga_ok_def)
  moreover have "sint (ucast (1 + of_nat (length ?rest) :: u64) :: u32) = int (length (sga_encode ss))"
  proof -
    have "unat (of_nat (length (sga_encode ss)) :: u64) = length (sga_encode ss)"
      using l(2) by (intro unat_of_nat_small) simp
    then have "(ucast (of_nat (length (sga_encode ss)) :: u64) :: u32) = of_nat (length (sga_encode ss))"
      using of_nat_unat [of "of_nat (length (sga_encode ss)) :: u64", where 'a = u32] by simp
    moreover have "sint (of_nat (length (sga_encode ss)) :: u32) = int (length (sga_encode ss))"
      using l(2) by (simp add: signed_of_nat signed_take_bit_int_eq_self)
    moreover have "(1 + of_nat (length ?rest) :: u64) = of_nat (length (sga_encode ss))"
      by (simp add: sga_encode_def)
    ultimately show ?thesis by (simp only:)
  qed
  ultimately show ?thesis by (simp add: sga_decode_def n)
qed

definition sga_messages :: "byte list set" where
  "sga_messages = {sga_encode ss |ss. sga_ok ss}"

definition sga_len :: "mem \<Rightarrow> addr \<Rightarrow> nat" where
  "sga_len m a = (case sga_decode m a of Inl _ \<Rightarrow> 0 | Inr (_, n) \<Rightarrow> nat n)"

lemma sga_entry_ok: "sga_ok ss \<Longrightarrow> entry_ok (sga_encode ss)"
proof -
  assume ok: "sga_ok ss"
  then have "0 < length ss" "length ss < 256" by (auto simp: sga_ok_def PSM_SGARRAY_MAXSIZE_def)
  then have "(of_nat (length ss) :: byte) \<noteq> 0" by (simp add: word_eq_iff_unat unat_of_nat)
  with ok show ?thesis by (simp add: entry_ok_def sga_ok_def sga_encode_def)
qed

interpretation sga: message_format sga_len sga_messages
proof
  fix e m a
  assume "e \<in> sga_messages"
  then obtain ss where ss: "e = sga_encode ss" "sga_ok ss" by (auto simp: sga_messages_def)
  then show "entry_ok e" by (simp add: sga_entry_ok)
  show "sga_len m a = length e" if "rd m a (length e) = e"
    using sga_decode_encode [OF ss(2)] that ss(1) by (simp add: sga_len_def)
qed

section \<open>Properties\<close>

lemma located_bytes:
  assumes "rd m p (length (concat (map encode_seg ss))) = concat (map encode_seg ss)"
  shows "map (\<lambda>g. rd m (seg_buf g) (nat (seg_len g))) (located ss p) = ss"
  using assms
proof (induction ss arbitrary: p)
  case Nil
  then show ?case by simp
next
  case (Cons bs ss)
  let ?rest = "concat (map encode_seg ss)"
  have r: "rd m p (length (encode_seg bs @ ?rest)) = encode_seg bs @ ?rest" using Cons.prems by simp
  have "rd m (p + of_nat (length (le_bytes 4 (of_nat (length bs) :: u32)))) (length bs) = bs"
    by (rule rd_split(2) [OF rd_split(1) [OF r, unfolded encode_seg_def]])
  then have "rd m (p + 4) (length bs) = bs" by (simp del: le_bytes.simps)
  with Cons.IH [OF rd_split(2) [OF r]] show ?case by simp
qed

text \<open>
  C26. Scatter-gather messages round-trip: of a message of up to ten segments in memory, the decoder
  of \<open>bg_run\<close> finds every segment with its bytes and reports the length of the whole message.
\<close>

theorem sga_roundtrip:
  assumes "sga_ok ss" and "rd m a (length (sga_encode ss)) = sga_encode ss"
  shows "\<exists>sga. sga_decode m a = Inr (sga, int (length (sga_encode ss))) \<and>
           map (\<lambda>g. rd m (seg_buf g) (nat (seg_len g))) (segs sga) = ss"
proof -
  have r': "rd m a (length ([of_nat (length ss)] @ concat (map encode_seg ss))) = [of_nat (length ss)] @ concat (map encode_seg ss)"
    using assms(2) by (simp add: sga_encode_def)
  have "map (\<lambda>g. rd m (seg_buf g) (nat (seg_len g))) (located ss (a + 1)) = ss"
    using located_bytes [OF rd_split(2) [OF r']] by simp
  with sga_decode_encode [OF assms] show ?thesis by simp
qed

theorem sga_roundtrip_witness:
  "sga_ok [[1, 2], [3]] \<and>
   (\<exists>sga. sga_decode (wr 4096 (sga_encode [[1, 2], [3]]) (\<lambda>_. 0)) 4096 = Inr (sga, int (length (sga_encode [[1, 2], [3]]))) \<and>
      map (\<lambda>g. rd (wr 4096 (sga_encode [[1, 2], [3]]) (\<lambda>_. 0)) (seg_buf g) (nat (seg_len g))) (segs sga) = [[1, 2], [3]])"
proof -
  have ok: "sga_ok [[1, 2], [3]]"
    by (simp add: sga_ok_def PSM_SGARRAY_MAXSIZE_def sga_encode_def round64_def)
  moreover have "rd (wr 4096 (sga_encode [[1, 2], [3]]) (\<lambda>_. 0)) 4096 (length (sga_encode [[1, 2], [3]])) = sga_encode [[1, 2], [3]]"
    by (rule rd_wr_same) (simp add: sga_encode_def)
  ultimately show ?thesis using sga_roundtrip by blast
qed

text \<open>
  C27. The decoder does not check the number of segments against the size of its array: a message
  that announces more than ten makes it write past \<open>sga.segs\<close>.
\<close>

theorem sga_too_many_segments:
  assumes "sint (m a) > int PSM_SGARRAY_MAXSIZE"
  shows "sga_decode m a = Inl (Undefined ''sga.segs[i]'')"
proof -
  have "sga_loop m i k p = Inl (Undefined ''sga.segs[i]'')" if "i + k > PSM_SGARRAY_MAXSIZE" "i \<le> PSM_SGARRAY_MAXSIZE" for i k p
    using that
  proof (induction k arbitrary: i p)
    case (Suc k)
    then show ?case by (cases "i = PSM_SGARRAY_MAXSIZE") (simp_all add: Let_def)
  qed simp
  from this [of 0 "nat (sint (m a))" "a + 1"] assms show ?thesis
    by (simp add: sga_decode_def zless_nat_eq_int_zless)
qed

theorem sga_too_many_segments_witness:
  "sint ((\<lambda>_. 11) (0 :: addr) :: byte) > int PSM_SGARRAY_MAXSIZE \<and>
   sga_decode (\<lambda>_. 11) 0 = Inl (Undefined ''sga.segs[i]'')"
  using sga_too_many_segments [of "\<lambda>_. 11" 0] by (simp add: PSM_SGARRAY_MAXSIZE_def)

end
