(* ===== verification/Psm_Props.thy ===== *)
theory Psm_Props
  imports Sga
begin

text \<open>
  The properties of the operation log: the circular buffer refines a FIFO queue, an available
  entry is always delivered, a reservation returns as soon as there is room, and the two
  cases in which the reservation goes wrong.
\<close>

text \<open>A log just constructed, with both processes at zero, is the empty queue.\<close>

lemma ring_state_empty:
  assumes "base_ok (log_base s)" and "wf_pm (psm_mem s)"
    and "head s = 0" "tail s = 0" "local_head s = 0" "local_tail s = 0"
  shows "ring_state E s [] []"
proof -
  have "counters 0 0 0 0 s" using assms by (simp add: counters_def)
  then show ?thesis using assms unfolding ring_state_def ring_rep_def by fastforce
qed

text \<open>
  C21. The circular buffer refines a FIFO queue. Take any interleaving of pushes, commits and
  consumptions, on messages that determine their own length, from an empty log. What the consume
  function has been called on so far is, entry by entry and byte by byte, a prefix of
  what was pushed; and the rest is in the buffer, the committed entries in front of the
  pending ones.
\<close>

theorem psm_log_refines_fifo:
  assumes "message_format parse E" and "ring_state E s0 [] []"
    and "fifo_run (ring_push E) ring_publish (ring_take parse) s0 ins outs s"
  shows "\<exists>qs ps. ring_state E s qs ps \<and> ins = outs @ qs @ ps"
  by (rule fifo_log.run_fifo [OF message_format.ring_fifo_log [OF assms(1)] assms(3,2)])

abbreviation demo_psm :: psm where
  "demo_psm \<equiv> \<lparr>log_base = 0x100000, mode = PSM_MODE_UNDO, head = 0, tail = 0, local_head = 0, local_tail = 0,
     psm_mem = boot (\<lambda>_. 0)\<rparr>"

lemma demo_psm_state: "ring_state E demo_psm [] []"
  by (rule ring_state_empty) (simp_all add: base_ok_def)

abbreviation demo_copy :: "addr \<Rightarrow> byte list \<Rightarrow> pmem \<Rightarrow> pmem" where
  "demo_copy \<equiv> store_bytes"

lemma demo_copies: "copies demo_copy"
  by (simp add: copies_def wf_store_bytes)

lemma demo_message: "sga_encode [[1]] \<in> sga_messages"
proof -
  have "sga_ok [[1]]" by (simp add: sga_ok_def PSM_SGARRAY_MAXSIZE_def sga_encode_def round64_def)
  then show ?thesis unfolding sga_messages_def by blast
qed

lemma demo_push:
  "\<exists>s1. ring_push sga_messages (sga_encode [[1]]) demo_psm s1 \<and> ring_state sga_messages s1 [] [sga_encode [[1]]]"
proof -
  let ?e = "sga_encode [[1]]"
  have c: "counters 0 0 0 0 demo_psm" and b: "base_ok (log_base demo_psm)" by (simp_all add: counters_def base_ok_def)
  have ok: "entry_ok ?e" by (rule sga.message_ok [OF demo_message])
  have "0 + span 0 ?e < 0 + RING" by (simp add: span_def pad_def sga_encode_def round64_def)
  then obtain res where res: "psm_push demo_copy (\<lambda>_. tail demo_psm) ?e demo_psm = Some res"
    using psm_push_returns [OF c b ok] by blast
  have "ring_rep demo_psm [] []" "wf_pm (psm_mem demo_psm)" using demo_psm_state by (auto simp: ring_state_def)
  from psm_push_some [OF this(1) ok demo_copies this(2) res] res demo_message demo_copies show ?thesis
    unfolding ring_push_def ring_state_def by auto
qed

theorem psm_log_refines_fifo_witness:
  "\<exists>s1 s2 s3. ring_push sga_messages (sga_encode [[1]]) demo_psm s1 \<and> ring_publish s1 s2 \<and>
     ring_take sga_len (sga_encode [[1]]) s2 s3 \<and> ring_state sga_messages s3 [] []"
proof -
  let ?e = "sga_encode [[1]]"
  obtain s1 where s1: "ring_push sga_messages ?e demo_psm s1" "ring_state sga_messages s1 [] [?e]" using demo_push by blast
  then obtain s2 where s2: "ring_publish s1 s2" "ring_state sga_messages s2 ([] @ [?e]) []"
    using psm_commit_correct [of s1 "[]" "[?e]" True] by (auto simp: ring_publish_def ring_state_def)
  then obtain s3 where s3: "ring_take sga_len ?e s2 s3"
    using ring_take_available [OF sga.message_format_axioms, of s2 ?e "[]" "[]"] by auto
  have "fifo_run (ring_push sga_messages) ring_publish (ring_take sga_len) demo_psm ([] @ [?e]) ([] @ [?e]) s3"
    by (rule fifo_run.take_one [of _ _ _ _ _ _ s2], rule fifo_run.publish [of _ _ _ _ _ _ s1], rule fifo_run.push [of _ _ _ _ _ _ demo_psm])
      (use s1 s2 s3 in \<open>simp_all add: fifo_run.start\<close>)
  from psm_log_refines_fifo [OF sga.message_format_axioms demo_psm_state this] have "ring_state sga_messages s3 [] []" by auto
  with s1 s2 s3 show ?thesis by blast
qed

text \<open>
  C22. Liveness of the log: a committed entry is delivered by the next consumption, and a push
  returns, with the entry pending, whenever the entry and its padding fit beside what has not
  been consumed.
\<close>

theorem psm_log_live:
  assumes "message_format parse E" and "ring_state E s qs ps"
  shows "(\<forall>e qs'. qs = e # qs' \<longrightarrow> (\<exists>s'. ring_take parse e s s' \<and> ring_state E s' qs' ps)) \<and>
    (\<forall>e mc lt t h l. e \<in> E \<longrightarrow> copies mc \<longrightarrow> counters lt t h l s \<longrightarrow> l + span l e < t + RING \<longrightarrow>
       (\<exists>s'. psm_push mc (\<lambda>_. tail s) e s = Some (Inr s') \<and> ring_state E s' qs (ps @ [e])))"
proof (intro conjI allI impI)
  fix e qs'
  assume q: "qs = e # qs'"
  then obtain s' where "ring_take parse e s s'" using ring_take_available [OF assms(1)] assms(2) by blast
  with ring_take_state [OF assms(1,2) this] q show "\<exists>s'. ring_take parse e s s' \<and> ring_state E s' qs' ps" by blast
next
  fix e mc lt t h l
  assume e: "e \<in> E" and mc: "copies mc" and c: "counters lt t h l s" and room: "l + span l e < t + RING"
  have ok: "entry_ok e" using message_format.message_ok [OF assms(1) e] .
  have st: "ring_rep s qs ps" "wf_pm (psm_mem s)" "base_ok (log_base s)"
    using assms(2) by (auto simp: ring_state_def ring_rep_def)
  obtain res where res: "psm_push mc (\<lambda>_. tail s) e s = Some res"
    using psm_push_returns [OF c st(3) ok room] by blast
  from psm_push_some [OF st(1) ok mc st(2) res] res assms(2) e
  show "\<exists>s'. psm_push mc (\<lambda>_. tail s) e s = Some (Inr s') \<and> ring_state E s' qs (ps @ [e])"
    by (auto simp: ring_state_def)
qed

theorem psm_log_live_witness:
  "\<exists>s'. psm_push demo_copy (\<lambda>_. tail demo_psm) (sga_encode [[1]]) demo_psm = Some (Inr s') \<and>
     ring_state sga_messages s' [] [sga_encode [[1]]]"
proof -
  have "counters 0 0 0 0 demo_psm" by (simp add: counters_def)
  moreover have "0 + span 0 (sga_encode [[1]]) < 0 + RING"
    by (simp add: span_def pad_def sga_encode_def round64_def)
  ultimately show ?thesis
    using conjunct2 [OF psm_log_live [OF sga.message_format_axioms demo_psm_state]] demo_message demo_copies by force
qed

text \<open>
  C24. A reservation that never returns. The assertion of \<open>psm_reserve\<close> admits entries of up to
  the log size minus one. But when the entry does not fit before the end, the rest of the
  buffer is added to its length; if the sum reaches the size of the log, the loop cannot end,
  whatever the consumer does, even on an empty log.
\<close>

theorem psm_reserve_never_returns:
  assumes "counters lt t h l s" and "base_ok (log_base s)" and "entry_ok e" and "RING \<le> span l e"
  shows "psm_reserve loads (of_nat (length e)) s = None"
proof -
  have sp: "span l e < 18446744073709551616"
    using assms(3) pad_le [of l e] by (simp add: span_def entry_ok_def)
  have "free_space r (local_head s) < of_nat (span l e)" for r
  proof -
    have "unat (free_space r (local_head s)) < RING"
      by (simp add: free_space_def psm_log_size unat_mod)
    then show ?thesis using assms(4) unat_of_nat_small [OF sp] by (simp add: word_less_nat_alt)
  qed
  then have "reserve_spin loads (local_head s) (of_nat (span l e)) 0 (local_tail s) = None"
    using reserve_spin_sound [of loads "local_head s" "of_nat (span l e)" 0 "local_tail s"] by (metis not_None_eq)
  then show ?thesis by (simp add: psm_reserve_eq [OF assms(1-3)])
qed

theorem psm_reserve_never_returns_witness:
  "\<exists>s. ring_state sga_messages s [] [] \<and> (\<forall>loads. psm_reserve loads 800000 s = None)"
proof -
  let ?s = "demo_psm\<lparr>head := 786432, tail := 786432, local_head := 786432, local_tail := 786432\<rparr>"
  have c: "counters 786432 786432 786432 786432 ?s" by (simp add: counters_def)
  have b: "base_ok (log_base ?s)" by (simp add: base_ok_def)
  obtain e :: "byte list" where len: "length e = 800000" and e0: "e \<noteq> []" "hd e \<noteq> 0"
    using that [of "replicate 800000 1"] by (simp only: length_replicate) (simp add: hd_replicate)
  have e: "entry_ok e" using len e0 by (simp add: entry_ok_def round64_def)
  have "RING \<le> span 786432 e" using len by (simp add: span_def pad_def round64_def)
  then have "psm_reserve loads (of_nat (length e)) ?s = None" for loads
    by (rule psm_reserve_never_returns [OF c b e])
  then have "\<forall>loads. psm_reserve loads 800000 ?s = None" unfolding len by simp
  moreover have "ring_state sga_messages ?s [] []"
    unfolding ring_state_def ring_rep_def using c b by fastforce
  ultimately show ?thesis by blast
qed

text \<open>
  C25. Rounding up to cache lines is 32-bit arithmetic on a 64-bit length: the sum with 63 is reduced modulo
  \<open>2 ^ 32\<close> by the mask, whatever the length. The result is the least multiple of 64 that is at least the
  length if and only if the length is at most \<open>2 ^ 32 - 64\<close>; from there on it is wrong, so
  \<open>2 ^ 32 - 1\<close> is rounded to 0, and four gigabytes and one byte pass both assertions of
  \<open>psm_reserve\<close> with 64 bytes reserved.
\<close>

theorem align_to_cache_line_size_correct:
  "unat (align_to_cache_line_size len) = 64 * ((unat len + 63) mod 2 ^ 32 div 64) \<and>
   (unat (align_to_cache_line_size len) mod 64 = 0 \<and> unat len \<le> unat (align_to_cache_line_size len) \<and>
      unat (align_to_cache_line_size len) < unat len + 64 \<longleftrightarrow> unat len \<le> 2 ^ 32 - 64)"
proof
  show a: "unat (align_to_cache_line_size len) = 64 * ((unat len + 63) mod 2 ^ 32 div 64)" by (rule unat_align)
  have "64 * ((unat len + 63) mod 2 ^ 32 div 64) < unat len" if "2 ^ 32 - 64 < unat len"
  proof -
    have "unat len + 63 \<ge> 2 ^ 32" using that by simp
    then have "(unat len + 63) mod 2 ^ 32 < unat len"
      using mod_le_divisor [of "2 ^ 32" "unat len + 63"] le_mod_geq [of "2 ^ 32" "unat len + 63"]
        mod_less_eq_dividend [of "unat len + 63 - 2 ^ 32" "2 ^ 32"] by simp
    then show ?thesis using times_div_less_eq_dividend [of 64 "(unat len + 63) mod 2 ^ 32"] by linarith
  qed
  moreover have "unat (align_to_cache_line_size len) = round64 (unat len)" if "unat len \<le> 2 ^ 32 - 64"
    using that by (simp add: unat_align_small)
  ultimately show "unat (align_to_cache_line_size len) mod 64 = 0 \<and> unat len \<le> unat (align_to_cache_line_size len) \<and>
      unat (align_to_cache_line_size len) < unat len + 64 \<longleftrightarrow> unat len \<le> 2 ^ 32 - 64"
    using round64_bounds [of "unat len"] a by (metis not_le)
qed

end
