(* ===== verification/My_Libc.thy ===== *)
theory My_Libc
  imports Prelude
begin

text \<open>
  The system call wrappers of \<^verbatim>\<open>src/src/undo/my_libc/my_libc.cc\<close>. The kernel is not part of the
  program: it is a parameter, a function of the registers at the \<^verbatim>\<open>syscall\<close> instruction and of
  a world \<open>'w\<close>. A pointer to a string or to a local object is passed as the object; a pointer
  into the address space is passed as a number. Beside the value of \<^verbatim>\<open>rax\<close> the kernel returns
  the bytes it stored into a local buffer.
\<close>

section \<open>The system call interface\<close>

datatype sysarg = Num u64 | Str string | Buf "byte list" | Out nat

datatype reg = RAX | RDI | RSI | RDX | R10 | R8 | R9

type_synonym regs = "reg \<rightharpoonup> sysarg"
type_synonym 'w kernel = "regs \<Rightarrow> 'w \<Rightarrow> (u64 \<times> byte list) \<times> 'w"

text \<open>The numbers of \<^verbatim>\<open>sys/syscall.h\<close> and the flags of the system headers on x86-64.\<close>

abbreviation (input) SYS_read :: int where "SYS_read \<equiv> 0"
abbreviation (input) SYS_write :: int where "SYS_write \<equiv> 1"
abbreviation (input) SYS_open :: int where "SYS_open \<equiv> 2"
abbreviation (input) SYS_close :: int where "SYS_close \<equiv> 3"
abbreviation (input) SYS_fstat :: int where "SYS_fstat \<equiv> 5"
abbreviation (input) SYS_mmap :: int where "SYS_mmap \<equiv> 9"
abbreviation (input) SYS_munmap :: int where "SYS_munmap \<equiv> 11"
abbreviation (input) SYS_brk :: int where "SYS_brk \<equiv> 12"
abbreviation (input) SYS_dup2 :: int where "SYS_dup2 \<equiv> 33"
abbreviation (input) SYS_fsync :: int where "SYS_fsync \<equiv> 74"
abbreviation (input) SYS_ftruncate :: int where "SYS_ftruncate \<equiv> 77"
abbreviation (input) SYS_getdents :: int where "SYS_getdents \<equiv> 78"
abbreviation (input) SYS_setsid :: int where "SYS_setsid \<equiv> 112"
abbreviation (input) SYS_openat :: int where "SYS_openat \<equiv> 257"
abbreviation (input) SYS_mkdirat :: int where "SYS_mkdirat \<equiv> 258"
abbreviation (input) SYS_unlinkat :: int where "SYS_unlinkat \<equiv> 263"
abbreviation (input) SYS_renameat :: int where "SYS_renameat \<equiv> 264"

abbreviation (input) O_RDONLY :: int where "O_RDONLY \<equiv> 0"
abbreviation (input) O_WRONLY :: int where "O_WRONLY \<equiv> 1"
abbreviation (input) O_RDWR :: int where "O_RDWR \<equiv> 2"
abbreviation (input) O_CREAT :: int where "O_CREAT \<equiv> 64"
abbreviation (input) O_EXCL :: int where "O_EXCL \<equiv> 128"
abbreviation (input) O_APPEND :: int where "O_APPEND \<equiv> 1024"
abbreviation (input) O_DIRECTORY :: int where "O_DIRECTORY \<equiv> 65536"

abbreviation (input) PROT_READ :: int where "PROT_READ \<equiv> 1"
abbreviation (input) PROT_WRITE :: int where "PROT_WRITE \<equiv> 2"
abbreviation (input) PROT_EXEC :: int where "PROT_EXEC \<equiv> 4"

abbreviation (input) MAP_PRIVATE :: int where "MAP_PRIVATE \<equiv> 2"
abbreviation (input) MAP_SHARED_VALIDATE :: int where "MAP_SHARED_VALIDATE \<equiv> 3"
abbreviation (input) MAP_FIXED :: int where "MAP_FIXED \<equiv> 16"
abbreviation (input) MAP_ANONYMOUS :: int where "MAP_ANONYMOUS \<equiv> 32"
abbreviation (input) MAP_SYNC :: int where "MAP_SYNC \<equiv> 524288"
abbreviation (input) MAP_FAILED :: u64 where "MAP_FAILED \<equiv> - 1"

abbreviation (input) ENOENT :: int where "ENOENT \<equiv> 2"
abbreviation (input) EAGAIN :: int where "EAGAIN \<equiv> 11"
abbreviation (input) EEXIST :: int where "EEXIST \<equiv> 17"
abbreviation (input) EINVAL :: int where "EINVAL \<equiv> 22"
abbreviation (input) ENOTSUP :: int where "ENOTSUP \<equiv> 95"

section \<open>The wrappers\<close>

text \<open>
  The overloads of \<open>syscall\<close> put the number into \<^verbatim>\<open>rax\<close> and as many arguments as they have into
  \<^verbatim>\<open>rdi\<close>, \<^verbatim>\<open>rsi\<close>, \<^verbatim>\<open>rdx\<close>, \<^verbatim>\<open>r10\<close>, \<^verbatim>\<open>r8\<close> and \<^verbatim>\<open>r9\<close>, in this order.
\<close>

definition syscall_regs :: "int \<Rightarrow> sysarg list \<Rightarrow> regs" where
  "syscall_regs num args = (map_of (zip [RDI, RSI, RDX, R10, R8, R9] args))(RAX \<mapsto> Num (word_of_int num))"

definition syscall :: "'w kernel \<Rightarrow> int \<Rightarrow> sysarg list \<Rightarrow> 'w \<Rightarrow> (u64 \<times> byte list) \<times> 'w" where
  "syscall k num args w = k (syscall_regs num args) w"

text \<open>Narrowing \<open>ssize_t\<close> to \<open>int\<close>.\<close>

definition to_int :: "u64 \<Rightarrow> int" where
  "to_int r = sint (ucast r :: u32)"

abbreviation (input) int_call :: "'w kernel \<Rightarrow> int \<Rightarrow> sysarg list \<Rightarrow> 'w \<Rightarrow> int \<times> 'w" where
  "int_call k num args w \<equiv> (case syscall k num args w of ((r, _), w') \<Rightarrow> (to_int r, w'))"

abbreviation (input) num :: "int \<Rightarrow> sysarg" where
  "num i \<equiv> Num (word_of_int i)"

definition my_fsync :: "'w kernel \<Rightarrow> int \<Rightarrow> 'w \<Rightarrow> int \<times> 'w" where
  "my_fsync k fd w = int_call k SYS_fsync [num fd] w"

definition my_close :: "'w kernel \<Rightarrow> int \<Rightarrow> 'w \<Rightarrow> int \<times> 'w" where
  "my_close k fd w = int_call k SYS_close [num fd] w"

definition my_open :: "'w kernel \<Rightarrow> string \<Rightarrow> int \<Rightarrow> int \<Rightarrow> 'w \<Rightarrow> int \<times> 'w" where
  "my_open k pathname flags mode w = int_call k SYS_open [Str pathname, num flags, num mode] w"

definition my_openat :: "'w kernel \<Rightarrow> int \<Rightarrow> string \<Rightarrow> int \<Rightarrow> int \<Rightarrow> 'w \<Rightarrow> int \<times> 'w" where
  "my_openat k dirfd pathname flags mode w =
     int_call k SYS_openat [num dirfd, Str pathname, num flags, num mode] w"

definition my_unlinkat :: "'w kernel \<Rightarrow> int \<Rightarrow> string \<Rightarrow> int \<Rightarrow> 'w \<Rightarrow> int \<times> 'w" where
  "my_unlinkat k fd name flag w = int_call k SYS_unlinkat [num fd, Str name, num flag] w"

definition my_ftruncate :: "'w kernel \<Rightarrow> int \<Rightarrow> int \<Rightarrow> 'w \<Rightarrow> int \<times> 'w" where
  "my_ftruncate k fd len w = int_call k SYS_ftruncate [num fd, num len] w"

definition my_write :: "'w kernel \<Rightarrow> int \<Rightarrow> sysarg \<Rightarrow> u64 \<Rightarrow> 'w \<Rightarrow> int \<times> 'w" where
  "my_write k fd buf count w =
     (case syscall k SYS_write [num fd, buf, Num count] w of ((r, _), w') \<Rightarrow> (sint r, w'))"

definition my_read :: "'w kernel \<Rightarrow> int \<Rightarrow> sysarg \<Rightarrow> u64 \<Rightarrow> 'w \<Rightarrow> (int \<times> byte list) \<times> 'w" where
  "my_read k fd buf count w =
     (case syscall k SYS_read [num fd, buf, Num count] w of ((r, bs), w') \<Rightarrow> ((sint r, bs), w'))"

definition my_renameat :: "'w kernel \<Rightarrow> int \<Rightarrow> string \<Rightarrow> int \<Rightarrow> string \<Rightarrow> 'w \<Rightarrow> int \<times> 'w" where
  "my_renameat k olddirfd oldpath newdirfd newpath w =
     int_call k SYS_renameat [num olddirfd, Str oldpath, num newdirfd, Str newpath] w"

definition my_mmap :: "'w kernel \<Rightarrow> u64 \<Rightarrow> u64 \<Rightarrow> int \<Rightarrow> int \<Rightarrow> int \<Rightarrow> int \<Rightarrow> 'w \<Rightarrow> u64 \<times> 'w" where
  "my_mmap k addr len prot flags fd offset w =
     (case syscall k SYS_mmap [Num addr, Num len, num prot, num flags, num fd, num offset] w of
        ((r, _), w') \<Rightarrow> (r, w'))"

definition my_munmap :: "'w kernel \<Rightarrow> u64 \<Rightarrow> u64 \<Rightarrow> 'w \<Rightarrow> int \<times> 'w" where
  "my_munmap k addr len w = int_call k SYS_munmap [Num addr, Num len] w"

definition my_dup2 :: "'w kernel \<Rightarrow> int \<Rightarrow> int \<Rightarrow> 'w \<Rightarrow> int \<times> 'w" where
  "my_dup2 k oldfd newfd w = int_call k SYS_dup2 [num oldfd, num newfd] w"

definition my_setsid :: "'w kernel \<Rightarrow> 'w \<Rightarrow> int \<times> 'w" where
  "my_setsid k w = int_call k SYS_setsid [] w"

definition my_mkdirat :: "'w kernel \<Rightarrow> int \<Rightarrow> string \<Rightarrow> int \<Rightarrow> 'w \<Rightarrow> int \<times> 'w" where
  "my_mkdirat k dirfd pathname mode w = int_call k SYS_mkdirat [num dirfd, Str pathname, num mode] w"

definition my_getdents :: "'w kernel \<Rightarrow> int \<Rightarrow> sysarg \<Rightarrow> int \<Rightarrow> 'w \<Rightarrow> (int \<times> byte list) \<times> 'w" where
  "my_getdents k dirfd dirp count w =
     (case syscall k SYS_getdents [num dirfd, dirp, num count] w of ((r, bs), w') \<Rightarrow> ((to_int r, bs), w'))"

definition my_fstat :: "'w kernel \<Rightarrow> int \<Rightarrow> sysarg \<Rightarrow> 'w \<Rightarrow> (int \<times> byte list) \<times> 'w" where
  "my_fstat k fd statbuf w =
     (case syscall k SYS_fstat [num fd, statbuf] w of ((r, bs), w') \<Rightarrow> ((to_int r, bs), w'))"

section \<open>Results\<close>

text \<open>
  The kernel reports an error as a value between -4095 and -1. Narrowing to \<open>int\<close> keeps errors and
  all results below \<open>2 ^ 31\<close>.
\<close>

definition int_range :: "u64 \<Rightarrow> bool" where
  "int_range r \<longleftrightarrow> - 2147483648 \<le> sint r \<and> sint r < 2147483648"

lemma to_int_exact [simp]:
  assumes "int_range r"
  shows "to_int r = sint r"
proof -
  have "sint (ucast r :: u32) = signed_take_bit 31 (uint r)"
    by (simp add: signed_ucast_eq unsigned_ucast_eq)
  also have "\<dots> = signed_take_bit 31 (signed_take_bit 63 (uint r))"
    by (rule bit_eqI) (auto simp: bit_simps min_def)
  also have "\<dots> = signed_take_bit 31 (sint r)" using sint_uint [of r] by simp
  also have "\<dots> = sint r"
    using assms by (intro signed_take_bit_int_eq_self) (simp_all add: int_range_def)
  finally show ?thesis by (simp add: to_int_def)
qed

text \<open>Numbers that an \<open>int\<close> holds.\<close>

definition int32 :: "int \<Rightarrow> bool" where
  "int32 i \<longleftrightarrow> - 2147483648 \<le> i \<and> i < 2147483648"

lemma to_int_of [simp]: "int32 i \<Longrightarrow> to_int (word_of_int i) = i"
  unfolding int32_def to_int_def
  by (simp add: signed_ucast_eq signed_of_int signed_take_bit_int_eq_self take_bit_of_int unsigned_of_int
      signed_take_bit_take_bit)

lemma int32_numeral [simp]: "int32 0" "int32 1" "int32 (- 1)" "numeral n < (2147483648 :: int) \<Longrightarrow> int32 (numeral n)"
  by (auto simp: int32_def)

lemma int32_I: "0 \<le> i \<Longrightarrow> i < 2147483648 \<Longrightarrow> int32 i"
  by (simp add: int32_def)

end
