(* ===== verification/Mem_Region.thy ===== *)
theory Mem_Region
  imports Region Ranges My_Libc
begin

text \<open>
  The manager of memory regions: \<^verbatim>\<open>src/src/undo/mem_region/mem_region.cc\<close> and \<^verbatim>\<open>mem_region.h\<close>, and the
  foreground's side of recovery, \<^verbatim>\<open>src/src/undo/mem_region/fg.cc\<close>. Operations take the manager and the
  world of the kernel and return both. Parameters: the kernel, DynamoRIO's random numbers and
  the contents of the padding bytes of a \<open>region\<close>. The error messages are not modelled.
\<close>

section \<open>State\<close>

record 'w env =
  kern :: "'w kernel"
  rnd :: "'w \<Rightarrow> u32 \<times> 'w"
  padding :: "region \<Rightarrow> byte list"

record mem_region_manager =
  pmem_dirfd :: int
  regions :: "region list"
  rs :: "range list"

datatype mrm_result = SUCCESS | NOT_MANAGED | ERROR

fun result_code :: "mrm_result \<Rightarrow> int" where
  "result_code SUCCESS = 0"
| "result_code NOT_MANAGED = 1"
| "result_code ERROR = - 1"

definition CURRENT_TABLE_FILE_NAME :: string where
  "CURRENT_TABLE_FILE_NAME = ''table.dat''"

definition NEW_TABLE_FILE_NAME :: string where
  "NEW_TABLE_FILE_NAME = ''new_table.dat''"

text \<open>The 24 bytes of a \<open>region\<close>: two words, a 32-bit id and four bytes of padding.\<close>

definition encode_region :: "(region \<Rightarrow> byte list) \<Rightarrow> region \<Rightarrow> byte list" where
  "encode_region pad r =
     le_bytes 8 (reg_base r) @ le_bytes 8 (reg_size r) @ le_bytes 4 (reg_file_id r) @ pad r"

definition decode_region :: "byte list \<Rightarrow> region" where
  "decode_region bs = \<lparr>reg_base = le_word (take 8 bs), reg_size = le_word (take 8 (drop 8 bs)),
     reg_file_id = le_word (take 4 (drop 16 bs))\<rparr>"

definition SHARED_FIXED :: int where
  "SHARED_FIXED = or MAP_FIXED (or MAP_SHARED_VALIDATE MAP_SYNC)"

definition RW :: int where
  "RW = or PROT_READ PROT_WRITE"

definition ANON_FIXED :: int where
  "ANON_FIXED = or MAP_PRIVATE (or MAP_ANONYMOUS MAP_FIXED)"

section \<open>Construction and recovery\<close>

definition mem_region_manager_init :: "'w env \<Rightarrow> string \<Rightarrow> 'w \<Rightarrow> (mem_region_manager \<times> 'w) result" where
  "mem_region_manager_init E pmem_path w =
     (let (fd, w1) = my_open (kern E) pmem_path O_DIRECTORY 0 w in
      dr_assert (fd \<ge> 0) ''open directory'' (Inr (\<lparr>pmem_dirfd = fd, regions = [], rs = []\<rparr>, w1)))"

definition add_region :: "region \<Rightarrow> mem_region_manager \<Rightarrow> mem_region_manager" where
  "add_region r m = m\<lparr>regions := regions m @ [r], rs := ranges_insert (reg_base r) (reg_size r) (rs m)\<rparr>"

text \<open>The body of the loop of \<open>recover\<close>, after a full read: map one region.\<close>

definition recover_region :: "'w env \<Rightarrow> region \<Rightarrow> mem_region_manager \<times> 'w \<Rightarrow> (mem_region_manager \<times> 'w) result" where
  "recover_region E r s =
     (case s of (m, w) \<Rightarrow>
      let (fd, w1) = my_openat (kern E) (pmem_dirfd m) (make_file_name r) O_RDWR 0 w in
      dr_assert (fd \<ge> 0) ''open region file failed''
        (let (ret, w2) = my_mmap (kern E) (reg_base r) (reg_size r) RW SHARED_FIXED fd 0 w1 in
         dr_assert (ret \<noteq> MAP_FAILED) ''mmap memory region file failed''
           (dr_assert (ret = reg_base r) ''mmap returned a different address?''
             (let (c, w3) = my_close (kern E) fd w2 in
              dr_assert (\<not> c < 0) ''close region file failed'' (Inr (add_region r m, w3))))))"

partial_function (option) recover_loop ::
  "'w env \<Rightarrow> int \<Rightarrow> mem_region_manager \<times> 'w \<Rightarrow> (int \<times> mem_region_manager \<times> 'w) result option" where
  "recover_loop E table_fd s =
     (case s of (m, w) \<Rightarrow>
      case my_read (kern E) table_fd (Out 24) 24 w of ((n, bs), w1) \<Rightarrow>
      let nread = to_int (word_of_int n) in
      if nread > 0
      then if nread \<noteq> 24 then Some (Inl (Assertion ''read too little''))
           else (case recover_region E (decode_region bs) (m, w1) of
                   Inl e \<Rightarrow> Some (Inl e)
                 | Inr s' \<Rightarrow> recover_loop E table_fd s')
      else Some (Inr (nread, m, w1)))"

definition recover :: "'w env \<Rightarrow> mem_region_manager \<times> 'w \<Rightarrow> (mem_region_manager \<times> 'w) result option" where
  "recover E s =
     (case s of (m, w) \<Rightarrow>
      let (table_fd, w1) = my_openat (kern E) (pmem_dirfd m) CURRENT_TABLE_FILE_NAME O_RDONLY 0 w in
      if \<not> table_fd \<ge> 0 then Some (Inl (Assertion ''open region table file failed''))
      else bind_ro (recover_loop E table_fd (m, w1)) (\<lambda>(nread, m2, w2).
        Some (dr_assert (nread = 0) ''read region table failed''
          (let (c, w3) = my_close (kern E) table_fd w2 in
           dr_assert (\<not> c < 0) ''close region table file failed'' (Inr (m2, w3))))))"

section \<open>Sending the regions to the foreground\<close>

text \<open>Writing one struct, with the two assertions that follow every such write.\<close>

definition write_region :: "'w env \<Rightarrow> int \<Rightarrow> region \<Rightarrow> 'w \<Rightarrow> 'w result" where
  "write_region E fd r w =
     (let (n, w1) = my_write (kern E) fd (Buf (encode_region (padding E) r)) 24 w;
          written = to_int (word_of_int n)
      in dr_assert (written \<ge> 0) ''write failed'' (dr_assert (written = 24) ''written less than asked'' (Inr w1)))"

fun write_regions :: "'w env \<Rightarrow> int \<Rightarrow> region list \<Rightarrow> 'w \<Rightarrow> 'w result" where
  "write_regions E fd [] w = Inr w"
| "write_regions E fd (r # xs) w = bind_result (write_region E fd r w) (write_regions E fd xs)"

definition sentinel :: region where
  "sentinel = \<lparr>reg_base = 0, reg_size = 0, reg_file_id = 0\<rparr>"

definition send_regions :: "'w env \<Rightarrow> int \<Rightarrow> mem_region_manager \<times> 'w \<Rightarrow> 'w result" where
  "send_regions E fd s =
     (case s of (m, w) \<Rightarrow> bind_result (write_regions E fd (regions m) w) (write_region E fd sentinel))"

section \<open>Lookup\<close>

definition does_manage :: "mem_region_manager \<Rightarrow> u64 \<Rightarrow> bool" where
  "does_manage m addr = ranges_find_point (rs m) addr"

fun find_overlap_from :: "nat \<Rightarrow> region list \<Rightarrow> region \<Rightarrow> int" where
  "find_overlap_from i [] other = - 1"
| "find_overlap_from i (r # xs) other =
     (if does_overlap_with r other then int i else find_overlap_from (Suc i) xs other)"

definition find_overlap :: "mem_region_manager \<Rightarrow> region \<Rightarrow> int" where
  "find_overlap m other = find_overlap_from 0 (regions m) other"

section \<open>Replacing and removing\<close>

text \<open>The writing loop of \<open>persist_region\<close>; the result tells whether all bytes were written.\<close>

partial_function (option) persist_write :: "'w env \<Rightarrow> int \<Rightarrow> u64 \<Rightarrow> u64 \<Rightarrow> 'w \<Rightarrow> (bool \<times> 'w) option" where
  "persist_write E fd write_from to_write w =
     (if to_write > 0
      then let (n, w1) = my_write (kern E) fd (Num write_from) to_write w; nb = to_int (word_of_int n)
           in if nb \<le> 0 then Some (False, w1)
              else persist_write E fd (write_from + word_of_int nb) (to_write - word_of_int nb) w1
      else Some (True, w))"

text \<open>
  The label \<open>err\<close>. In the first \<^verbatim>\<open>fsync\<close> check \<open>ret\<close> is the result of a comparison, 0 or 1, so
  \<open>ret < 0\<close> never holds.
\<close>

definition persist_err :: "'w env \<Rightarrow> int \<Rightarrow> 'w \<Rightarrow> int \<times> 'w" where
  "persist_err E fd w = (if fd \<ge> 0 then (- 1, snd (my_close (kern E) fd w)) else (- 1, w))"

definition persist_region ::
  "'w env \<Rightarrow> u64 \<Rightarrow> u64 \<Rightarrow> string \<Rightarrow> mem_region_manager \<Rightarrow> 'w \<Rightarrow> (int \<times> 'w) option" where
  "persist_region E base sz file_name m w =
     (let (fd, w1) = my_openat (kern E) (pmem_dirfd m) file_name (or O_CREAT (or O_RDWR O_EXCL)) 438 w in
      if fd < 0 then Some (persist_err E fd w1)
      else (case persist_write E fd base sz w1 of
              None \<Rightarrow> None
            | Some (ok, w2) \<Rightarrow>
                if \<not> ok then Some (persist_err E fd w2)
                else let (c, w3) = my_fsync (kern E) fd w2; ret = (if c < 0 then 1 else 0 :: int) in
                  if ret < 0 then Some (persist_err E fd w3)
                  else let (ret, w4) = my_fsync (kern E) (pmem_dirfd m) w3 in
                    if ret < 0 then Some (persist_err E fd w4) else Some (fd, w4)))"

definition replace_region ::
  "'w env \<Rightarrow> u64 \<Rightarrow> u64 \<Rightarrow> int \<Rightarrow> mem_region_manager \<times> 'w \<Rightarrow> (mrm_result \<times> mem_region_manager \<times> 'w) result option" where
  "replace_region E base sz prot s =
     (case s of (m, w) \<Rightarrow>
      let (file_id, w0) = rnd E w; r = \<lparr>reg_base = base, reg_size = sz, reg_file_id = file_id\<rparr> in
      if find_overlap m r \<noteq> - 1 then Some (Inl (Assertion ''-1 == find_overlap(r)''))
      else (case persist_region E base sz (make_file_name r) m w0 of
              None \<Rightarrow> None
            | Some (fd, w1) \<Rightarrow>
                if fd = - 1 then Some (Inr (ERROR, m, w1))
                else let (ret, w2) = my_mmap (kern E) base sz prot SHARED_FIXED fd 0 w1 in
                  if ret \<noteq> base
                  then if \<not> ret > - 4096 then Some (Inl (Assertion ''ret_n > -4096UL''))
                       else Some (Inr (ERROR, m, w2))
                  else let (c, w3) = my_close (kern E) fd w2 in
                    if c < 0 then Some (Inr (ERROR, m, w3))
                    else Some (Inr (SUCCESS, add_region r m, w3))))"

text \<open>The two ends that \<open>remove_region\<close> keeps: what is left above and below the removed part.\<close>

definition replace_upper ::
  "'w env \<Rightarrow> region \<Rightarrow> region \<Rightarrow> mem_region_manager \<times> 'w \<Rightarrow> (mrm_result \<times> mem_region_manager \<times> 'w) result option" where
  "replace_upper E r remove_r s =
     (if region_end r \<noteq> region_end remove_r
      then if \<not> region_end r > region_end remove_r then Some (Inl (Assertion ''r->end() > remove_r.end()''))
           else replace_region E (region_end remove_r) (region_end r - region_end remove_r) RW s
      else Some (Inr (SUCCESS, s)))"

definition replace_lower ::
  "'w env \<Rightarrow> region \<Rightarrow> region \<Rightarrow> mem_region_manager \<times> 'w \<Rightarrow> (mrm_result \<times> mem_region_manager \<times> 'w) result option" where
  "replace_lower E r remove_r s =
     (if reg_base r \<noteq> reg_base remove_r
      then if \<not> reg_base r < reg_base remove_r then Some (Inl (Assertion ''r->base < remove_r.base''))
           else replace_region E (reg_base r) (reg_base remove_r - reg_base r) RW s
      else Some (Inr (SUCCESS, s)))"

text \<open>\<open>regions.array[i] = regions.array[--regions.entries]\<close>.\<close>

definition drop_region :: "nat \<Rightarrow> 'a list \<Rightarrow> 'a list" where
  "drop_region i xs = butlast (xs[i := last xs])"

definition remove_region ::
  "'w env \<Rightarrow> u64 \<Rightarrow> u64 \<Rightarrow> mem_region_manager \<times> 'w \<Rightarrow> (mrm_result \<times> mem_region_manager \<times> 'w) result option" where
  "remove_region E base sz s =
     (case s of (m, w) \<Rightarrow>
      let remove_r = \<lparr>reg_base = base, reg_size = sz, reg_file_id = 0\<rparr>; i = find_overlap m remove_r in
      if i = - 1 then Some (Inr (NOT_MANAGED, m, w))
      else let r = regions m ! nat i in
        if \<not> does_include r remove_r then Some (Inl (Assertion ''doesn't support unmap across regions''))
        else let m1 = m\<lparr>regions := drop_region (nat i) (regions m)\<rparr>; (u, w1) = my_munmap (kern E) base sz w in
          if u \<noteq> 0 then Some (Inr (SUCCESS, m1, w1))
          else bind_ro (replace_upper E r remove_r (m1, w1)) (\<lambda>(res1, s1).
            if res1 = ERROR then Some (Inr (ERROR, s1))
            else bind_ro (replace_lower E r remove_r s1) (\<lambda>(res2, s2).
              if res2 = ERROR then Some (Inr (ERROR, s2))
              else Some (Inr (SUCCESS, s2)))))"

section \<open>The region table\<close>

definition persist_new_region_table ::
  "'w env \<Rightarrow> mem_region_manager \<times> 'w \<Rightarrow> (mrm_result \<times> 'w) result" where
  "persist_new_region_table E s =
     (case s of (m, w) \<Rightarrow>
      let (fd, w1) = my_openat (kern E) (pmem_dirfd m) NEW_TABLE_FILE_NAME (or O_CREAT O_WRONLY) 0 w in
      dr_assert (fd \<ge> 0) ''open new region table file failed''
        (bind_result (write_regions E fd (regions m) w1) (\<lambda>w2.
          let (c1, w3) = my_fsync (kern E) fd w2 in
          dr_assert (\<not> c1 < 0) ''persist_new_region_table: fsync(fd) failed''
            (let (c2, w4) = my_close (kern E) fd w3 in
             dr_assert (\<not> c2 < 0) ''close new region table file failed''
               (let (c3, w5) = my_fsync (kern E) (pmem_dirfd m) w4 in
                dr_assert (\<not> c3 < 0) ''persist_new_region_table: fsync(pmem_dirfd) failed''
                  (Inr (SUCCESS, w5)))))))"

definition commit_new_region_table :: "'w env \<Rightarrow> mem_region_manager \<times> 'w \<Rightarrow> mrm_result \<times> 'w" where
  "commit_new_region_table E s =
     (case s of (m, w) \<Rightarrow>
      let (ret, w1) = my_renameat (kern E) (pmem_dirfd m) NEW_TABLE_FILE_NAME (pmem_dirfd m) CURRENT_TABLE_FILE_NAME w in
      if ret < 0 then if ret = - ENOENT then (SUCCESS, w1) else (ERROR, w1)
      else let (ret, w2) = my_fsync (kern E) (pmem_dirfd m) w1 in
        if ret < 0 then (ERROR, w2) else (SUCCESS, w2))"

definition clear_new_region_table :: "'w env \<Rightarrow> mem_region_manager \<times> 'w \<Rightarrow> mrm_result \<times> 'w" where
  "clear_new_region_table E s =
     (case s of (m, w) \<Rightarrow>
      let (ret, w1) = my_unlinkat (kern E) (pmem_dirfd m) NEW_TABLE_FILE_NAME 0 w in
      if ret < 0 then if ret = - ENOENT then (SUCCESS, w1) else (ERROR, w1)
      else let (ret, w2) = my_fsync (kern E) (pmem_dirfd m) w1 in
        if ret < 0 then (ERROR, w2) else (SUCCESS, w2))"

section \<open>The foreground's side\<close>

text \<open>
  One round of \<open>map_recovered_regions\<close> for a region read from the pipe: a private anonymous mapping
  is filled from the region file by a single \<^verbatim>\<open>read\<close>. \<open>Inl\<close> is the error number returned.
\<close>

definition map_recovered_region :: "'w kernel \<Rightarrow> int \<Rightarrow> region \<Rightarrow> 'w \<Rightarrow> int + 'w" where
  "map_recovered_region k dirfd r w =
     (let (addr, w1) = my_mmap k (reg_base r) (reg_size r) RW ANON_FIXED (- 1) 0 w in
      if addr \<noteq> reg_base r then Inl EINVAL
      else let (fd, w2) = my_openat k dirfd (make_file_name r) O_RDWR 0 w1 in
        if fd < 0 then Inl (- fd)
        else (case my_read k fd (Num addr) (reg_size r) w2 of ((n, _), w3) \<Rightarrow>
          let region_nread = to_int (word_of_int n) in
          if region_nread < 0 then Inl (- region_nread)
          else if (word_of_int region_nread :: u64) < reg_size r then Inl EAGAIN
          else let (ret, w4) = my_close k fd w3 in
            if ret \<noteq> 0 then Inl (- ret) else Inr w4))"

partial_function (option) map_recovered_loop :: "'w kernel \<Rightarrow> int \<Rightarrow> int \<Rightarrow> 'w \<Rightarrow> (int + 'w) option" where
  "map_recovered_loop k dirfd pipe_fd w =
     (case my_read k pipe_fd (Out 24) 24 w of ((n, bs), w1) \<Rightarrow>
      let nread = to_int (word_of_int n) in
      if nread < 0 \<or> (word_of_int nread :: u64) < 24 then Some (Inl EINVAL)
      else let r = decode_region bs in
        if reg_base r = 0 \<and> reg_size r = 0 then Some (Inr w1)
        else (case map_recovered_region k dirfd r w1 of
                Inl e \<Rightarrow> Some (Inl e)
              | Inr w2 \<Rightarrow> map_recovered_loop k dirfd pipe_fd w2))"

definition map_recovered_regions :: "'w kernel \<Rightarrow> string \<Rightarrow> int \<Rightarrow> 'w \<Rightarrow> (int + 'w) option" where
  "map_recovered_regions k pmem_path pipe_fd w =
     (let (pmem_dirfd, w1) = my_open k pmem_path O_DIRECTORY 0 w in
      if pmem_dirfd < 0 then Some (Inl (- pmem_dirfd))
      else (case map_recovered_loop k pmem_dirfd pipe_fd w1 of
              None \<Rightarrow> None
            | Some (Inl e) \<Rightarrow> Some (Inl e)
            | Some (Inr w2) \<Rightarrow>
                let (ret, w3) = my_close k pmem_dirfd w2 in
                if ret \<noteq> 0 then Some (Inl (- ret)) else Some (Inr w3)))"

end
