(* ===== verification/Region_Inv.thy ===== *)
theory Region_Inv
  imports Mem_Region
begin

text \<open>
  The invariant of the region manager, whatever the kernel does: the regions are non-empty,
  inside the address space and pairwise disjoint, and the range index covers them. Replacing and
  removing regions keep it and change the managed addresses as intended; the one exception is an
  \<^verbatim>\<open>munmap\<close> that fails.
\<close>

section \<open>Addresses of a region\<close>

definition region_ok :: "region \<Rightarrow> bool" where
  "region_ok r \<longleftrightarrow> 0 < unat (reg_size r) \<and> unat (reg_base r) + unat (reg_size r) < 18446744073709551616"

definition region_addrs :: "region \<Rightarrow> u64 set" where
  "region_addrs r = {a. does_include_addr r a}"

lemma unat_region_end: "region_ok r \<Longrightarrow> unat (region_end r) = unat (reg_base r) + unat (reg_size r)"
  by (simp add: region_ok_def region_end_def unat_add_no_wrap)

lemma region_addrs_nat:
  "region_ok r \<Longrightarrow> a \<in> region_addrs r \<longleftrightarrow> unat (reg_base r) \<le> unat a \<and> unat a < unat (reg_base r) + unat (reg_size r)"
  by (simp add: region_addrs_def does_include_addr_def word_le_nat_alt word_less_nat_alt unat_region_end)

lemma region_addrs_range: "region_ok r \<Longrightarrow> range_set (Range (reg_base r) (reg_size r)) = region_addrs r"
  by (auto simp: region_addrs_nat mem_range_set includes_point_nat no_wrap_def region_ok_def)

lemma overlap_sym: "does_overlap_with r s \<longleftrightarrow> does_overlap_with s r"
  by (auto simp: does_overlap_with_def)

lemma overlap_disjoint:
  assumes "region_ok r" and "region_ok s"
  shows "does_overlap_with r s \<longleftrightarrow> region_addrs r \<inter> region_addrs s \<noteq> {}"
proof
  have self: "reg_base r \<in> region_addrs r" "reg_base s \<in> region_addrs s"
    using assms by (simp_all add: region_addrs_nat) (simp_all add: region_ok_def)
  show "region_addrs r \<inter> region_addrs s \<noteq> {}" if "does_overlap_with r s"
    using that self by (auto simp: does_overlap_with_def region_addrs_def)
  show "does_overlap_with r s" if ne: "region_addrs r \<inter> region_addrs s \<noteq> {}"
  proof -
    from ne obtain a where "a \<in> region_addrs r" "a \<in> region_addrs s" by blast
    then have "reg_base s \<in> region_addrs r \<or> reg_base r \<in> region_addrs s"
      using assms by (simp add: region_addrs_nat) linarith
    then show ?thesis by (auto simp: does_overlap_with_def region_addrs_def)
  qed
qed

lemma does_include_sub:
  assumes "region_ok r" and "region_ok s"
  shows "does_include r s \<longleftrightarrow> region_addrs s \<subseteq> region_addrs r"
proof -
  have l: "unat (region_end s - 1) = unat (reg_base s) + unat (reg_size s) - 1"
    using assms(2) by (subst unat_sub_le) (auto simp: unat_region_end word_le_nat_alt region_ok_def)
  have "does_include r s \<longleftrightarrow> reg_base s \<in> region_addrs r \<and> region_end s - 1 \<in> region_addrs r"
    by (simp add: does_include_def region_addrs_def)
  also have "\<dots> \<longleftrightarrow> unat (reg_base r) \<le> unat (reg_base s) \<and>
      unat (reg_base s) + unat (reg_size s) \<le> unat (reg_base r) + unat (reg_size r)"
    unfolding region_addrs_nat [OF assms(1)] l using assms(2) by (auto simp: region_ok_def)
  also have "\<dots> \<longleftrightarrow> region_addrs s \<subseteq> region_addrs r"
  proof
    assume "region_addrs s \<subseteq> region_addrs r"
    moreover have "reg_base s \<in> region_addrs s" "region_end s - 1 \<in> region_addrs s"
      unfolding region_addrs_nat [OF assms(2)] l using assms(2) by (auto simp: region_ok_def)
    ultimately have "reg_base s \<in> region_addrs r" "region_end s - 1 \<in> region_addrs r" by auto
    then show "unat (reg_base r) \<le> unat (reg_base s) \<and>
      unat (reg_base s) + unat (reg_size s) \<le> unat (reg_base r) + unat (reg_size r)"
      unfolding region_addrs_nat [OF assms(1)] l by linarith
  qed (auto simp: region_addrs_nat assms)
  finally show ?thesis .
qed

section \<open>The invariant\<close>

definition managed :: "mem_region_manager \<Rightarrow> u64 set" where
  "managed m = (\<Union>r \<in> set (regions m). region_addrs r)"

definition mgr_inv :: "mem_region_manager \<Rightarrow> bool" where
  "mgr_inv m \<longleftrightarrow> distinct (regions m) \<and> (\<forall>r \<in> set (regions m). region_ok r) \<and>
     (\<forall>r \<in> set (regions m). \<forall>s \<in> set (regions m). r \<noteq> s \<longrightarrow> \<not> does_overlap_with r s) \<and>
     ranges_wf (rs m) \<and> managed m \<subseteq> ranges_set (rs m)"

lemma find_overlap_from_none:
  "find_overlap_from i xs other = - 1 \<longleftrightarrow> (\<forall>r \<in> set xs. \<not> does_overlap_with r other)"
  by (induction xs arbitrary: i) auto

lemma find_overlap_from_some:
  "find_overlap_from i xs other \<noteq> - 1 \<Longrightarrow>
     \<exists>j < length xs. find_overlap_from i xs other = int (i + j) \<and> does_overlap_with (xs ! j) other"
proof (induction xs arbitrary: i)
  case (Cons r xs)
  show ?case
  proof (cases "does_overlap_with r other")
    case False
    with Cons.prems have "find_overlap_from (Suc i) xs other \<noteq> - 1" by simp
    from Cons.IH [OF this] obtain j where "j < length xs"
      "find_overlap_from (Suc i) xs other = int (Suc i + j)" "does_overlap_with (xs ! j) other" by blast
    with False show ?thesis by (intro exI [of _ "Suc j"]) simp
  qed auto
qed simp

lemma find_overlap_none: "find_overlap m other = - 1 \<longleftrightarrow> (\<forall>r \<in> set (regions m). \<not> does_overlap_with r other)"
  by (simp add: find_overlap_def find_overlap_from_none)

lemma find_overlap_some:
  assumes "find_overlap m other \<noteq> - 1"
  obtains j where "j < length (regions m)" "nat (find_overlap m other) = j" "does_overlap_with (regions m ! j) other"
  using find_overlap_from_some [of 0 "regions m" other] assms unfolding find_overlap_def by auto

lemma managed_add [simp]: "managed (add_region r m) = managed m \<union> region_addrs r"
  by (auto simp: managed_def add_region_def)

lemma regions_add [simp]: "regions (add_region r m) = regions m @ [r]"
  by (simp add: add_region_def)

lemma add_region_inv:
  assumes inv: "mgr_inv m" and r: "region_ok r" and none: "find_overlap m r = - 1"
  shows "mgr_inv (add_region r m)"
proof -
  have nw: "no_wrap (Range (reg_base r) (reg_size r))" using r by (simp add: region_ok_def no_wrap_def)
  note ins = ranges_insert_wf [OF _ nw, of "rs m"]
  have o: "\<forall>s \<in> set (regions m). \<not> does_overlap_with s r" using none by (simp add: find_overlap_none)
  then have o': "\<forall>s \<in> set (regions m). \<not> does_overlap_with r s" using overlap_sym by blast
  have "reg_base r \<in> region_addrs r" using region_addrs_nat [OF r, of "reg_base r"] r by (simp add: region_ok_def)
  then have "does_overlap_with r r" using overlap_disjoint [OF r r] by blast
  then have new: "r \<notin> set (regions m)" using o by blast
  have "mgr_inv (add_region r m) \<longleftrightarrow> ranges_wf (ranges_insert (reg_base r) (reg_size r) (rs m)) \<and>
      managed m \<union> region_addrs r \<subseteq> ranges_set (ranges_insert (reg_base r) (reg_size r) (rs m))"
    using inv new r o o' unfolding mgr_inv_def managed_add regions_add by (auto simp: add_region_def)
  then show ?thesis
    using inv ins unfolding mgr_inv_def by (auto simp: region_addrs_range [OF r])
qed

section \<open>Replacing\<close>

text \<open>Whatever the kernel answers, a region is added on success and nothing changes on error.\<close>

lemma replace_region_cases:
  assumes "replace_region E base sz prot (m, w) = Some (Inr (res, m', w'))"
  obtains id where "find_overlap m \<lparr>reg_base = base, reg_size = sz, reg_file_id = id\<rparr> = - 1"
      "res = SUCCESS" "m' = add_region \<lparr>reg_base = base, reg_size = sz, reg_file_id = id\<rparr> m"
  | "res = ERROR" "m' = m"
proof -
  obtain id w0 where id: "rnd E w = (id, w0)" by fastforce
  let ?r = "\<lparr>reg_base = base, reg_size = sz, reg_file_id = id\<rparr>"
  have none: "find_overlap m ?r = - 1" using assms id by (auto simp: replace_region_def Let_def split: if_splits)
  obtain fd w1 where p: "persist_region E base sz (make_file_name ?r) m w0 = Some (fd, w1)"
    using assms id none by (auto simp: replace_region_def Let_def split: option.splits)
  obtain ret w2 where mm: "my_mmap (kern E) base sz prot SHARED_FIXED fd 0 w1 = (ret, w2)" by fastforce
  obtain c w3 where cl: "my_close (kern E) fd w2 = (c, w3)" by fastforce
  have "(res, m') \<in> {(ERROR, m), (SUCCESS, add_region ?r m)}"
    using assms by (simp add: replace_region_def id none p mm cl Let_def split: if_splits)
  then show thesis using none that by auto
qed

lemma replace_region_step:
  assumes "replace_region E base sz prot (m, w) = Some (Inr (res, m', w'))" and inv: "mgr_inv m"
    and ok: "0 < unat sz" "unat base + unat sz < 18446744073709551616"
  shows "mgr_inv m'" and "res \<noteq> ERROR \<Longrightarrow> managed m' = managed m \<union> region_addrs \<lparr>reg_base = base, reg_size = sz, reg_file_id = 0\<rparr>"
    and "res \<noteq> NOT_MANAGED" and "res = ERROR \<Longrightarrow> m' = m"
proof -
  have ok': "region_ok \<lparr>reg_base = base, reg_size = sz, reg_file_id = id\<rparr>" for id
    using ok by (simp add: region_ok_def)
  have id: "region_addrs \<lparr>reg_base = base, reg_size = sz, reg_file_id = id\<rparr> =
      region_addrs \<lparr>reg_base = base, reg_size = sz, reg_file_id = 0\<rparr>" for id
    by (simp add: region_addrs_def does_include_addr_def region_end_def)
  show "mgr_inv m'"
    by (rule replace_region_cases [OF assms(1)]) (use add_region_inv [OF inv ok'] inv in auto)
  show "res \<noteq> ERROR \<Longrightarrow> managed m' = managed m \<union> region_addrs \<lparr>reg_base = base, reg_size = sz, reg_file_id = 0\<rparr>"
    by (rule replace_region_cases [OF assms(1)]) (use id in auto)
  show "res \<noteq> NOT_MANAGED" "res = ERROR \<Longrightarrow> m' = m"
    using replace_region_cases [OF assms(1)] by auto
qed

section \<open>Removing\<close>

lemma drop_region_set:
  assumes "distinct xs" and "i < length xs"
  shows "distinct (drop_region i xs)" and "set (drop_region i xs) = set xs - {xs ! i}"
proof -
  have ne: "xs \<noteq> []" using assms(2) by auto
  define ys where "ys = butlast xs"
  have xs: "xs = ys @ [last xs]" using ne by (simp add: ys_def)
  have d: "distinct ys" "last xs \<notin> set ys" using assms(1) by (subst (asm) (1) xs, simp)+
  have "distinct (drop_region i xs) \<and> set (drop_region i xs) = set xs - {xs ! i}"
  proof (cases "i = length ys")
    case True
    then have "drop_region i xs = ys" "xs ! i = last xs"
      unfolding drop_region_def by (subst (1) xs, simp)+
    moreover have "set xs = insert (last xs) (set ys)" by (subst (1) xs) simp
    ultimately show ?thesis using d by auto
  next
    case False
    then have i: "i < length ys" using assms(2) by (simp add: ys_def)
    then have "drop_region i xs = ys[i := last xs]" "xs ! i = ys ! i"
      unfolding drop_region_def by (subst (1) xs, simp add: list_update_append nth_append)+
    moreover have "set xs = insert (last xs) (set ys)" by (subst (1) xs) simp
    moreover have "distinct (ys[i := last xs])" using d by (simp add: distinct_list_update)
    moreover have "set (ys[i := last xs]) = insert (last xs) (set ys - {ys ! i})"
      using set_update_distinct [OF d(1) i] by simp
    moreover have "last xs \<noteq> ys ! i" using d(2) i by auto
    ultimately show ?thesis by auto
  qed
  then show "distinct (drop_region i xs)" "set (drop_region i xs) = set xs - {xs ! i}" by auto
qed

lemma drop_region_inv:
  assumes inv: "mgr_inv m" and i: "i < length (regions m)"
  defines "m1 \<equiv> m\<lparr>regions := drop_region i (regions m)\<rparr>"
  shows "mgr_inv m1" and "managed m1 = managed m - region_addrs (regions m ! i)"
proof -
  have d: "distinct (regions m)" using inv by (simp add: mgr_inv_def)
  note ds = drop_region_set [OF d i]
  have sub: "managed m1 \<subseteq> managed m" unfolding managed_def m1_def using ds(2) by auto
  with inv ds show "mgr_inv m1" unfolding mgr_inv_def by (auto simp: m1_def)
  have "region_addrs r \<inter> region_addrs (regions m ! i) = {}"
    if "r \<in> set (regions m)" "r \<noteq> regions m ! i" for r
    using inv that nth_mem [OF i] overlap_disjoint [of r "regions m ! i"] unfolding mgr_inv_def by blast
  moreover have "set (regions m1) = set (regions m) - {regions m ! i}" using ds(2) by (simp add: m1_def)
  ultimately show "managed m1 = managed m - region_addrs (regions m ! i)"
    unfolding managed_def using nth_mem [OF i] by auto
qed

lemma replace_upper_step:
  assumes "replace_upper E r q (m, w) = Some (Inr (res, m', w'))" and inv: "mgr_inv m"
    and ok: "region_ok r" "region_ok q" "region_addrs q \<subseteq> region_addrs r"
  shows "mgr_inv m'" and "res \<noteq> ERROR \<Longrightarrow> managed m' = managed m \<union> {a \<in> region_addrs r. unat (region_end q) \<le> unat a}"
proof -
  note e = unat_region_end [OF ok(1)] unat_region_end [OF ok(2)]
  have q: "unat (region_end q) \<le> unat (region_end r)"
    using does_include_sub [OF ok(1,2)] ok(2,3) e
    by (auto simp: does_include_def does_include_addr_def word_less_nat_alt word_le_nat_alt unat_sub_le region_ok_def)
  have "mgr_inv m' \<and> (res \<noteq> ERROR \<longrightarrow> managed m' = managed m \<union> {a \<in> region_addrs r. unat (region_end q) \<le> unat a})"
  proof (cases "region_end r = region_end q")
    case True
    then have "{a \<in> region_addrs r. unat (region_end q) \<le> unat a} = {}"
      using e by (auto simp: region_addrs_nat [OF ok(1)])
    with True assms(1) inv show ?thesis unfolding replace_upper_def by auto
  next
    case False
    then have lt: "unat (region_end q) < unat (region_end r)"
      using q by (simp add: word_eq_iff_unat)
    let ?n = "\<lparr>reg_base = region_end q, reg_size = region_end r - region_end q, reg_file_id = 0\<rparr>"
    have sz: "unat (region_end r - region_end q) = unat (region_end r) - unat (region_end q)"
      using q by (simp add: unat_sub_le word_le_nat_alt)
    have n: "region_ok ?n" using lt sz unat_u64_less [of "region_end r"] by (simp add: region_ok_def)
    have r: "replace_region E (region_end q) (region_end r - region_end q) RW (m, w) = Some (Inr (res, m', w'))"
      using assms(1) False by (auto simp: replace_upper_def split: if_splits)
    have "region_addrs ?n = {a \<in> region_addrs r. unat (region_end q) \<le> unat a}"
      using lt sz e ok(2,3) by (auto simp: region_addrs_nat [OF n] region_addrs_nat [OF ok(1)])
        (use does_include_sub [OF ok(1,2)] in \<open>auto simp: does_include_def does_include_addr_def word_le_nat_alt\<close>)
    with replace_region_step [OF r inv] n show ?thesis by (simp add: region_ok_def)
  qed
  then show "mgr_inv m'" and "res \<noteq> ERROR \<Longrightarrow> managed m' = managed m \<union> {a \<in> region_addrs r. unat (region_end q) \<le> unat a}"
    by auto
qed

lemma replace_lower_step:
  assumes "replace_lower E r q (m, w) = Some (Inr (res, m', w'))" and inv: "mgr_inv m"
    and ok: "region_ok r" "region_ok q" "region_addrs q \<subseteq> region_addrs r"
  shows "mgr_inv m'" and "res \<noteq> ERROR \<Longrightarrow> managed m' = managed m \<union> {a \<in> region_addrs r. unat a < unat (reg_base q)}"
proof -
  have q: "unat (reg_base r) \<le> unat (reg_base q)" "unat (reg_base q) < unat (reg_base r) + unat (reg_size r)"
    using does_include_sub [OF ok(1,2)] ok(3) unat_region_end [OF ok(1)]
    by (auto simp: does_include_def does_include_addr_def word_le_nat_alt word_less_nat_alt)
  have "mgr_inv m' \<and> (res \<noteq> ERROR \<longrightarrow> managed m' = managed m \<union> {a \<in> region_addrs r. unat a < unat (reg_base q)})"
  proof (cases "reg_base r = reg_base q")
    case True
    then have "{a \<in> region_addrs r. unat a < unat (reg_base q)} = {}"
      by (auto simp: region_addrs_nat [OF ok(1)])
    with True assms(1) inv show ?thesis unfolding replace_lower_def by auto
  next
    case False
    then have lt: "unat (reg_base r) < unat (reg_base q)" using q by (simp add: word_eq_iff_unat)
    let ?n = "\<lparr>reg_base = reg_base r, reg_size = reg_base q - reg_base r, reg_file_id = 0\<rparr>"
    have sz: "unat (reg_base q - reg_base r) = unat (reg_base q) - unat (reg_base r)"
      using q by (simp add: unat_sub_le word_le_nat_alt)
    have n: "region_ok ?n" using lt sz unat_u64_less [of "reg_base q"] by (simp add: region_ok_def)
    have r: "replace_region E (reg_base r) (reg_base q - reg_base r) RW (m, w) = Some (Inr (res, m', w'))"
      using assms(1) False by (auto simp: replace_lower_def split: if_splits)
    have "region_addrs ?n = {a \<in> region_addrs r. unat a < unat (reg_base q)}"
      using lt sz q by (auto simp: region_addrs_nat [OF n] region_addrs_nat [OF ok(1)])
    with replace_region_step [OF r inv] n show ?thesis by (simp add: region_ok_def)
  qed
  then show "mgr_inv m'" and "res \<noteq> ERROR \<Longrightarrow> managed m' = managed m \<union> {a \<in> region_addrs r. unat a < unat (reg_base q)}"
    by auto
qed


section \<open>The operations\<close>

abbreviation window_region :: "u64 \<Rightarrow> u64 \<Rightarrow> region" where
  "window_region base sz \<equiv> \<lparr>reg_base = base, reg_size = sz, reg_file_id = 0\<rparr>"

text \<open>
  An environment for the examples: a kernel that carries out every call, writing and mapping
  what it is asked to, with answer \<open>u\<close> for \<^verbatim>\<open>munmap\<close>.
\<close>

definition yes_kernel :: "u64 \<Rightarrow> unit kernel" where
  "yes_kernel u g w =
     ((if g RAX = Some (num SYS_write) then (case g RDX of Some (Num n) \<Rightarrow> n | _ \<Rightarrow> 0)
       else if g RAX = Some (num SYS_mmap) then (case g RDI of Some (Num n) \<Rightarrow> n | _ \<Rightarrow> 0)
       else if g RAX = Some (num SYS_munmap) then u else 0, []), w)"

abbreviation yes_env :: "u64 \<Rightarrow> unit env" where
  "yes_env u \<equiv> \<lparr>kern = yes_kernel u, rnd = (\<lambda>w. (7, w)), padding = (\<lambda>_. [0, 0, 0, 0])\<rparr>"

abbreviation demo_region :: region where
  "demo_region \<equiv> \<lparr>reg_base = 4096, reg_size = 12288, reg_file_id = 1\<rparr>"

abbreviation demo_mgr :: mem_region_manager where
  "demo_mgr \<equiv> add_region demo_region \<lparr>pmem_dirfd = 3, regions = [], rs = []\<rparr>"

lemma yes_calls:
  "my_openat (yes_kernel u) d p f md w = (0, w)" "my_fsync (yes_kernel u) d w = (0, w)"
  "my_close (yes_kernel u) d w = (0, w)" "my_mmap (yes_kernel u) a n pr f d off w = (a, w)"
  "my_munmap (yes_kernel u) a n w = (to_int u, w)" "my_write (yes_kernel u) d b n w = (sint n, w)"
  by (simp_all add: my_openat_def my_fsync_def my_close_def my_mmap_def my_munmap_def my_write_def
      syscall_def syscall_regs_def yes_kernel_def to_int_def)

lemma yes_persist: "int_range n \<Longrightarrow> 0 < sint n \<Longrightarrow> persist_region (yes_env u) b n f m w = Some (0, w)"
  by (simp add: persist_region_def yes_calls Let_def)
    (subst persist_write.simps, subst persist_write.simps, auto simp: yes_calls Let_def word_gt_0)

lemma yes_replace:
  assumes "int_range n" "0 < sint n" "find_overlap m \<lparr>reg_base = b, reg_size = n, reg_file_id = 7\<rparr> = - 1"
  shows "replace_region (yes_env u) b n p (m, w) =
    Some (Inr (SUCCESS, add_region \<lparr>reg_base = b, reg_size = n, reg_file_id = 7\<rparr> m, w))"
  by (simp add: replace_region_def assms yes_persist yes_calls Let_def)

lemma demo_mgr_inv: "mgr_inv demo_mgr"
proof (rule add_region_inv)
  show "mgr_inv \<lparr>pmem_dirfd = 3, regions = [], rs = []\<rparr>"
    by (simp add: mgr_inv_def managed_def ranges_wf_def separated_def)
qed (simp_all add: region_ok_def find_overlap_def)

text \<open>
  C30. \<open>replace_region\<close> keeps the invariant whatever the kernel answers. On success exactly the
  addresses of the new region are added and \<open>does_manage\<close> is true of them; on an error the
  manager is unchanged.
\<close>

theorem replace_region_invariant:
  assumes "mgr_inv m" and "0 < unat sz" and "unat base + unat sz < 2 ^ 64"
    and "replace_region E base sz prot (m, w) = Some (Inr (res, m', w'))"
  shows "mgr_inv m' \<and> res \<noteq> NOT_MANAGED \<and> (res = ERROR \<longrightarrow> m' = m) \<and>
    (res = SUCCESS \<longrightarrow> managed m' = managed m \<union> region_addrs (window_region base sz) \<and>
       (\<forall>a \<in> managed m'. does_manage m' a))"
proof -
  have b: "unat base + unat sz < 18446744073709551616" using assms(3) by simp
  note st = replace_region_step [OF assms(4,1,2) b]
  have "\<forall>a \<in> managed m'. does_manage m' a"
    using st(1) by (auto simp: mgr_inv_def does_manage_def ranges_find_point_iff)
  then show ?thesis using st by auto
qed

theorem replace_region_invariant_witness:
  "\<exists>m'. mgr_inv demo_mgr \<and> replace_region (yes_env 0) 65536 4096 3 (demo_mgr, ()) = Some (Inr (SUCCESS, m', ())) \<and>
     mgr_inv m' \<and> managed m' = managed demo_mgr \<union> region_addrs (window_region 65536 4096) \<and> does_manage m' 65540"
proof -
  let ?m' = "add_region \<lparr>reg_base = 65536, reg_size = 4096, reg_file_id = 7\<rparr> demo_mgr"
  have r: "replace_region (yes_env 0) 65536 4096 3 (demo_mgr, ()) = Some (Inr (SUCCESS, ?m', ()))"
    by (rule yes_replace) (simp_all add: int_range_def find_overlap_def does_overlap_with_def does_include_addr_def region_end_def)
  have "(65540 :: u64) \<in> managed ?m'"
    by (simp add: region_addrs_def does_include_addr_def region_end_def del: regions_add)
  moreover note replace_region_invariant [OF demo_mgr_inv _ _ r]
  ultimately show ?thesis using r demo_mgr_inv by auto
qed

lemma remove_region_step:
  assumes inv: "mgr_inv m" and sz: "0 < unat sz" and nw: "unat base + unat sz < 2 ^ 64"
    and res: "remove_region E base sz (m, w) = Some (Inr (res, m', w'))"
  shows "mgr_inv m' \<and>
    (res = NOT_MANAGED \<longrightarrow> m' = m \<and> managed m \<inter> region_addrs (window_region base sz) = {}) \<and>
    (res = SUCCESS \<longrightarrow> fst (my_munmap (kern E) base sz w) = 0 \<longrightarrow>
       managed m' = managed m - region_addrs (window_region base sz))"
proof (cases "find_overlap m (window_region base sz) = - 1")
  case True
  have q: "region_ok (window_region base sz)" using sz nw by (simp add: region_ok_def)
  have "region_addrs r \<inter> region_addrs (window_region base sz) = {}" if "r \<in> set (regions m)" for r
    using True inv that overlap_disjoint [OF _ q, of r] unfolding find_overlap_none mgr_inv_def by blast
  then show ?thesis using True res inv by (auto simp: remove_region_def managed_def Let_def)
next
  case False
  let ?q = "window_region base sz" and ?i = "nat (find_overlap m (window_region base sz))"
  let ?r = "regions m ! ?i" and ?m1 = "m\<lparr>regions := drop_region ?i (regions m)\<rparr>"
  have q: "region_ok ?q" using sz nw by (simp add: region_ok_def)
  obtain j where j: "j < length (regions m)" "?i = j" by (rule find_overlap_some [OF False])
  have r: "region_ok ?r" using inv nth_mem [OF j(1)] j(2) by (auto simp: mgr_inv_def)
  have inc: "does_include ?r ?q" using res False by (auto simp: remove_region_def Let_def split: if_splits)
  then have sub: "region_addrs ?q \<subseteq> region_addrs ?r" using does_include_sub [OF r q] by simp
  have m1: "mgr_inv ?m1" "managed ?m1 = managed m - region_addrs ?r"
    using drop_region_inv [OF inv j(1)] j(2) by simp_all
  obtain u w1 where u: "my_munmap (kern E) base sz w = (u, w1)" by fastforce
  show ?thesis
  proof (cases "u = 0")
    case False
    then have "res = SUCCESS" "m' = ?m1"
      using res \<open>find_overlap m ?q \<noteq> - 1\<close> inc u by (auto simp: remove_region_def Let_def)
    then show ?thesis using m1(1) u False by simp
  next
    case True
    obtain res1 m2 w2 where up: "replace_upper E ?r ?q (?m1, w1) = Some (Inr (res1, m2, w2))"
      using res \<open>find_overlap m ?q \<noteq> - 1\<close> inc u True by (auto simp: remove_region_def Let_def bind_ro_Inr)
    note m2 = replace_upper_step [OF up m1(1) r q sub]
    show ?thesis
    proof (cases "res1 = ERROR")
      case True
      then have "res = ERROR" "m' = m2"
        using res \<open>find_overlap m ?q \<noteq> - 1\<close> inc u \<open>u = 0\<close> up by (auto simp: remove_region_def Let_def)
      then show ?thesis using m2(1) by simp
    next
      case False
      then obtain res2 w3 where lo: "replace_lower E ?r ?q (m2, w2) = Some (Inr (res2, m', w3))"
          "res = (if res2 = ERROR then ERROR else SUCCESS)"
        using res \<open>find_overlap m ?q \<noteq> - 1\<close> inc u \<open>u = 0\<close> up
        by (auto simp: remove_region_def Let_def bind_ro_Inr split: if_splits)
      note m3 = replace_lower_step [OF lo(1) m2(1) r q sub]
      have "managed m' = managed m - region_addrs ?q" if "res2 \<noteq> ERROR"
      proof -
        have mm: "managed m' = (managed m - region_addrs ?r) \<union>
            {a \<in> region_addrs ?r. unat (region_end ?q) \<le> unat a} \<union> {a \<in> region_addrs ?r. unat a < unat base}"
          using m3(2) [OF that] m2(2) [OF False] m1(2) by simp
        have "region_addrs ?r \<subseteq> managed m" using nth_mem [OF j(1)] j(2) by (auto simp: managed_def)
        moreover have "a \<in> region_addrs ?q \<longleftrightarrow> unat base \<le> unat a \<and> unat a < unat (region_end ?q)" for a
          using region_addrs_nat [OF q] unat_region_end [OF q] by simp
        ultimately show ?thesis using sub unfolding mm by (auto simp: not_le not_less)
      qed
      then show ?thesis using m3(1) lo(2) by auto
    qed
  qed
qed

text \<open>
  C31. \<open>remove_region\<close> keeps the invariant whatever the kernel answers. It reports \<open>NOT_MANAGED\<close> only
  when no managed address is in the window, and then changes nothing; when it succeeds and
  \<^verbatim>\<open>munmap\<close> did, exactly the addresses of the window are no longer managed, also when the
  window splits a region in two.
\<close>

theorem remove_region_correct:
  assumes "mgr_inv m" and "0 < unat sz" and "unat base + unat sz < 2 ^ 64"
    and "remove_region E base sz (m, w) = Some (Inr (res, m', w'))"
  shows "mgr_inv m' \<and>
    (res = NOT_MANAGED \<longrightarrow> m' = m \<and> managed m \<inter> region_addrs (window_region base sz) = {}) \<and>
    (res = SUCCESS \<longrightarrow> fst (my_munmap (kern E) base sz w) = 0 \<longrightarrow>
       managed m' = managed m - region_addrs (window_region base sz))"
  by (rule remove_region_step [OF assms])

lemma demo_find: "find_overlap demo_mgr (window_region 8192 4096) = 0"
  by (simp add: find_overlap_def does_overlap_with_def does_include_addr_def region_end_def)

theorem remove_region_correct_witness:
  "\<exists>m'. mgr_inv demo_mgr \<and> remove_region (yes_env 0) 8192 4096 (demo_mgr, ()) = Some (Inr (SUCCESS, m', ())) \<and>
     mgr_inv m' \<and> managed m' = managed demo_mgr - region_addrs (window_region 8192 4096) \<and> length (regions m') = 2"
proof -
  let ?m1 = "demo_mgr\<lparr>regions := []\<rparr>"
  let ?m2 = "add_region \<lparr>reg_base = 12288, reg_size = 4096, reg_file_id = 7\<rparr> ?m1"
  let ?m3 = "add_region \<lparr>reg_base = 4096, reg_size = 4096, reg_file_id = 7\<rparr> ?m2"
  have "replace_region (yes_env 0) 12288 4096 RW (?m1, ()) = Some (Inr (SUCCESS, ?m2, ()))"
    by (rule yes_replace) (simp_all add: int_range_def find_overlap_def)
  then have up: "replace_upper (yes_env 0) demo_region (window_region 8192 4096) (?m1, ()) = Some (Inr (SUCCESS, ?m2, ()))"
    by (simp add: replace_upper_def region_end_def)
  have "replace_region (yes_env 0) 4096 4096 RW (?m2, ()) = Some (Inr (SUCCESS, ?m3, ()))"
    by (rule yes_replace)
      (simp_all add: int_range_def find_overlap_def does_overlap_with_def does_include_addr_def region_end_def)
  then have lo: "replace_lower (yes_env 0) demo_region (window_region 8192 4096) (?m2, ()) = Some (Inr (SUCCESS, ?m3, ()))"
    by (simp add: replace_lower_def)
  have r: "remove_region (yes_env 0) 8192 4096 (demo_mgr, ()) = Some (Inr (SUCCESS, ?m3, ()))"
    using up lo by (simp add: remove_region_def Let_def demo_find yes_calls drop_region_def to_int_def
        does_include_def does_include_addr_def region_end_def)
  then have "mgr_inv ?m3 \<and> managed ?m3 = managed demo_mgr - region_addrs (window_region 8192 4096)"
    using remove_region_correct [OF demo_mgr_inv _ _ r] by (simp add: yes_calls to_int_def)
  then show ?thesis using r demo_mgr_inv by auto
qed

text \<open>
  When \<^verbatim>\<open>munmap\<close> fails, \<open>remove_region\<close> still reports success, and the whole region that
  includes the window has left the manager although it is still mapped.
\<close>

theorem remove_region_failed_munmap:
  assumes "mgr_inv m" and "find_overlap m (window_region base sz) \<noteq> - 1"
    and "does_include (regions m ! nat (find_overlap m (window_region base sz))) (window_region base sz)"
    and "fst (my_munmap (kern E) base sz w) \<noteq> 0"
  shows "\<exists>m' w'. remove_region E base sz (m, w) = Some (Inr (SUCCESS, m', w')) \<and>
    managed m' = managed m - region_addrs (regions m ! nat (find_overlap m (window_region base sz)))"
proof -
  let ?i = "nat (find_overlap m (window_region base sz))"
  obtain j where j: "j < length (regions m)" "?i = j" by (rule find_overlap_some [OF assms(2)])
  obtain u w1 where "my_munmap (kern E) base sz w = (u, w1)" by fastforce
  then have "remove_region E base sz (m, w) = Some (Inr (SUCCESS, m\<lparr>regions := drop_region ?i (regions m)\<rparr>, w1))"
    using assms(2-4) by (simp add: remove_region_def Let_def)
  then show ?thesis using drop_region_inv(2) [OF assms(1) j(1)] j(2) by auto
qed


theorem remove_region_failed_munmap_witness:
  "\<exists>m'. remove_region (yes_env (- 22)) 8192 4096 (demo_mgr, ()) = Some (Inr (SUCCESS, m', ())) \<and>
     managed m' = managed demo_mgr - region_addrs demo_region"
proof -
  have "does_include (regions demo_mgr ! nat 0) (window_region 8192 4096)"
    by (simp add: does_include_def does_include_addr_def region_end_def)
  moreover have "fst (my_munmap (kern (yes_env (- 22))) 8192 4096 ()) \<noteq> 0" by (simp add: yes_calls to_int_def)
  ultimately show ?thesis
    using remove_region_failed_munmap [OF demo_mgr_inv, of 8192 4096 "yes_env (- 22)" "()"] by (simp add: demo_find)
qed

end
