(* ===== verification/Posix.thy ===== *)
theory Posix
  imports My_Libc
begin

text \<open>
  What the program relies on of the kernel: the documented behaviour of the file system calls,
  as a hypothesis \<open>posix k view\<close> about a kernel \<open>k\<close>. \<open>view\<close> is the part of the world the calls
  act on: one directory, the contents of files, descriptors, the address space and the
  ends of the pipes between the processes. Files and directory keep the states that a power
  failure may leave: everything since the last \<^verbatim>\<open>fsync\<close>, the current state first. Every call may
  fail, and \<^verbatim>\<open>read\<close> and \<^verbatim>\<open>write\<close> may transfer less than asked.
\<close>

section \<open>The file system\<close>

datatype ofd = DirFd | FileFd nat nat | PipeR | PipeW

type_synonym dir = "string \<rightharpoonup> nat"

record fs =
  dirs :: "dir list"
  contents :: "nat \<Rightarrow> byte list list"
  fds :: "int \<rightharpoonup> ofd"
  vm :: mem
  inbox :: "byte list"
  outbox :: "byte list"

abbreviation names :: "fs \<Rightarrow> dir" where "names v \<equiv> hd (dirs v)"
abbreviation data :: "fs \<Rightarrow> nat \<Rightarrow> byte list" where "data v i \<equiv> hd (contents v i)"

text \<open>\<^verbatim>\<open>write\<close> at an offset replaces what is there and keeps what is behind.\<close>

definition put :: "nat \<Rightarrow> byte list \<Rightarrow> byte list \<Rightarrow> byte list" where
  "put pos bs xs = take pos xs @ bs @ drop (pos + length bs) xs"

definition fails :: "fs \<Rightarrow> int \<Rightarrow> fs \<Rightarrow> bool" where
  "fails v r v' \<longleftrightarrow> - 4095 \<le> r \<and> r < 0 \<and> v' = v"

abbreviation max_rw :: nat where "max_rw \<equiv> 2147479552"

definition new_fd :: "fs \<Rightarrow> int \<Rightarrow> bool" where
  "new_fd v r \<longleftrightarrow> 0 \<le> r \<and> r < 2147483648 \<and> fds v r = None"

definition new_inode :: "fs \<Rightarrow> nat \<Rightarrow> bool" where
  "new_inode v i \<longleftrightarrow> (\<forall>d \<in> set (dirs v). i \<notin> ran d) \<and> (\<forall>fd pos. fds v fd \<noteq> Some (FileFd i pos))"

section \<open>The calls\<close>

definition open_ok :: "fs \<Rightarrow> int \<Rightarrow> int \<Rightarrow> fs \<Rightarrow> bool" where
  "open_ok v flags r v' \<longleftrightarrow> flags = O_DIRECTORY \<longrightarrow>
     fails v r v' \<or> new_fd v r \<and> v' = v\<lparr>fds := (fds v)(r \<mapsto> DirFd)\<rparr>"

definition openat_ok :: "fs \<Rightarrow> int \<Rightarrow> string \<Rightarrow> int \<Rightarrow> int \<Rightarrow> fs \<Rightarrow> bool" where
  "openat_ok v d p flags r v' \<longleftrightarrow> fds v d = Some DirFd \<longrightarrow>
     fails v r v' \<or> new_fd v r \<and>
     (case names v p of
        Some i \<Rightarrow> \<not> (bit flags 6 \<and> bit flags 7) \<and> v' = v\<lparr>fds := (fds v)(r \<mapsto> FileFd i 0)\<rparr>
      | None \<Rightarrow> bit flags 6 \<and> (\<exists>i. new_inode v i \<and>
          v' = v\<lparr>dirs := (names v)(p \<mapsto> i) # dirs v, contents := (contents v)(i := [[]]),
                 fds := (fds v)(r \<mapsto> FileFd i 0)\<rparr>))"

definition close_ok :: "fs \<Rightarrow> int \<Rightarrow> int \<Rightarrow> fs \<Rightarrow> bool" where
  "close_ok v fd r v' \<longleftrightarrow> - 4095 \<le> r \<and> r \<le> 0 \<and> (r = 0 \<longrightarrow> v' = v\<lparr>fds := (fds v)(fd := None)\<rparr>)"

definition write_ok :: "fs \<Rightarrow> int \<Rightarrow> byte list \<Rightarrow> int \<Rightarrow> fs \<Rightarrow> bool" where
  "write_ok v fd bs r v' \<longleftrightarrow>
     fails v r v' \<or> 0 \<le> r \<and> nat r \<le> length bs \<and> nat r \<le> max_rw \<and>
     (case fds v fd of
        Some (FileFd i pos) \<Rightarrow>
          v' = v\<lparr>contents := (contents v)(i := put pos (take (nat r) bs) (data v i) # contents v i),
                 fds := (fds v)(fd \<mapsto> FileFd i (pos + nat r))\<rparr>
      | Some PipeW \<Rightarrow> v' = v\<lparr>outbox := outbox v @ take (nat r) bs\<rparr>
      | _ \<Rightarrow> True)"

text \<open>\<open>store\<close> puts the bytes that were read where the caller wants them.\<close>

definition read_ok :: "fs \<Rightarrow> int \<Rightarrow> nat \<Rightarrow> (byte list \<Rightarrow> fs \<Rightarrow> fs) \<Rightarrow> int \<Rightarrow> byte list \<Rightarrow> fs \<Rightarrow> bool" where
  "read_ok v fd n store r out v' \<longleftrightarrow>
     fails v r v' \<or> 0 \<le> r \<and> nat r \<le> n \<and> nat r \<le> max_rw \<and>
     (case fds v fd of
        Some (FileFd i pos) \<Rightarrow>
          nat r \<le> length (data v i) - pos \<and> (r = 0 \<longrightarrow> n = 0 \<or> length (data v i) \<le> pos) \<and>
          out = take (nat r) (drop pos (data v i)) \<and>
          v' = store out (v\<lparr>fds := (fds v)(fd \<mapsto> FileFd i (pos + nat r))\<rparr>)
      | Some PipeR \<Rightarrow>
          nat r \<le> length (inbox v) \<and> out = take (nat r) (inbox v) \<and> v' = store out (v\<lparr>inbox := drop (nat r) (inbox v)\<rparr>)
      | _ \<Rightarrow> True)"

definition mmap_ok :: "fs \<Rightarrow> u64 \<Rightarrow> nat \<Rightarrow> int \<Rightarrow> int \<Rightarrow> int \<Rightarrow> fs \<Rightarrow> bool" where
  "mmap_ok v a n flags fd r v' \<longleftrightarrow> bit flags 4 \<longrightarrow>
     (\<exists>m. fails (v\<lparr>vm := m\<rparr>) r v') \<or> word_of_int r = a \<and>
     (if bit flags 5 then v' = v\<lparr>vm := wr a (replicate n 0) (vm v)\<rparr>
      else case fds v fd of
        Some (FileFd i pos) \<Rightarrow> v' = v\<lparr>vm := wr a (take n (data v i @ replicate n 0)) (vm v)\<rparr>
      | _ \<Rightarrow> True)"

definition munmap_ok :: "fs \<Rightarrow> u64 \<Rightarrow> nat \<Rightarrow> int \<Rightarrow> fs \<Rightarrow> bool" where
  "munmap_ok v a n r v' \<longleftrightarrow>
     fails v r v' \<or> r = 0 \<and> (\<exists>m. (\<forall>x. \<not> unat (x - a) < n \<longrightarrow> m x = vm v x) \<and> v' = v\<lparr>vm := m\<rparr>)"

definition fsync_ok :: "fs \<Rightarrow> int \<Rightarrow> int \<Rightarrow> fs \<Rightarrow> bool" where
  "fsync_ok v fd r v' \<longleftrightarrow>
     fails v r v' \<or> r = 0 \<and>
     (case fds v fd of
        Some (FileFd i pos) \<Rightarrow> v' = v\<lparr>contents := (contents v)(i := [data v i])\<rparr>
      | Some DirFd \<Rightarrow> v' = v\<lparr>dirs := [names v]\<rparr>
      | _ \<Rightarrow> True)"

definition renameat_ok :: "fs \<Rightarrow> int \<Rightarrow> string \<Rightarrow> int \<Rightarrow> string \<Rightarrow> int \<Rightarrow> fs \<Rightarrow> bool" where
  "renameat_ok v d p d' p' r v' \<longleftrightarrow> fds v d = Some DirFd \<longrightarrow> fds v d' = Some DirFd \<longrightarrow> p \<noteq> p' \<longrightarrow>
     fails v r v' \<and> (r = - ENOENT \<longrightarrow> names v p = None) \<or>
     r = 0 \<and> (\<exists>i. names v p = Some i \<and> v' = v\<lparr>dirs := (names v)(p := None, p' \<mapsto> i) # dirs v\<rparr>)"

definition unlinkat_ok :: "fs \<Rightarrow> int \<Rightarrow> string \<Rightarrow> int \<Rightarrow> fs \<Rightarrow> bool" where
  "unlinkat_ok v d p r v' \<longleftrightarrow> fds v d = Some DirFd \<longrightarrow>
     fails v r v' \<and> (r = - ENOENT \<longrightarrow> names v p = None) \<or>
     r = 0 \<and> names v p \<noteq> None \<and> v' = v\<lparr>dirs := (names v)(p := None) # dirs v\<rparr>"

text \<open>Arguments are decoded from the registers; other calls, and other uses of these, are unconstrained.\<close>

definition call_ok :: "int \<Rightarrow> sysarg list \<Rightarrow> fs \<Rightarrow> int \<Rightarrow> byte list \<Rightarrow> fs \<Rightarrow> bool" where
  "call_ok n args v r out v' \<longleftrightarrow>
     (case args of
        [Str p, Num fl, Num md] \<Rightarrow> n = SYS_open \<longrightarrow> open_ok v (to_int fl) r v'
      | [Num d, Str p, Num fl, Num md] \<Rightarrow> n = SYS_openat \<longrightarrow> openat_ok v (to_int d) p (to_int fl) r v'
      | [Num fd] \<Rightarrow> (n = SYS_close \<longrightarrow> close_ok v (to_int fd) r v') \<and> (n = SYS_fsync \<longrightarrow> fsync_ok v (to_int fd) r v')
      | [Num fd, Buf bs, Num c] \<Rightarrow> n = SYS_write \<longrightarrow> length bs = unat c \<longrightarrow> write_ok v (to_int fd) bs r v'
      | [Num fd, Num a, Num c] \<Rightarrow>
          (n = SYS_write \<longrightarrow> write_ok v (to_int fd) (rd (vm v) a (unat c)) r v') \<and>
          (n = SYS_read \<longrightarrow> (\<exists>bs. read_ok v (to_int fd) (unat c) (\<lambda>bs u. u\<lparr>vm := wr a bs (vm u)\<rparr>) r bs v'))
      | [Num fd, Out m, Num c] \<Rightarrow> n = SYS_read \<longrightarrow> m = unat c \<longrightarrow> read_ok v (to_int fd) m (\<lambda>_ u. u) r out v'
      | [Num a, Num c, Num pr, Num fl, Num fd, Num off] \<Rightarrow>
          n = SYS_mmap \<longrightarrow> off = 0 \<longrightarrow> mmap_ok v a (unat c) (to_int fl) (to_int fd) r v'
      | [Num a, Num c] \<Rightarrow> n = SYS_munmap \<longrightarrow> munmap_ok v a (unat c) r v'
      | [Num d, Str p, Num d', Str p'] \<Rightarrow> n = SYS_renameat \<longrightarrow> renameat_ok v (to_int d) p (to_int d') p' r v'
      | [Num d, Str p, Num fl] \<Rightarrow> n = SYS_unlinkat \<longrightarrow> unlinkat_ok v (to_int d) p r v'
      | _ \<Rightarrow> True)"

definition posix :: "'w kernel \<Rightarrow> ('w \<Rightarrow> fs) \<Rightarrow> bool" where
  "posix k view \<longleftrightarrow> (\<forall>n args w r out w'. k (syscall_regs n args) w = ((r, out), w') \<longrightarrow>
     call_ok n args (view w) (sint r) out (view w'))"

text \<open>What a power failure may leave of the files: a directory, and for each file some contents.\<close>

definition disk_image :: "fs \<Rightarrow> dir \<Rightarrow> (nat \<Rightarrow> byte list) \<Rightarrow> bool" where
  "disk_image v d f \<longleftrightarrow> d \<in> set (dirs v) \<and> (\<forall>i \<in> ran d. f i \<in> set (contents v i))"

end
