(* ===== verification/Posix_Calls.thy ===== *)
theory Posix_Calls
  imports Posix
begin

text \<open>
  The documented behaviour of the kernel seen through the wrappers: one rule per call, with the
  narrowing of results and descriptors to \<open>int\<close> discharged.
\<close>

lemma fails_range: "fails v (sint r) v' \<Longrightarrow> int_range r"
  by (simp add: fails_def int_range_def)

lemma posix_call:
  assumes "posix k view" and "syscall k n args w = ((r, out), w')"
  shows "call_ok n args (view w) (sint r) out (view w')"
  using assms unfolding posix_def syscall_def by blast

text \<open>The result of a wrapper that narrows, given the outcome of the call.\<close>

lemma call_result:
  assumes "syscall k n args w = ((r, out), w')"
  shows "int_call k n args w = (to_int r, w')"
  using assms by simp

lemma posix_open:
  assumes "posix k view" and "my_open k p O_DIRECTORY md w = (r, w')"
  shows "fails (view w) r (view w') \<or> new_fd (view w) r \<and> view w' = (view w)\<lparr>fds := (fds (view w))(r \<mapsto> DirFd)\<rparr>"
proof -
  obtain q out where s: "syscall k SYS_open [Str p, num O_DIRECTORY, num md] w = ((q, out), w')" "r = to_int q"
    using assms(2) by (auto simp: my_open_def split: prod.splits)
  have "open_ok (view w) O_DIRECTORY (sint q) (view w')"
    using posix_call [OF assms(1) s(1)] by (simp add: call_ok_def to_int_def)
  then show ?thesis
    using s(2) fails_range [of "view w" q "view w'"] to_int_exact [of q] by (auto simp: open_ok_def new_fd_def int_range_def)
qed

lemma posix_openat:
  assumes "posix k view" and "my_openat k d p fl md w = (r, w')" and "fds (view w) d = Some DirFd" "int32 d" "int32 fl"
  shows "openat_ok (view w) d p fl r (view w')" and "int32 r"
proof -
  obtain q out where s: "syscall k SYS_openat [num d, Str p, num fl, num md] w = ((q, out), w')" "r = to_int q"
    using assms(2) by (auto simp: my_openat_def split: prod.splits)
  have o: "openat_ok (view w) d p fl (sint q) (view w')"
    using posix_call [OF assms(1) s(1)] assms(4,5) by (simp add: call_ok_def)
  then have "int_range q"
    using assms(3) fails_range [of "view w" q "view w'"] by (auto simp: openat_ok_def new_fd_def int_range_def)
  then show "openat_ok (view w) d p fl r (view w')" "int32 r"
    using o s(2) by (simp_all add: int32_def int_range_def)
qed

lemma posix_close:
  assumes "posix k view" and "my_close k fd w = (r, w')" and "int32 fd"
  shows "close_ok (view w) fd r (view w')"
proof -
  obtain q out where s: "syscall k SYS_close [num fd] w = ((q, out), w')" "r = to_int q"
    using assms(2) by (auto simp: my_close_def split: prod.splits)
  have o: "close_ok (view w) fd (sint q) (view w')"
    using posix_call [OF assms(1) s(1)] assms(3) by (simp add: call_ok_def)
  then have "int_range q" by (simp add: close_ok_def int_range_def)
  then show ?thesis using o s(2) by simp
qed

lemma posix_fsync:
  assumes "posix k view" and "my_fsync k fd w = (r, w')" and "int32 fd"
  shows "fsync_ok (view w) fd r (view w')"
proof -
  obtain q out where s: "syscall k SYS_fsync [num fd] w = ((q, out), w')" "r = to_int q"
    using assms(2) by (auto simp: my_fsync_def split: prod.splits)
  have o: "fsync_ok (view w) fd (sint q) (view w')"
    using posix_call [OF assms(1) s(1)] assms(3) by (simp add: call_ok_def)
  then have "int_range q" using fails_range [of "view w" q "view w'"] by (auto simp: fsync_ok_def int_range_def)
  then show ?thesis using o s(2) by simp
qed

lemma posix_renameat:
  assumes "posix k view" and "my_renameat k d p d p' w = (r, w')"
    and "fds (view w) d = Some DirFd" "int32 d" "p \<noteq> p'"
  shows "renameat_ok (view w) d p d p' r (view w')"
proof -
  obtain q out where s: "syscall k SYS_renameat [num d, Str p, num d, Str p'] w = ((q, out), w')" "r = to_int q"
    using assms(2) by (auto simp: my_renameat_def split: prod.splits)
  have o: "renameat_ok (view w) d p d p' (sint q) (view w')"
    using posix_call [OF assms(1) s(1)] assms(4) by (simp add: call_ok_def)
  then have "int_range q"
    using assms(3,5) fails_range [of "view w" q "view w'"] by (auto simp: renameat_ok_def int_range_def)
  then show ?thesis using o s(2) by simp
qed

lemma posix_unlinkat:
  assumes "posix k view" and "my_unlinkat k d p fl w = (r, w')" and "fds (view w) d = Some DirFd" "int32 d"
  shows "unlinkat_ok (view w) d p r (view w')"
proof -
  obtain q out where s: "syscall k SYS_unlinkat [num d, Str p, num fl] w = ((q, out), w')" "r = to_int q"
    using assms(2) by (auto simp: my_unlinkat_def split: prod.splits)
  have o: "unlinkat_ok (view w) d p (sint q) (view w')"
    using posix_call [OF assms(1) s(1)] assms(4) by (simp add: call_ok_def)
  then have "int_range q"
    using assms(3) fails_range [of "view w" q "view w'"] by (auto simp: unlinkat_ok_def int_range_def)
  then show ?thesis using o s(2) by simp
qed

lemma posix_write:
  assumes "posix k view" and "my_write k fd (Buf bs) c w = (r, w')" and "length bs = unat c" "int32 fd"
  shows "write_ok (view w) fd bs r (view w')"
proof -
  obtain q out where s: "syscall k SYS_write [num fd, Buf bs, Num c] w = ((q, out), w')" "r = sint q"
    using assms(2) by (auto simp: my_write_def split: prod.splits)
  then show ?thesis using posix_call [OF assms(1) s(1)] assms(3,4) by (simp add: call_ok_def)
qed

lemma posix_write_mem:
  assumes "posix k view" and "my_write k fd (Num a) c w = (r, w')" and "int32 fd"
  shows "write_ok (view w) fd (rd (vm (view w)) a (unat c)) r (view w')"
proof -
  obtain q out where s: "syscall k SYS_write [num fd, Num a, Num c] w = ((q, out), w')" "r = sint q"
    using assms(2) by (auto simp: my_write_def split: prod.splits)
  then show ?thesis using posix_call [OF assms(1) s(1)] assms(3) by (simp add: call_ok_def)
qed

lemma posix_read:
  assumes "posix k view" and "my_read k fd (Out m) c w = ((r, bs), w')" and "m = unat c" "int32 fd"
  shows "read_ok (view w) fd m (\<lambda>_ u. u) r bs (view w')"
proof -
  obtain q where s: "syscall k SYS_read [num fd, Out m, Num c] w = ((q, bs), w')" "r = sint q"
    using assms(2) by (auto simp: my_read_def split: prod.splits)
  then show ?thesis using posix_call [OF assms(1) s(1)] assms(3,4) by (simp add: call_ok_def)
qed

lemma posix_read_mem:
  assumes "posix k view" and "my_read k fd (Num a) c w = ((r, out), w')" and "int32 fd"
  shows "\<exists>bs. read_ok (view w) fd (unat c) (\<lambda>bs u. u\<lparr>vm := wr a bs (vm u)\<rparr>) r bs (view w')"
proof -
  obtain q where s: "syscall k SYS_read [num fd, Num a, Num c] w = ((q, out), w')" "r = sint q"
    using assms(2) by (auto simp: my_read_def split: prod.splits)
  then show ?thesis using posix_call [OF assms(1) s(1)] assms(3) by (simp add: call_ok_def)
qed

lemma posix_mmap:
  assumes "posix k view" and "my_mmap k a c pr fl fd 0 w = (r, w')" and "int32 fl" "int32 fd"
  shows "mmap_ok (view w) a (unat c) fl fd (sint r) (view w')"
proof -
  obtain out where s: "syscall k SYS_mmap [Num a, Num c, num pr, num fl, num fd, num 0] w = ((r, out), w')"
    using assms(2) by (auto simp: my_mmap_def split: prod.splits)
  then show ?thesis using posix_call [OF assms(1) s] assms(3,4) by (simp add: call_ok_def)
qed

text \<open>A transferred count survives the narrowing, too.\<close>

lemma transfer_range:
  "write_ok v fd bs r v' \<Longrightarrow> int32 r"
  "read_ok v fd n st r out v' \<Longrightarrow> int32 r"
  by (auto simp: write_ok_def read_ok_def fails_def int32_def nat_le_iff)

text \<open>A read of \<open>c\<close> bytes fails, is short, or is complete.\<close>

lemma transfer_short:
  assumes "read_ok v fd 24 st r out v'"
  shows "r < 0 \<or> (word_of_int r :: u64) < 24 \<or> r = 24"
proof (cases "r < 0")
  case False
  then have "0 \<le> r" "nat r \<le> 24" using assms by (auto simp: read_ok_def fails_def)
  then have "r = 24 \<or> (word_of_int r :: u64) < 24"
    by (cases "r = 24") (auto simp: word_less_def unsigned_of_int take_bit_int_eq_self)
  then show ?thesis by auto
qed simp

end
