(* ===== verification/Region_Files.thy ===== *)
theory Region_Files
  imports Mem_Region Region_Inv Posix_Calls
begin

text \<open>
  The region manager on a kernel with the documented file system calls: the region table and the
  region files. The table survives a power failure, the two tables implement the choice between
  the old and the new set of regions, moving a region into a file preserves its contents, and
  the foreground rebuilds the regions the background sends it.
\<close>

section \<open>The bytes of a table\<close>

abbreviation region_bytes :: "'w env \<Rightarrow> region \<Rightarrow> byte list" where
  "region_bytes E r \<equiv> encode_region (padding E) r"

definition table_bytes :: "'w env \<Rightarrow> region list \<Rightarrow> byte list" where
  "table_bytes E xs = concat (map (region_bytes E) xs)"

definition padded :: "'w env \<Rightarrow> bool" where
  "padded E \<longleftrightarrow> (\<forall>r. length (padding E r) = 4)"

lemma table_bytes_simps [simp]:
  "table_bytes E [] = []" "table_bytes E (r # xs) = region_bytes E r @ table_bytes E xs"
  "table_bytes E (xs @ ys) = table_bytes E xs @ table_bytes E ys"
  by (simp_all add: table_bytes_def)

lemma length_encode_region [simp]: "padded E \<Longrightarrow> length (region_bytes E r) = 24"
  by (simp add: encode_region_def padded_def)

lemma length_table_bytes: "padded E \<Longrightarrow> length (table_bytes E xs) = 24 * length xs"
  by (induction xs) auto

lemma decode_encode_region [simp]: "decode_region (encode_region pad r) = r"
  by (simp add: decode_region_def encode_region_def del: le_bytes.simps)

section \<open>Writing the table\<close>

lemma put_end [simp]: "put (length xs) bs xs = xs @ bs"
  by (simp add: put_def)

lemma write_region_file:
  assumes "posix (kern E) view" and "padded E" and "int32 fd"
    and fd: "fds (view w) fd = Some (FileFd i (length (data (view w) i)))"
    and "write_region E fd r w = Inr w'"
  shows "view w' = (view w)\<lparr>contents := (contents (view w))(i := (data (view w) i @ region_bytes E r) # contents (view w) i),
           fds := (fds (view w))(fd \<mapsto> FileFd i (length (data (view w) i) + 24))\<rparr>"
proof -
  obtain n w1 where n: "my_write (kern E) fd (Buf (region_bytes E r)) 24 w = (n, w1)" by fastforce
  have w: "write_ok (view w) fd (region_bytes E r) n (view w1)"
    by (rule posix_write [OF assms(1) n]) (use assms(2,3) in simp_all)
  then have "n = 24" "w' = w1" using assms(5) n transfer_range(1) [OF w] by (auto simp: write_region_def Let_def)
  with w fd assms(2) show ?thesis by (auto simp: write_ok_def fails_def)
qed

lemma write_region_pipe:
  assumes "posix (kern E) view" and "padded E" and "int32 fd"
    and "fds (view w) fd = Some PipeW" and "write_region E fd r w = Inr w'"
  shows "view w' = (view w)\<lparr>outbox := outbox (view w) @ region_bytes E r\<rparr>"
proof -
  obtain n w1 where n: "my_write (kern E) fd (Buf (region_bytes E r)) 24 w = (n, w1)" by fastforce
  have w: "write_ok (view w) fd (region_bytes E r) n (view w1)"
    by (rule posix_write [OF assms(1) n]) (use assms(2,3) in simp_all)
  then have "n = 24" "w' = w1" using assms(5) n transfer_range(1) [OF w] by (auto simp: write_region_def Let_def)
  with w assms(2,4) show ?thesis by (auto simp: write_ok_def fails_def)
qed

lemma write_regions_file:
  assumes "posix (kern E) view" and "padded E" and "int32 fd"
    and "fds (view w) fd = Some (FileFd i (length (data (view w) i)))"
    and "write_regions E fd xs w = Inr w'"
  shows "\<exists>h. view w' = (view w)\<lparr>contents := (contents (view w))(i := h),
           fds := (fds (view w))(fd \<mapsto> FileFd i (length (data (view w) i) + 24 * length xs))\<rparr> \<and>
           hd h = data (view w) i @ table_bytes E xs"
  using assms(4,5)
proof (induction xs arbitrary: w)
  case Nil
  then show ?case by (intro exI [of _ "contents (view w) i"]) (auto simp: fun_upd_idem)
next
  case (Cons r xs)
  obtain w1 where w1: "write_region E fd r w = Inr w1" "write_regions E fd xs w1 = Inr w'"
    using Cons.prems(2) by (auto simp: bind_result_Inr)
  note v1 = write_region_file [OF assms(1-3) Cons.prems(1) w1(1)]
  have "fds (view w1) fd = Some (FileFd i (length (data (view w1) i)))"
    using assms(2) by (simp add: v1)
  from Cons.IH [OF this w1(2)] obtain h where
    "view w' = (view w1)\<lparr>contents := (contents (view w1))(i := h),
       fds := (fds (view w1))(fd \<mapsto> FileFd i (length (data (view w1) i) + 24 * length xs))\<rparr>"
    "hd h = data (view w1) i @ table_bytes E xs" by blast
  then show ?case using assms(2) by (intro exI [of _ h]) (simp add: v1 add.assoc fun_upd_def cong: if_cong)
qed

lemma write_regions_pipe:
  assumes "posix (kern E) view" and "padded E" and "int32 fd"
    and "fds (view w) fd = Some PipeW" and "write_regions E fd xs w = Inr w'"
  shows "view w' = (view w)\<lparr>outbox := outbox (view w) @ table_bytes E xs\<rparr>"
  using assms(4,5)
proof (induction xs arbitrary: w)
  case (Cons r xs)
  obtain w1 where w1: "write_region E fd r w = Inr w1" "write_regions E fd xs w1 = Inr w'"
    using Cons.prems(2) by (auto simp: bind_result_Inr)
  note v1 = write_region_pipe [OF assms(1-3) Cons.prems(1) w1(1)]
  show ?case using Cons.IH [OF _ w1(2)] Cons.prems(1) by (simp add: v1)
qed simp

lemma openat_new:
  assumes "openat_ok v d p fl r v'" and "fds v d = Some DirFd" and "names v p = None" and "0 \<le> r"
  obtains i where "new_inode v i" "new_fd v r"
    "v' = v\<lparr>dirs := (names v)(p \<mapsto> i) # dirs v, contents := (contents v)(i := [[]]), fds := (fds v)(r \<mapsto> FileFd i 0)\<rparr>"
  using assms by (auto simp: openat_ok_def fails_def)

lemma openat_old:
  assumes "openat_ok v d p fl r v'" and "fds v d = Some DirFd" and "\<not> bit fl 6" and "0 \<le> r"
  obtains i where "names v p = Some i" "new_fd v r" "v' = v\<lparr>fds := (fds v)(r \<mapsto> FileFd i 0)\<rparr>"
  using assms by (auto simp: openat_ok_def fails_def split: option.splits)

lemma close_done: "close_ok v fd r v' \<Longrightarrow> \<not> r < 0 \<Longrightarrow> v' = v\<lparr>fds := (fds v)(fd := None)\<rparr>"
  by (auto simp: close_ok_def)

lemma fsync_file: "fsync_ok v fd r v' \<Longrightarrow> \<not> r < 0 \<Longrightarrow> fds v fd = Some (FileFd i pos) \<Longrightarrow>
    v' = v\<lparr>contents := (contents v)(i := [data v i])\<rparr>"
  by (auto simp: fsync_ok_def fails_def)

lemma fsync_dir: "fsync_ok v fd r v' \<Longrightarrow> \<not> r < 0 \<Longrightarrow> fds v fd = Some DirFd \<Longrightarrow> v' = v\<lparr>dirs := [names v]\<rparr>"
  by (auto simp: fsync_ok_def fails_def)

lemma new_fd_int32: "new_fd v r \<Longrightarrow> int32 r"
  by (simp add: new_fd_def int32_def)

lemma persist_new_region_table_files:
  assumes px: "posix (kern E) view" and pad: "padded E" and d: "fds (view w) (pmem_dirfd m) = Some DirFd" "int32 (pmem_dirfd m)"
    and new: "names (view w) NEW_TABLE_FILE_NAME = None"
    and res: "persist_new_region_table E (m, w) = Inr (res, w')"
  shows "\<exists>i. new_inode (view w) i \<and>
     view w' = (view w)\<lparr>dirs := [(names (view w))(NEW_TABLE_FILE_NAME \<mapsto> i)],
       contents := (contents (view w))(i := [table_bytes E (regions m)])\<rparr>"
proof -
  obtain fd w1 where o: "my_openat (kern E) (pmem_dirfd m) NEW_TABLE_FILE_NAME 65 0 w = (fd, w1)" by fastforce
  obtain w2 where wr: "0 \<le> fd" "write_regions E fd (regions m) w1 = Inr w2"
    using res o by (auto simp: persist_new_region_table_def bind_result_Inr)
  obtain c1 w3 where f: "my_fsync (kern E) fd w2 = (c1, w3)" by fastforce
  obtain c2 w4 where cl: "my_close (kern E) fd w3 = (c2, w4)" by fastforce
  obtain c3 w5 where fd: "my_fsync (kern E) (pmem_dirfd m) w4 = (c3, w5)" by fastforce
  have c: "\<not> c1 < 0" "\<not> c2 < 0" "\<not> c3 < 0" "w' = w5"
    using res by (auto simp: persist_new_region_table_def o wr f cl fd Let_def)
  have fl: "int32 65" by simp
  obtain i where i: "new_inode (view w) i" "new_fd (view w) fd"
    "view w1 = (view w)\<lparr>dirs := (names (view w))(NEW_TABLE_FILE_NAME \<mapsto> i) # dirs (view w),
       contents := (contents (view w))(i := [[]]), fds := (fds (view w))(fd \<mapsto> FileFd i 0)\<rparr>"
    by (rule openat_new [OF posix_openat(1) [OF px o d fl] d(1) new wr(1)])
  have i32: "int32 fd" by (rule new_fd_int32 [OF i(2)])
  obtain h where h: "view w2 = (view w1)\<lparr>contents := (contents (view w1))(i := h),
      fds := (fds (view w1))(fd \<mapsto> FileFd i (24 * length (regions m)))\<rparr>" "hd h = table_bytes E (regions m)"
    using write_regions_file [OF px pad i32 _ wr(2), of i] by (auto simp: i(3))
  have ne: "fd \<noteq> pmem_dirfd m" using i(2) d(1) by (auto simp: new_fd_def)
  have v3: "view w3 = (view w2)\<lparr>contents := (contents (view w2))(i := [data (view w2) i])\<rparr>"
    by (rule fsync_file [OF posix_fsync [OF px f i32] c(1)]) (simp add: h i(3))
  have v4: "view w4 = (view w3)\<lparr>fds := (fds (view w3))(fd := None)\<rparr>"
    by (rule close_done [OF posix_close [OF px cl i32] c(2)])
  have v5: "view w5 = (view w4)\<lparr>dirs := [names (view w4)]\<rparr>"
    by (rule fsync_dir [OF posix_fsync [OF px fd d(2)] c(3)]) (use ne d(1) in \<open>simp add: v4 v3 h(1) i(3)\<close>)
  have "(fds (view w))(fd := None) = fds (view w)" using i(2) by (auto simp: new_fd_def)
  with i(1) show ?thesis by (intro exI [of _ i]) (simp add: c(4) v5 v4 v3 h i(3))
qed

section \<open>Choosing a table\<close>

lemma table_names [simp]:
  "NEW_TABLE_FILE_NAME \<noteq> CURRENT_TABLE_FILE_NAME" "CURRENT_TABLE_FILE_NAME \<noteq> NEW_TABLE_FILE_NAME"
  by (simp_all add: NEW_TABLE_FILE_NAME_def CURRENT_TABLE_FILE_NAME_def)

lemma commit_new_region_table_files:
  assumes px: "posix (kern E) view" and d: "fds (view w) (pmem_dirfd m) = Some DirFd" "int32 (pmem_dirfd m)"
    and res: "commit_new_region_table E (m, w) = (SUCCESS, w')"
  shows "case names (view w) NEW_TABLE_FILE_NAME of
      None \<Rightarrow> view w' = view w
    | Some i \<Rightarrow> view w' = (view w)\<lparr>dirs := [(names (view w))(NEW_TABLE_FILE_NAME := None, CURRENT_TABLE_FILE_NAME \<mapsto> i)]\<rparr>"
proof -
  obtain r w1 where r: "my_renameat (kern E) (pmem_dirfd m) NEW_TABLE_FILE_NAME (pmem_dirfd m) CURRENT_TABLE_FILE_NAME w = (r, w1)"
    by fastforce
  obtain c w2 where c: "my_fsync (kern E) (pmem_dirfd m) w1 = (c, w2)" by fastforce
  have rn: "renameat_ok (view w) (pmem_dirfd m) NEW_TABLE_FILE_NAME (pmem_dirfd m) CURRENT_TABLE_FILE_NAME r (view w1)"
    by (rule posix_renameat [OF px r d]) simp
  show ?thesis
  proof (cases "r < 0")
    case True
    then have "r = - ENOENT" "w' = w1" using res by (auto simp: commit_new_region_table_def r Let_def split: if_splits)
    then show ?thesis using rn d(1) by (auto simp: renameat_ok_def fails_def)
  next
    case False
    then have c': "\<not> c < 0" "w' = w2" using res by (auto simp: commit_new_region_table_def r c Let_def split: if_splits)
    from False rn d(1) obtain i where i: "names (view w) NEW_TABLE_FILE_NAME = Some i"
      "view w1 = (view w)\<lparr>dirs := (names (view w))(NEW_TABLE_FILE_NAME := None, CURRENT_TABLE_FILE_NAME \<mapsto> i) # dirs (view w)\<rparr>"
      by (auto simp: renameat_ok_def fails_def)
    have "view w2 = (view w1)\<lparr>dirs := [names (view w1)]\<rparr>"
      by (rule fsync_dir [OF posix_fsync [OF px c d(2)] c'(1)]) (use d(1) in \<open>simp add: i(2)\<close>)
    then show ?thesis by (simp add: c'(2) i)
  qed
qed

text \<open>Whatever it returns, the directory is the old one, the new one, or not yet decided.\<close>

lemma commit_new_region_table_dirs:
  assumes px: "posix (kern E) view" and d: "fds (view w) (pmem_dirfd m) = Some DirFd" "int32 (pmem_dirfd m)"
    and i: "names (view w) NEW_TABLE_FILE_NAME = Some i"
  shows "\<exists>ds. view (snd (commit_new_region_table E (m, w))) = (view w)\<lparr>dirs := ds\<rparr> \<and>
    set ds \<subseteq> insert ((names (view w))(NEW_TABLE_FILE_NAME := None, CURRENT_TABLE_FILE_NAME \<mapsto> i)) (set (dirs (view w)))"
proof -
  obtain r w1 where r: "my_renameat (kern E) (pmem_dirfd m) NEW_TABLE_FILE_NAME (pmem_dirfd m) CURRENT_TABLE_FILE_NAME w = (r, w1)"
    by fastforce
  obtain c w2 where c: "my_fsync (kern E) (pmem_dirfd m) w1 = (c, w2)" by fastforce
  have rn: "renameat_ok (view w) (pmem_dirfd m) NEW_TABLE_FILE_NAME (pmem_dirfd m) CURRENT_TABLE_FILE_NAME r (view w1)"
    by (rule posix_renameat [OF px r d]) simp
  show ?thesis
  proof (cases "r < 0")
    case True
    then have "view (snd (commit_new_region_table E (m, w))) = view w"
      using rn d(1) by (auto simp: commit_new_region_table_def r renameat_ok_def fails_def)
    then show ?thesis by (intro exI [of _ "dirs (view w)"]) auto
  next
    case False
    then have s: "snd (commit_new_region_table E (m, w)) = w2" by (simp add: commit_new_region_table_def r c)
    have v1: "view w1 = (view w)\<lparr>dirs := (names (view w))(NEW_TABLE_FILE_NAME := None, CURRENT_TABLE_FILE_NAME \<mapsto> i) # dirs (view w)\<rparr>"
      using False rn d(1) i by (auto simp: renameat_ok_def fails_def)
    then have "view w2 = view w1 \<or> view w2 = (view w1)\<lparr>dirs := [names (view w1)]\<rparr>"
      using posix_fsync [OF px c d(2)] d(1) by (auto simp: fsync_ok_def fails_def)
    then show ?thesis unfolding s by (auto simp: v1)
  qed
qed

lemma clear_new_region_table_files:
  assumes px: "posix (kern E) view" and d: "fds (view w) (pmem_dirfd m) = Some DirFd" "int32 (pmem_dirfd m)"
    and res: "clear_new_region_table E (m, w) = (SUCCESS, w')"
  shows "names (view w') = (names (view w))(NEW_TABLE_FILE_NAME := None) \<and> (\<exists>ds. view w' = (view w)\<lparr>dirs := ds\<rparr>)"
proof -
  obtain r w1 where r: "my_unlinkat (kern E) (pmem_dirfd m) NEW_TABLE_FILE_NAME 0 w = (r, w1)" by fastforce
  obtain c w2 where c: "my_fsync (kern E) (pmem_dirfd m) w1 = (c, w2)" by fastforce
  have ul: "unlinkat_ok (view w) (pmem_dirfd m) NEW_TABLE_FILE_NAME r (view w1)" by (rule posix_unlinkat [OF px r d])
  show ?thesis
  proof (cases "r < 0")
    case True
    then have "r = - ENOENT" "w' = w1" using res by (auto simp: clear_new_region_table_def r Let_def split: if_splits)
    then have "view w' = view w" "names (view w) NEW_TABLE_FILE_NAME = None"
      using ul d(1) by (auto simp: unlinkat_ok_def fails_def)
    then show ?thesis by (auto intro!: exI [of _ "dirs (view w)"])
  next
    case False
    then have c': "\<not> c < 0" "w' = w2" using res by (auto simp: clear_new_region_table_def r c Let_def split: if_splits)
    from False ul d(1) have v1: "view w1 = (view w)\<lparr>dirs := (names (view w))(NEW_TABLE_FILE_NAME := None) # dirs (view w)\<rparr>"
      by (auto simp: unlinkat_ok_def fails_def)
    have "view w2 = (view w1)\<lparr>dirs := [names (view w1)]\<rparr>"
      by (rule fsync_dir [OF posix_fsync [OF px c d(2)] c'(1)]) (use d(1) in \<open>simp add: v1\<close>)
    then show ?thesis by (auto simp: c'(2) v1)
  qed
qed

section \<open>Recovery\<close>

text \<open>A region of a user process; its base cannot be mistaken for an error of \<^verbatim>\<open>mmap\<close>.\<close>

definition user_region :: "region \<Rightarrow> bool" where
  "user_region r \<longleftrightarrow> region_ok r \<and> unat (reg_base r) < 2 ^ 63"

lemma user_region_sint:
  assumes "user_region r"
  shows "sint (reg_base r) = int (unat (reg_base r))"
proof -
  have "uint (reg_base r) < 9223372036854775808"
    using assms nat_less_iff [of "uint (reg_base r)" 9223372036854775808] by (simp add: user_region_def)
  then have "signed_take_bit 63 (uint (reg_base r)) = uint (reg_base r)"
    by (intro signed_take_bit_int_eq_self) (simp_all add: order.trans [OF _ uint_nonnegative])
  then show ?thesis using sint_uint [of "reg_base r"] by simp
qed

definition file_bytes :: "fs \<Rightarrow> region \<Rightarrow> byte list" where
  "file_bytes v r = (let n = unat (reg_size r) in
     take n (data v (the (names v (make_file_name r))) @ replicate n 0))"

definition load_region :: "fs \<Rightarrow> region \<Rightarrow> mem \<Rightarrow> mem" where
  "load_region v r = wr (reg_base r) (file_bytes v r)"


lemma mmap_file:
  assumes "mmap_ok v a n SHARED_FIXED fd (sint a) v'" and "fds v fd = Some (FileFd i pos)" and "0 \<le> sint a"
  shows "v' = v\<lparr>vm := wr a (take n (data v i @ replicate n 0)) (vm v)\<rparr>"
proof -
  have "bit SHARED_FIXED 4" "\<not> bit SHARED_FIXED 5"
    by (simp_all add: SHARED_FIXED_def bit_or_iff bit_numeral_rec)
  with assms show ?thesis by (auto simp: mmap_ok_def fails_def)
qed

lemma shared_int32 [simp]: "int32 SHARED_FIXED" "int32 ANON_FIXED"
  by (simp_all add: SHARED_FIXED_def ANON_FIXED_def)

lemma recover_region_files:
  assumes px: "posix (kern E) view" and d: "fds (view w) (pmem_dirfd m) = Some DirFd" "int32 (pmem_dirfd m)"
    and r: "user_region r" and res: "recover_region E r (m, w) = Inr (m', w')"
  shows "m' = add_region r m" and "view w' = (view w)\<lparr>vm := load_region (view w) r (vm (view w))\<rparr>"
    and "names (view w) (make_file_name r) \<noteq> None"
proof -
  obtain fd w1 where o: "my_openat (kern E) (pmem_dirfd m) (make_file_name r) O_RDWR 0 w = (fd, w1)" by fastforce
  obtain ret w2 where mm: "my_mmap (kern E) (reg_base r) (reg_size r) RW SHARED_FIXED fd 0 w1 = (ret, w2)" by fastforce
  obtain c w3 where cl: "my_close (kern E) fd w2 = (c, w3)" by fastforce
  have e: "0 \<le> fd" "ret = reg_base r" "\<not> c < 0" "m' = add_region r m" "w' = w3"
    using res by (auto simp: recover_region_def o mm cl Let_def)
  show "m' = add_region r m" by (rule e(4))
  obtain i where i: "names (view w) (make_file_name r) = Some i" "new_fd (view w) fd"
    "view w1 = (view w)\<lparr>fds := (fds (view w))(fd \<mapsto> FileFd i 0)\<rparr>"
    by (rule openat_old [OF posix_openat(1) [OF px o d] d(1) _ e(1)]) (simp_all add: bit_numeral_rec)
  have i32: "int32 fd" by (rule new_fd_int32 [OF i(2)])
  have v2: "view w2 = (view w1)\<lparr>vm := wr (reg_base r)
      (take (unat (reg_size r)) (data (view w1) i @ replicate (unat (reg_size r)) 0)) (vm (view w1))\<rparr>"
    by (rule mmap_file [OF posix_mmap [OF px mm shared_int32(1) i32, unfolded e(2)]])
      (simp_all add: i(3) user_region_sint [OF r])
  have v3: "view w3 = (view w2)\<lparr>fds := (fds (view w2))(fd := None)\<rparr>"
    by (rule close_done [OF posix_close [OF px cl i32] e(3)])
  have "(fds (view w))(fd := None) = fds (view w)" using i(2) by (auto simp: new_fd_def)
  then show "view w' = (view w)\<lparr>vm := load_region (view w) r (vm (view w))\<rparr>"
    by (simp add: e(5) v3 v2 i load_region_def file_bytes_def Let_def)
  show "names (view w) (make_file_name r) \<noteq> None" by (simp add: i(1))
qed

lemma load_region_frame [simp]:
  "load_region (v\<lparr>vm := mm\<rparr>) = load_region v" "load_region (v\<lparr>fds := ff\<rparr>) = load_region v"
  "load_region (v\<lparr>inbox := bb\<rparr>) = load_region v"
  by (simp_all add: fun_eq_iff load_region_def file_bytes_def)

lemma pmem_dirfd_add [simp]: "pmem_dirfd (add_region r m) = pmem_dirfd m"
  by (simp add: add_region_def)

text \<open>
  The reading loop, at offset \<open>pos\<close> of a table: it returns, and unless an assertion or the last
  \<^verbatim>\<open>read\<close> fails it has added and mapped all regions from there on.
\<close>

lemma recover_loop_files:
  assumes px: "posix (kern E) view" and pad: "padded E" and i32: "int32 (pmem_dirfd m)" "int32 fd"
    and ok: "\<forall>r \<in> set xs. user_region r"
    and d: "fds (view w) (pmem_dirfd m) = Some DirFd" and fd: "fds (view w) fd = Some (FileFd i pos)"
    and tab: "drop pos (data (view w) i) = table_bytes E xs"
  shows "\<exists>res. recover_loop E fd (m, w) = Some res \<and>
    (\<forall>n m' w'. res = Inr (n, m', w') \<longrightarrow> 0 \<le> n \<longrightarrow> m' = fold add_region xs m \<and>
       (\<exists>pos'. view w' = (view w)\<lparr>fds := (fds (view w))(fd \<mapsto> FileFd i pos'), vm := fold (load_region (view w)) xs (vm (view w))\<rparr>))"
  using i32(1) ok d fd tab
proof (induction xs arbitrary: m w pos)
  case Nil
  obtain n bs w1 where n: "my_read (kern E) fd (Out 24) 24 w = ((n, bs), w1)" by (metis surj_pair)
  have ro: "read_ok (view w) fd 24 (\<lambda>_ u. u) n bs (view w1)"
    by (rule posix_read [OF px n]) (use i32 in simp_all)
  have "length (data (view w) i) \<le> pos" using Nil.prems(5) by simp
  with ro Nil.prems(4) have "n \<le> 0" "n = 0 \<longrightarrow> view w1 = (view w)\<lparr>fds := (fds (view w))(fd \<mapsto> FileFd i pos)\<rparr>"
    by (auto simp: read_ok_def fails_def)
  then show ?case using transfer_range(2) [OF ro]
    by (subst recover_loop.simps) (auto simp: n)
next
  case (Cons r xs)
  obtain n bs w1 where n: "my_read (kern E) fd (Out 24) 24 w = ((n, bs), w1)" by (metis surj_pair)
  have ro: "read_ok (view w) fd 24 (\<lambda>_ u. u) n bs (view w1)"
    by (rule posix_read [OF px n]) (use i32 in simp_all)
  have ti: "to_int (word_of_int n) = n" by (rule to_int_of [OF transfer_range(2) [OF ro]])
  have len: "24 \<le> length (data (view w) i) - pos"
    using arg_cong [OF Cons.prems(5), of length] pad by simp
  consider "n < 0" | "0 < n" "n \<noteq> 24" | "n = 24"
    using ro Cons.prems(4) len by (fastforce simp: read_ok_def fails_def)
  then show ?case
  proof cases
    case 3
    have v1: "bs = region_bytes E r" "view w1 = (view w)\<lparr>fds := (fds (view w))(fd \<mapsto> FileFd i (pos + 24))\<rparr>"
      using ro Cons.prems(4,5) 3 pad by (auto simp: read_ok_def fails_def)
    show ?thesis
    proof (cases "recover_region E r (m, w1)")
      case (Inl e)
      then show ?thesis by (subst recover_loop.simps) (simp add: n 3 v1(1) to_int_def)
    next
      case (Inr s)
      obtain m2 w2 where s: "s = (m2, w2)" by fastforce
      have ne: "fd \<noteq> pmem_dirfd m" using Cons.prems(3,4) by auto
      have d1: "fds (view w1) (pmem_dirfd m) = Some DirFd" using Cons.prems(3) ne by (simp add: v1(2))
      have rr: "user_region r" "\<forall>r \<in> set xs. user_region r" using Cons.prems(2) by simp_all
      note rf = recover_region_files [OF px d1 Cons.prems(1) rr(1) Inr [unfolded s]]
      have v2: "view w2 = (view w)\<lparr>fds := (fds (view w))(fd \<mapsto> FileFd i (pos + 24)), vm := load_region (view w) r (vm (view w))\<rparr>"
        by (simp add: rf(2) v1(2))
      have dr: "drop (pos + 24) (data (view w2) i) = table_bytes E xs"
        using arg_cong [OF Cons.prems(5), of "drop 24"] pad by (simp add: v2 drop_drop add.commute)
      have prem: "int32 (pmem_dirfd m2)" "fds (view w2) (pmem_dirfd m2) = Some DirFd" "fds (view w2) fd = Some (FileFd i (pos + 24))"
        using Cons.prems(1,3) ne by (simp_all add: rf(1) v2)
      have "recover_loop E fd (m, w) = recover_loop E fd (m2, w2)"
        by (subst recover_loop.simps) (simp add: n 3 v1(1) to_int_def Inr s)
      then show ?thesis using Cons.IH [OF prem(1) rr(2) prem(2,3) dr] by (simp add: rf(1) v2 cong: if_cong)
    qed
  qed (subst recover_loop.simps, auto simp: n ti)+
qed

lemma recover_files:
  assumes px: "posix (kern E) view" and pad: "padded E" and i32: "int32 (pmem_dirfd m)"
    and d: "fds (view w) (pmem_dirfd m) = Some DirFd" and ok: "\<forall>r \<in> set xs. user_region r"
    and cur: "names (view w) CURRENT_TABLE_FILE_NAME = Some i" and tab: "data (view w) i = table_bytes E xs"
  shows "\<exists>res. recover E (m, w) = Some res \<and> (\<forall>m' w'. res = Inr (m', w') \<longrightarrow> m' = fold add_region xs m \<and>
     view w' = (view w)\<lparr>vm := fold (load_region (view w)) xs (vm (view w))\<rparr>)"
proof -
  obtain fd w1 where o: "my_openat (kern E) (pmem_dirfd m) CURRENT_TABLE_FILE_NAME O_RDONLY 0 w = (fd, w1)" by fastforce
  show ?thesis
  proof (cases "0 \<le> fd")
    case False
    then show ?thesis by (simp add: recover_def o)
  next
    case True
    obtain j where j: "names (view w) CURRENT_TABLE_FILE_NAME = Some j" "new_fd (view w) fd"
      "view w1 = (view w)\<lparr>fds := (fds (view w))(fd \<mapsto> FileFd j 0)\<rparr>"
      by (rule openat_old [OF posix_openat(1) [OF px o d i32] d _ True]) simp_all
    have fd: "int32 fd" by (rule new_fd_int32 [OF j(2)])
    have ne: "fd \<noteq> pmem_dirfd m" using j(2) d by (auto simp: new_fd_def)
    have "fds (view w1) (pmem_dirfd m) = Some DirFd" "fds (view w1) fd = Some (FileFd i 0)"
      "drop 0 (data (view w1) i) = table_bytes E xs" using j(1) cur d ne tab by (simp_all add: j(3))
    from recover_loop_files [OF px pad i32 fd ok this] obtain res where
      l: "recover_loop E fd (m, w1) = Some res" and
      res: "\<And>n m' w'. res = Inr (n, m', w') \<Longrightarrow> 0 \<le> n \<Longrightarrow> m' = fold add_region xs m \<and>
        (\<exists>pos'. view w' = (view w1)\<lparr>fds := (fds (view w1))(fd \<mapsto> FileFd i pos'), vm := fold (load_region (view w1)) xs (vm (view w1))\<rparr>)"
      by blast
    have closed: "(fds (view w))(fd := None) = fds (view w)" using j(2) by (auto simp: new_fd_def)
    show ?thesis
    proof (cases res)
      case (Inl e)
      then show ?thesis using True by (simp add: recover_def o l)
    next
      case (Inr t)
      obtain n m2 w2 where t: "t = (n, m2, w2)" by (metis surj_pair)
      obtain c w3 where c: "my_close (kern E) fd w2 = (c, w3)" by fastforce
      note cl = close_done [OF posix_close [OF px c fd]]
      have "m2 = fold add_region xs m \<and> view w3 = (view w)\<lparr>vm := fold (load_region (view w)) xs (vm (view w))\<rparr>"
        if "n = 0" "\<not> c < 0"
        using res [of n m2 w2] Inr t that cl closed by (auto simp: j(3))
      then show ?thesis using True by (simp add: recover_def o l Inr t c dr_assert_def)
    qed
  qed
qed

end
