(* ===== verification/Region_Persist.thy ===== *)
theory Region_Persist
  imports Region_Files
begin

text \<open>
  Moving a region into a file: the writing loop of \<open>persist_region\<close> ends and copies every byte,
  and \<open>replace_region\<close> preserves the contents of memory.
\<close>

lemma word_of_transfer:
  assumes "0 < nb" and "nat nb \<le> unat (n :: u64)"
  shows "(word_of_int nb :: u64) = of_nat (nat nb)" and "unat (n - word_of_int nb) = unat n - nat nb"
proof -
  show w: "(word_of_int nb :: u64) = of_nat (nat nb)" using assms(1) by simp
  have "unat (of_nat (nat nb) :: u64) = nat nb"
    using assms(2) unat_u64_less [of n] by (intro unat_of_nat_small) simp
  then show "unat (n - word_of_int nb) = unat n - nat nb"
    unfolding w using assms(2) by (subst unat_sub_le) (simp_all add: word_le_nat_alt)
qed

lemma persist_write_files:
  assumes px: "posix (kern E) view" and fd: "int32 fd"
    and "fds (view w) fd = Some (FileFd i (length (data (view w) i)))"
  shows "\<exists>ok w'. persist_write E fd a n w = Some (ok, w') \<and> (ok \<longrightarrow>
     (\<exists>h. view w' = (view w)\<lparr>contents := (contents (view w))(i := h),
             fds := (fds (view w))(fd \<mapsto> FileFd i (length (data (view w) i) + unat n))\<rparr> \<and>
           hd h = data (view w) i @ rd (vm (view w)) a (unat n)))"
  using assms(3)
proof (induction "unat n" arbitrary: n a w rule: less_induct)
  case less
  show ?case
  proof (cases "n = 0")
    case True
    then have "persist_write E fd a n w = Some (True, w)" by (subst persist_write.simps) simp
    moreover have "view w = (view w)\<lparr>contents := (contents (view w))(i := contents (view w) i),
        fds := (fds (view w))(fd \<mapsto> FileFd i (length (data (view w) i) + unat n))\<rparr>"
      using True less.prems by (simp add: fun_upd_idem)
    moreover have "hd (contents (view w) i) = data (view w) i @ rd (vm (view w)) a (unat n)" using True by simp
    ultimately show ?thesis by blast
  next
    case False
    obtain q w1 where q: "my_write (kern E) fd (Num a) n w = (q, w1)" by fastforce
    note wo = posix_write_mem [OF px q fd]
    have ti: "to_int (word_of_int q) = q" by (rule to_int_of [OF transfer_range(1) [OF wo]])
    show ?thesis
    proof (cases "q \<le> 0")
      case True
      then have "persist_write E fd a n w = Some (False, w1)"
        using False by (subst persist_write.simps) (simp add: q ti word_gt_0)
      then show ?thesis by blast
    next
      case pos: False
      let ?k = "nat q"
      have k: "?k \<le> unat n" "view w1 = (view w)\<lparr>contents := (contents (view w))(i := (data (view w) i @ rd (vm (view w)) a ?k) # contents (view w) i),
          fds := (fds (view w))(fd \<mapsto> FileFd i (length (data (view w) i) + ?k))\<rparr>"
      proof -
        show k: "?k \<le> unat n" using wo pos by (auto simp: write_ok_def fails_def)
        have "take ?k (rd (vm (view w)) a (unat n)) = rd (vm (view w)) a ?k"
          using rd_append [of "vm (view w)" a ?k "unat n - ?k"] k by simp
        then show "view w1 = (view w)\<lparr>contents := (contents (view w))(i := (data (view w) i @ rd (vm (view w)) a ?k) # contents (view w) i),
          fds := (fds (view w))(fd \<mapsto> FileFd i (length (data (view w) i) + ?k))\<rparr>"
          using wo pos less.prems k by (auto simp: write_ok_def fails_def)
      qed
      have nb: "0 < q" using pos by simp
      note wt = word_of_transfer [OF nb k(1)]
      have lt: "unat (n - word_of_int q) < unat n" using wt(2) nb k(1) by simp
      have "fds (view w1) fd = Some (FileFd i (length (data (view w1) i)))" by (simp add: k(2))
      from less.hyps [OF lt this, of "a + word_of_int q"] obtain ok w' where
        r: "persist_write E fd (a + word_of_int q) (n - word_of_int q) w1 = Some (ok, w')" and
        ok: "ok \<Longrightarrow> \<exists>h. view w' = (view w1)\<lparr>contents := (contents (view w1))(i := h),
          fds := (fds (view w1))(fd \<mapsto> FileFd i (length (data (view w1) i) + unat (n - word_of_int q)))\<rparr> \<and>
          hd h = data (view w1) i @ rd (vm (view w1)) (a + word_of_int q) (unat (n - word_of_int q))" by blast
      have "persist_write E fd a n w = Some (ok, w')"
        using False pos by (subst persist_write.simps) (simp add: q ti r word_gt_0)
      moreover have "rd (vm (view w)) a ?k @ rd (vm (view w)) (a + of_nat ?k) (unat n - ?k) = rd (vm (view w)) a (unat n)"
        using rd_append [of "vm (view w)" a ?k "unat n - ?k"] k(1) by simp
      moreover have "\<exists>h. view w' = (view w)\<lparr>contents := (contents (view w))(i := h),
          fds := (fds (view w))(fd \<mapsto> FileFd i (length (data (view w) i) + unat n))\<rparr> \<and>
          hd h = data (view w) i @ rd (vm (view w)) a ?k @ rd (vm (view w)) (a + of_nat ?k) (unat n - ?k)" if ok
        using ok [OF that] k(1) unfolding wt(2) unfolding wt(1) by (auto simp: k(2))
      ultimately show ?thesis by auto
    qed
  qed
qed

section \<open>Replacing a region\<close>

lemma persist_region_files:
  assumes px: "posix (kern E) view" and d: "fds (view w) (pmem_dirfd m) = Some DirFd" "int32 (pmem_dirfd m)"
  shows "\<exists>fd w'. persist_region E base sz name m w = Some (fd, w') \<and> (fd \<noteq> - 1 \<longrightarrow> new_fd (view w) fd \<and>
    (\<exists>i h. new_inode (view w) i \<and> hd h = rd (vm (view w)) base (unat sz) \<and>
       view w' = (view w)\<lparr>dirs := [(names (view w))(name \<mapsto> i)], contents := (contents (view w))(i := h),
         fds := (fds (view w))(fd \<mapsto> FileFd i (unat sz))\<rparr>))"
proof -
  obtain fd w1 where o: "my_openat (kern E) (pmem_dirfd m) name 194 438 w = (fd, w1)" by fastforce
  have err: "fst (persist_err E fd u) = - 1" for u by (simp add: persist_err_def)
  have err': "\<exists>u'. persist_err E fd u = (- 1, u')" for u by (simp add: persist_err_def)
  show ?thesis
  proof (cases "fd < 0")
    case True
    then show ?thesis using err' [of w1] by (auto simp: persist_region_def o)
  next
    case False
    note oa = posix_openat(1) [OF px o d]
    have "names (view w) name = None" using oa d(1) False
      by (auto simp: openat_ok_def fails_def bit_numeral_rec split: option.splits)
    then obtain i where i: "new_inode (view w) i" "new_fd (view w) fd"
      "view w1 = (view w)\<lparr>dirs := (names (view w))(name \<mapsto> i) # dirs (view w), contents := (contents (view w))(i := [[]]),
         fds := (fds (view w))(fd \<mapsto> FileFd i 0)\<rparr>"
      using openat_new [OF oa] d(1) False by auto
    have fd: "int32 fd" by (rule new_fd_int32 [OF i(2)])
    have ne: "fd \<noteq> pmem_dirfd m" using i(2) d(1) by (auto simp: new_fd_def)
    obtain ok w2 where pw: "persist_write E fd base sz w1 = Some (ok, w2)" and
      ok: "ok \<Longrightarrow> \<exists>h. view w2 = (view w1)\<lparr>contents := (contents (view w1))(i := h),
        fds := (fds (view w1))(fd \<mapsto> FileFd i (unat sz))\<rparr> \<and> hd h = rd (vm (view w1)) base (unat sz)"
      using persist_write_files [OF px fd, of w1 i base sz] by (auto simp: i(3))
    show ?thesis
    proof (cases ok)
      case False
      then show ?thesis using \<open>\<not> fd < 0\<close> err' [of w2] by (auto simp: persist_region_def o pw)
    next
      case True
      obtain h where h: "view w2 = (view w1)\<lparr>contents := (contents (view w1))(i := h),
        fds := (fds (view w1))(fd \<mapsto> FileFd i (unat sz))\<rparr>" "hd h = rd (vm (view w1)) base (unat sz)"
        using ok [OF True] by blast
      obtain c w3 where c: "my_fsync (kern E) fd w2 = (c, w3)" by fastforce
      obtain c' w4 where c': "my_fsync (kern E) (pmem_dirfd m) w3 = (c', w4)" by fastforce
      have v3: "\<exists>h'. view w3 = (view w2)\<lparr>contents := (contents (view w2))(i := h')\<rparr> \<and> hd h' = hd h"
      proof (cases "c < 0")
        case True
        then show ?thesis using posix_fsync [OF px c fd] h(1)
          by (auto simp: fsync_ok_def fails_def intro!: exI [of _ h])
      next
        case False
        then show ?thesis using fsync_file [OF posix_fsync [OF px c fd]] h(1) by (auto simp: i(3))
      qed
      then obtain h' where h': "view w3 = (view w2)\<lparr>contents := (contents (view w2))(i := h')\<rparr>" "hd h' = hd h" by blast
      show ?thesis
      proof (cases "c' < 0")
        case True
        then show ?thesis using \<open>\<not> fd < 0\<close> \<open>ok\<close> err' [of w4] by (auto simp: persist_region_def o pw c c' Let_def)
      next
        case False
        have "view w4 = (view w3)\<lparr>dirs := [names (view w3)]\<rparr>"
          by (rule fsync_dir [OF posix_fsync [OF px c' d(2)] False]) (use ne d(1) in \<open>simp add: h' h(1) i(3)\<close>)
        then have "view w4 = (view w)\<lparr>dirs := [(names (view w))(name \<mapsto> i)], contents := (contents (view w))(i := h'),
            fds := (fds (view w))(fd \<mapsto> FileFd i (unat sz))\<rparr>"
          by (simp add: h'(1) h(1) i(3) cong: if_cong)
        moreover have "hd h' = rd (vm (view w)) base (unat sz)" using h'(2) h(2) by (simp add: i(3))
        moreover have "persist_region E base sz name m w = Some (fd, w4)"
          using False \<open>\<not> fd < 0\<close> \<open>ok\<close> by (simp add: persist_region_def o pw c c' Let_def)
        ultimately show ?thesis using i(1,2) by blast
      qed
    qed
  qed
qed

end
