(* ===== verification/Posix_Sim.thy ===== *)
theory Posix_Sim
  imports Posix_Calls
begin

text \<open>
  The documented behaviour of the kernel is consistent: a small simulated kernel with one
  directory that carries every call out in full has it. The examples of the region manager run on
  this kernel. Its world holds, beside the file system, the next descriptor and the next
  inode; a call it cannot serve fails with \<^verbatim>\<open>ENOSYS\<close>.
\<close>

type_synonym sim = "fs \<times> nat \<times> nat"

abbreviation sim_fail :: "sim \<Rightarrow> (int \<times> byte list) \<times> sim" where
  "sim_fail s \<equiv> ((- 38, []), s)"

definition sim_open :: "sim \<Rightarrow> (int \<times> byte list) \<times> sim" where
  "sim_open s = (case s of (v, nf, ni) \<Rightarrow>
     if new_fd v (int nf) then ((int nf, []), (v\<lparr>fds := (fds v)(int nf \<mapsto> DirFd)\<rparr>, Suc nf, ni)) else sim_fail s)"

definition sim_openat :: "int \<Rightarrow> string \<Rightarrow> int \<Rightarrow> sim \<Rightarrow> (int \<times> byte list) \<times> sim" where
  "sim_openat d p fl s = (case s of (v, nf, ni) \<Rightarrow>
     if fds v d \<noteq> Some DirFd \<or> \<not> new_fd v (int nf) then sim_fail s
     else case names v p of
       Some i \<Rightarrow> if bit fl 6 \<and> bit fl 7 then sim_fail s
                else ((int nf, []), (v\<lparr>fds := (fds v)(int nf \<mapsto> FileFd i 0)\<rparr>, Suc nf, ni))
     | None \<Rightarrow> if bit fl 6 \<and> new_inode v ni
               then ((int nf, []), (v\<lparr>dirs := (names v)(p \<mapsto> ni) # dirs v, contents := (contents v)(ni := [[]]),
                      fds := (fds v)(int nf \<mapsto> FileFd ni 0)\<rparr>, Suc nf, Suc ni))
               else sim_fail s)"

definition sim_close :: "int \<Rightarrow> sim \<Rightarrow> (int \<times> byte list) \<times> sim" where
  "sim_close fd s = (case s of (v, nf, ni) \<Rightarrow> ((0, []), (v\<lparr>fds := (fds v)(fd := None)\<rparr>, nf, ni)))"

definition sim_write :: "int \<Rightarrow> byte list \<Rightarrow> sim \<Rightarrow> (int \<times> byte list) \<times> sim" where
  "sim_write fd bs s = (case s of (v, nf, ni) \<Rightarrow>
     if length bs > max_rw then sim_fail s
     else case fds v fd of
       Some (FileFd i pos) \<Rightarrow> ((int (length bs), []),
         (v\<lparr>contents := (contents v)(i := put pos bs (data v i) # contents v i),
            fds := (fds v)(fd \<mapsto> FileFd i (pos + length bs))\<rparr>, nf, ni))
     | Some PipeW \<Rightarrow> ((int (length bs), []), (v\<lparr>outbox := outbox v @ bs\<rparr>, nf, ni))
     | _ \<Rightarrow> sim_fail s)"

definition sim_read :: "int \<Rightarrow> nat \<Rightarrow> (byte list \<Rightarrow> fs \<Rightarrow> fs) \<Rightarrow> sim \<Rightarrow> (int \<times> byte list) \<times> sim" where
  "sim_read fd n store s = (case s of (v, nf, ni) \<Rightarrow>
     if n > max_rw then sim_fail s
     else case fds v fd of
       Some (FileFd i pos) \<Rightarrow>
         (let bs = take n (drop pos (data v i)) in
          ((int (length bs), bs), (store bs (v\<lparr>fds := (fds v)(fd \<mapsto> FileFd i (pos + length bs))\<rparr>), nf, ni)))
     | Some PipeR \<Rightarrow>
         (let bs = take n (inbox v) in
          ((int (length bs), bs), (store bs (v\<lparr>inbox := drop (length bs) (inbox v)\<rparr>), nf, ni)))
     | _ \<Rightarrow> sim_fail s)"

definition sim_mmap :: "u64 \<Rightarrow> nat \<Rightarrow> int \<Rightarrow> int \<Rightarrow> sim \<Rightarrow> (int \<times> byte list) \<times> sim" where
  "sim_mmap a n fl fd s = (case s of (v, nf, ni) \<Rightarrow>
     if \<not> bit fl 4 then sim_fail s
     else if bit fl 5 then ((sint a, []), (v\<lparr>vm := wr a (replicate n 0) (vm v)\<rparr>, nf, ni))
     else case fds v fd of
       Some (FileFd i pos) \<Rightarrow> ((sint a, []), (v\<lparr>vm := wr a (take n (data v i @ replicate n 0)) (vm v)\<rparr>, nf, ni))
     | _ \<Rightarrow> sim_fail s)"

definition sim_fsync :: "int \<Rightarrow> sim \<Rightarrow> (int \<times> byte list) \<times> sim" where
  "sim_fsync fd s = (case s of (v, nf, ni) \<Rightarrow>
     case fds v fd of
       Some (FileFd i pos) \<Rightarrow> ((0, []), (v\<lparr>contents := (contents v)(i := [data v i])\<rparr>, nf, ni))
     | Some DirFd \<Rightarrow> ((0, []), (v\<lparr>dirs := [names v]\<rparr>, nf, ni))
     | _ \<Rightarrow> sim_fail s)"

definition sim_rename :: "int \<Rightarrow> string \<Rightarrow> int \<Rightarrow> string \<Rightarrow> sim \<Rightarrow> (int \<times> byte list) \<times> sim" where
  "sim_rename d p d' p' s = (case s of (v, nf, ni) \<Rightarrow>
     case names v p of
       None \<Rightarrow> ((- ENOENT, []), s)
     | Some i \<Rightarrow> ((0, []), (v\<lparr>dirs := (names v)(p := None, p' \<mapsto> i) # dirs v\<rparr>, nf, ni)))"

definition sim_unlink :: "int \<Rightarrow> string \<Rightarrow> sim \<Rightarrow> (int \<times> byte list) \<times> sim" where
  "sim_unlink d p s = (case s of (v, nf, ni) \<Rightarrow>
     case names v p of
       None \<Rightarrow> ((- ENOENT, []), s)
     | Some i \<Rightarrow> ((0, []), (v\<lparr>dirs := (names v)(p := None) # dirs v\<rparr>, nf, ni)))"

text \<open>The registers in the order of the arguments.\<close>

definition sim_args :: "regs \<Rightarrow> sysarg option list" where
  "sim_args g = map g [RDI, RSI, RDX, R10, R8, R9]"

definition sim_call :: "u64 \<Rightarrow> sysarg option list \<Rightarrow> sim \<Rightarrow> (int \<times> byte list) \<times> sim" where
  "sim_call n args s =
     (case args of
        Some (Str p) # Some (Num fl) # _ \<Rightarrow> if n = word_of_int SYS_open then sim_open s else sim_fail s
      | [Some (Num d), Some (Str p), Some (Num fl), Some (Num md), None, None] \<Rightarrow>
          if n = word_of_int SYS_openat then sim_openat (to_int d) p (to_int fl) s else sim_fail s
      | [Some (Num fd), None, None, None, None, None] \<Rightarrow>
          if n = word_of_int SYS_close then sim_close (to_int fd) s
          else if n = word_of_int SYS_fsync then sim_fsync (to_int fd) s else sim_fail s
      | [Some (Num fd), Some (Buf bs), Some (Num c), None, None, None] \<Rightarrow>
          if n = word_of_int SYS_write then sim_write (to_int fd) bs s else sim_fail s
      | [Some (Num fd), Some (Num a), Some (Num c), None, None, None] \<Rightarrow>
          if n = word_of_int SYS_write then sim_write (to_int fd) (rd (vm (fst s)) a (unat c)) s
          else if n = word_of_int SYS_read then sim_read (to_int fd) (unat c) (\<lambda>bs u. u\<lparr>vm := wr a bs (vm u)\<rparr>) s
          else sim_fail s
      | [Some (Num fd), Some (Out m), Some (Num c), None, None, None] \<Rightarrow>
          if n = word_of_int SYS_read then sim_read (to_int fd) m (\<lambda>_ u. u) s else sim_fail s
      | [Some (Num a), Some (Num c), Some (Num pr), Some (Num fl), Some (Num fd), Some (Num off)] \<Rightarrow>
          if n = word_of_int SYS_mmap then sim_mmap a (unat c) (to_int fl) (to_int fd) s else sim_fail s
      | [Some (Num a), Some (Num c), None, None, None, None] \<Rightarrow>
          if n = word_of_int SYS_munmap then ((0, []), s) else sim_fail s
      | [Some (Num d), Some (Str p), Some (Num d'), Some (Str p'), None, None] \<Rightarrow>
          if n = word_of_int SYS_renameat then sim_rename (to_int d) p (to_int d') p' s else sim_fail s
      | [Some (Num d), Some (Str p), Some (Num fl), None, None, None] \<Rightarrow>
          if n = word_of_int SYS_unlinkat then sim_unlink (to_int d) p s else sim_fail s
      | _ \<Rightarrow> sim_fail s)"

definition sim_kernel :: "sim kernel" where
  "sim_kernel g s =
     (case sim_call (case g RAX of Some (Num n) \<Rightarrow> n | _ \<Rightarrow> 0) (sim_args g) s of
        ((r, out), s') \<Rightarrow> ((word_of_int r, out), s'))"

section \<open>The simulated kernel has the documented behaviour\<close>

definition i64 :: "int \<Rightarrow> bool" where
  "i64 r \<longleftrightarrow> - 9223372036854775808 \<le> r \<and> r < 9223372036854775808"

lemma i64_sint [simp]: "i64 r \<Longrightarrow> sint (word_of_int r :: u64) = r"
  by (simp add: i64_def signed_of_int signed_take_bit_int_eq_self)

lemma i64_of_sint [simp]: "i64 (sint (a :: u64))"
  using sint_ge [of a] sint_lt [of a] by (simp add: i64_def)

lemma sim_open_ok: "sim_open (v, nf, ni) = ((r, out), (v', x)) \<Longrightarrow> i64 r \<and> open_ok v fl r v'"
  by (auto simp: sim_open_def open_ok_def fails_def i64_def new_fd_def split: if_splits)

lemma sim_openat_ok: "sim_openat d p fl (v, nf, ni) = ((r, out), (v', x)) \<Longrightarrow> i64 r \<and> openat_ok v d p fl r v'"
  by (auto simp: sim_openat_def openat_ok_def fails_def i64_def new_fd_def split: if_splits option.splits)

lemma sim_close_ok: "sim_close fd (v, nf, ni) = ((r, out), (v', x)) \<Longrightarrow> i64 r \<and> close_ok v fd r v'"
  by (auto simp: sim_close_def close_ok_def i64_def)

lemma sim_write_ok: "sim_write fd bs (v, nf, ni) = ((r, out), (v', x)) \<Longrightarrow> i64 r \<and> write_ok v fd bs r v'"
  by (auto simp: sim_write_def write_ok_def fails_def i64_def split: if_splits option.splits ofd.splits)

lemma sim_read_ok: "sim_read fd n st (v, nf, ni) = ((r, out), (v', x)) \<Longrightarrow> i64 r \<and> read_ok v fd n st r out v'"
  by (auto simp: sim_read_def read_ok_def fails_def i64_def Let_def min_def split: if_splits option.splits ofd.splits)

lemma sim_mmap_ok: "sim_mmap a n fl fd (v, nf, ni) = ((r, out), (v', x)) \<Longrightarrow> i64 r \<and> mmap_ok v a n fl fd r v'"
  by (auto simp: sim_mmap_def mmap_ok_def fails_def split: if_splits option.splits ofd.splits)
    (auto simp: i64_def intro: exI [of _ "vm v"])

lemma sim_fsync_ok: "sim_fsync fd (v, nf, ni) = ((r, out), (v', x)) \<Longrightarrow> i64 r \<and> fsync_ok v fd r v'"
  by (auto simp: sim_fsync_def fsync_ok_def fails_def i64_def split: option.splits ofd.splits)

lemma sim_rename_ok: "sim_rename d p d' p' (v, nf, ni) = ((r, out), (v', x)) \<Longrightarrow> i64 r \<and> renameat_ok v d p d' p' r v'"
  by (auto simp: sim_rename_def renameat_ok_def fails_def i64_def split: option.splits)

lemma sim_unlink_ok: "sim_unlink d p (v, nf, ni) = ((r, out), (v', x)) \<Longrightarrow> i64 r \<and> unlinkat_ok v d p r v'"
  by (auto simp: sim_unlink_def unlinkat_ok_def fails_def i64_def split: option.splits)

lemmas sim_oks = sim_open_ok sim_openat_ok sim_close_ok sim_write_ok sim_read_ok sim_mmap_ok sim_fsync_ok
  sim_rename_ok sim_unlink_ok

lemma sim_munmap_ok: "munmap_ok v a n 0 v"
  by (auto simp: munmap_ok_def intro: exI [of _ "vm v"])

lemmas sim_kernel_simps = sim_kernel_def syscall_regs_def sim_args_def sim_call_def

lemma sim_posix: "posix sim_kernel fst"
  unfolding posix_def
proof (intro allI impI)
  fix n args and w :: sim and r out and w' :: sim
  assume k: "sim_kernel (syscall_regs n args) w = ((r, out), w')"
  obtain v nf ni where w: "w = (v, nf, ni)" by (metis surj_pair)
  obtain v' x where w': "w' = (v', x)" by (cases w')
  show "call_ok n args (fst w) (sint r) out (fst w')"
    using k unfolding call_ok_def w w' fst_conv
    by (auto split: list.splits sysarg.splits simp: sim_kernel_simps sim_munmap_ok split: prod.splits dest!: sim_oks) blast
qed

section \<open>Running the wrappers on it\<close>

lemma int32_fail [simp]: "int32 (- 38)" "int32 (- 2)"
  by (simp_all add: int32_def)

lemma to_int_fail [simp]: "to_int (- 38) = - 38" "to_int (- 2) = - 2"
  by (simp_all add: to_int_def)

lemma new_fd_int32_sim: "new_fd v r \<Longrightarrow> int32 r"
  by (simp add: new_fd_def int32_def)

lemma sim_calls:
  assumes "int32 d"
  shows "my_close sim_kernel d s = (fst (fst (sim_close d s)), snd (sim_close d s))"
    and "my_fsync sim_kernel d s = (fst (fst (sim_fsync d s)), snd (sim_fsync d s))"
    and "int32 fl \<Longrightarrow> my_openat sim_kernel d p fl md s = (fst (fst (sim_openat d p fl s)), snd (sim_openat d p fl s))"
    and "my_renameat sim_kernel d p d p' s = (fst (fst (sim_rename d p d p' s)), snd (sim_rename d p d p' s))"
    and "my_unlinkat sim_kernel d p 0 s = (fst (fst (sim_unlink d p s)), snd (sim_unlink d p s))"
    and "my_write sim_kernel d (Buf bs) c s = (fst (fst (sim_write d bs s)), snd (sim_write d bs s))"
    and "my_write sim_kernel d (Num a) c s =
      (let b = rd (vm (fst s)) a (unat c) in (fst (fst (sim_write d b s)), snd (sim_write d b s)))"
    and "my_read sim_kernel d (Out m) c s = sim_read d m (\<lambda>_ u. u) s"
    and "my_read sim_kernel d (Num a) c s = sim_read d (unat c) (\<lambda>bs u. u\<lparr>vm := wr a bs (vm u)\<rparr>) s"
    and "int32 fl \<Longrightarrow> my_mmap sim_kernel a c pr fl d 0 s =
      (word_of_int (fst (fst (sim_mmap a (unat c) fl d s))), snd (sim_mmap a (unat c) fl d s))"
proof -
  have w: "i64 (fst (fst (sim_write d b s)))" for b
    using sim_write_ok [of d b "fst s" "fst (snd s)" "snd (snd s)"] by (cases "sim_write d b s") fastforce
  have r: "i64 (fst (fst (sim_read d n st s)))" for n st
    using sim_read_ok [of d n st "fst s" "fst (snd s)" "snd (snd s)"] by (cases "sim_read d n st s") fastforce
  have o: "int32 (fst (fst (sim_openat d p fl s)))"
    by (auto simp: sim_openat_def new_fd_int32_sim split: prod.splits option.splits)
  show "my_close sim_kernel d s = (fst (fst (sim_close d s)), snd (sim_close d s))"
    "my_fsync sim_kernel d s = (fst (fst (sim_fsync d s)), snd (sim_fsync d s))"
    "my_renameat sim_kernel d p d p' s = (fst (fst (sim_rename d p d p' s)), snd (sim_rename d p d p' s))"
    "my_unlinkat sim_kernel d p 0 s = (fst (fst (sim_unlink d p s)), snd (sim_unlink d p s))"
    using assms by (auto simp: my_close_def my_fsync_def my_renameat_def my_unlinkat_def syscall_def sim_kernel_simps
        sim_close_def sim_fsync_def sim_rename_def sim_unlink_def to_int_def [of 0] split: prod.splits option.splits ofd.splits)
  show "int32 fl \<Longrightarrow> my_openat sim_kernel d p fl md s = (fst (fst (sim_openat d p fl s)), snd (sim_openat d p fl s))"
    using assms o by (auto simp: my_openat_def syscall_def sim_kernel_simps split: prod.splits)
  show "my_write sim_kernel d (Buf bs) c s = (fst (fst (sim_write d bs s)), snd (sim_write d bs s))"
    using assms w [of bs] by (auto simp: my_write_def syscall_def sim_kernel_simps split: prod.splits)
  show "my_write sim_kernel d (Num a) c s =
      (let b = rd (vm (fst s)) a (unat c) in (fst (fst (sim_write d b s)), snd (sim_write d b s)))"
    using assms w [of "rd (vm (fst s)) a (unat c)"]
    by (auto simp: my_write_def syscall_def sim_kernel_simps Let_def split: prod.splits)
  show "my_read sim_kernel d (Out m) c s = sim_read d m (\<lambda>_ u. u) s"
    using assms r [of m "\<lambda>_ u. u"] by (auto simp: my_read_def syscall_def sim_kernel_simps split: prod.splits)
  show "my_read sim_kernel d (Num a) c s = sim_read d (unat c) (\<lambda>bs u. u\<lparr>vm := wr a bs (vm u)\<rparr>) s"
    using assms r [of "unat c" "\<lambda>bs u. u\<lparr>vm := wr a bs (vm u)\<rparr>"]
    by (auto simp: my_read_def syscall_def sim_kernel_simps split: prod.splits)
  show "int32 fl \<Longrightarrow> my_mmap sim_kernel a c pr fl d 0 s =
      (word_of_int (fst (fst (sim_mmap a (unat c) fl d s))), snd (sim_mmap a (unat c) fl d s))"
    using assms by (auto simp: my_mmap_def syscall_def sim_kernel_simps split: prod.splits)
qed

end
