(* ===== verification/Region_Props.thy ===== *)
theory Region_Props
  imports Region_Persist Posix_Sim
begin

text \<open>
  The properties of the region manager that rest on the kernel's documented behaviour: contents
  survive the move into a file, and the old and the new region table survive a power failure and
  restart chooses between them.
\<close>

section \<open>Moving a region into a file\<close>

abbreviation sim_env :: "sim env" where
  "sim_env \<equiv> \<lparr>kern = sim_kernel, rnd = (\<lambda>s. (7, s)), padding = (\<lambda>_. [0, 0, 0, 0])\<rparr>"

definition quiet_rnd :: "'w env \<Rightarrow> ('w \<Rightarrow> fs) \<Rightarrow> bool" where
  "quiet_rnd E view \<longleftrightarrow> (\<forall>w. view (snd (rnd E w)) = view w)"

lemma replace_region_files:
  assumes px: "posix (kern E) view" and q: "quiet_rnd E view"
    and d: "fds (view w) (pmem_dirfd m) = Some DirFd" "int32 (pmem_dirfd m)"
    and u: "user_region (window_region base sz)"
  shows "\<exists>res. replace_region E base sz prot (m, w) = Some res \<and>
    (\<forall>m' w'. res = Inr (SUCCESS, m', w') \<longrightarrow> vm (view w') = vm (view w) \<and> fds (view w') = fds (view w) \<and>
       (\<exists>r. regions m' = regions m @ [r] \<and> reg_base r = base \<and> reg_size r = sz \<and>
          file_bytes (view w') r = rd (vm (view w)) base (unat sz) \<and>
          dirs (view w') = [names (view w')] \<and> names (view w') (make_file_name r) \<noteq> None))"
proof -
  obtain id w0 where id: "rnd E w = (id, w0)" by fastforce
  have v0: "view w0 = view w" using q id unfolding quiet_rnd_def by (metis snd_conv)
  let ?r = "\<lparr>reg_base = base, reg_size = sz, reg_file_id = id\<rparr>"
  obtain fd w1 where p: "persist_region E base sz (make_file_name ?r) m w0 = Some (fd, w1)" and
    fd: "fd \<noteq> - 1 \<Longrightarrow> new_fd (view w) fd \<and>
      (\<exists>i h. new_inode (view w) i \<and> hd h = rd (vm (view w)) base (unat sz) \<and>
       view w1 = (view w)\<lparr>dirs := [(names (view w))(make_file_name ?r \<mapsto> i)], contents := (contents (view w))(i := h),
         fds := (fds (view w))(fd \<mapsto> FileFd i (unat sz))\<rparr>)"
    using persist_region_files [OF px, of w0 m base sz "make_file_name ?r"] d by (auto simp: v0)
  obtain ret w2 where mm: "my_mmap (kern E) base sz prot SHARED_FIXED fd 0 w1 = (ret, w2)" by fastforce
  obtain c w3 where cl: "my_close (kern E) fd w2 = (c, w3)" by fastforce
  have "\<exists>res. replace_region E base sz prot (m, w) = Some res \<and>
      (\<forall>m' w'. res = Inr (SUCCESS, m', w') \<longrightarrow> fd \<noteq> - 1 \<and> ret = base \<and> \<not> c < 0 \<and> m' = add_region ?r m \<and> w' = w3)"
    by (simp add: replace_region_def id p mm cl Let_def)
  moreover have "vm (view w3) = vm (view w) \<and> fds (view w3) = fds (view w) \<and>
      file_bytes (view w3) ?r = rd (vm (view w)) base (unat sz) \<and>
      dirs (view w3) = [names (view w3)] \<and> names (view w3) (make_file_name ?r) \<noteq> None"
    if "fd \<noteq> - 1" "ret = base" "\<not> c < 0"
  proof -
    from fd [OF that(1)] obtain i h where i: "new_fd (view w) fd" "hd h = rd (vm (view w)) base (unat sz)"
      "view w1 = (view w)\<lparr>dirs := [(names (view w))(make_file_name ?r \<mapsto> i)], contents := (contents (view w))(i := h),
         fds := (fds (view w))(fd \<mapsto> FileFd i (unat sz))\<rparr>" by blast
    have i32: "int32 fd" by (rule new_fd_int32 [OF i(1)])
    have "view w2 = (view w1)\<lparr>vm := wr base (take (unat sz) (data (view w1) i @ replicate (unat sz) 0)) (vm (view w1))\<rparr>"
      by (rule mmap_file [OF posix_mmap [OF px mm shared_int32(1) i32, unfolded that(2)]])
        (use user_region_sint [OF u] in \<open>simp_all add: i(3)\<close>)
    then have v2: "view w2 = view w1"
      using wr_rd_self [OF unat_u64_less [of sz], of base "vm (view w)"] by (simp add: i)
    have v3: "view w3 = (view w2)\<lparr>fds := (fds (view w2))(fd := None)\<rparr>"
      by (rule close_done [OF posix_close [OF px cl i32] that(3)])
    have "(fds (view w))(fd := None) = fds (view w)" using i(1) by (auto simp: new_fd_def)
    then show ?thesis by (simp add: v3 v2 i file_bytes_def)
  qed
  ultimately show ?thesis by fastforce
qed

text \<open>
  C29. \<open>replace_region\<close> preserves content, as \<^verbatim>\<open>mem_region.h\<close> promises. On a kernel with the
  documented behaviour it always returns; and when it reports success the memory of the process is
  unchanged, the new region is the last of the table, the directory entry of its file is durable
  and the file holds the bytes of the region, and no descriptor is left open.
\<close>

theorem replace_region_preserves_contents:
  assumes "posix (kern E) view" and "quiet_rnd E view"
    and "fds (view w) (pmem_dirfd m) = Some DirFd" and "int32 (pmem_dirfd m)"
    and "user_region (window_region base sz)"
  shows "\<exists>res. replace_region E base sz prot (m, w) = Some res \<and>
    (\<forall>m' w'. res = Inr (SUCCESS, m', w') \<longrightarrow> vm (view w') = vm (view w) \<and> fds (view w') = fds (view w) \<and>
       (\<exists>r. regions m' = regions m @ [r] \<and> reg_base r = base \<and> reg_size r = sz \<and>
          file_bytes (view w') r = rd (vm (view w)) base (unat sz) \<and>
          dirs (view w') = [names (view w')] \<and> names (view w') (make_file_name r) \<noteq> None))"
  by (rule replace_region_files [OF assms])

abbreviation demo_fs :: fs where
  "demo_fs \<equiv> \<lparr>dirs = [Map.empty], contents = (\<lambda>_. [[]]), fds = [3 \<mapsto> DirFd], vm = (\<lambda>_. 0), inbox = [], outbox = []\<rparr>"

abbreviation empty_mgr :: mem_region_manager where
  "empty_mgr \<equiv> \<lparr>pmem_dirfd = 3, regions = [], rs = []\<rparr>"

text \<open>On the simulated kernel it succeeds.\<close>

lemma sim_persist_write:
  assumes "fds v fd = Some (FileFd i pos)" and "int32 fd" and "n \<noteq> 0" and "unat n \<le> max_rw"
  shows "\<exists>w'. persist_write sim_env fd a n (v, nf, ni) = Some (True, w') \<and> snd w' = (nf, ni) \<and>
    fds (fst w') = (fds v)(fd \<mapsto> FileFd i (pos + unat n)) \<and> dirs (fst w') = dirs v"
proof -
  have "int32 (int m)" if "m \<le> max_rw" for m using that by (simp add: int32_def)
  from this [OF assms(4)] have "int32 (int (unat n))" .
  then have ti: "to_int (word_of_int (int (unat n))) = int (unat n)" by (rule to_int_of)
  have ti': "to_int n = int (unat n)" using ti by simp
  have q: "my_write sim_kernel fd (Num a) n (v, nf, ni) = (int (unat n),
      (v\<lparr>contents := (contents v)(i := put pos (rd (vm v) a (unat n)) (data v i) # contents v i),
         fds := (fds v)(fd \<mapsto> FileFd i (pos + unat n))\<rparr>, nf, ni))"
    using assms by (simp add: sim_calls sim_write_def Let_def)
  have "persist_write sim_env fd a n (v, nf, ni) = persist_write sim_env fd (a + n) 0
      (v\<lparr>contents := (contents v)(i := put pos (rd (vm v) a (unat n)) (data v i) # contents v i),
         fds := (fds v)(fd \<mapsto> FileFd i (pos + unat n))\<rparr>, nf, ni)"
    using assms(3) by (subst persist_write.simps) (simp add: q ti' word_gt_0 Let_def uint_0_iff)
  then show ?thesis by (subst (asm) (2) persist_write.simps) simp
qed

lemma sim_replace:
  assumes v: "fds v d = Some DirFd" "int32 d" "new_fd v (int nf)" "new_inode v ni"
    and n: "names v (make_file_name \<lparr>reg_base = base, reg_size = sz, reg_file_id = 7\<rparr>) = None"
    and sz: "sz \<noteq> 0" "unat sz \<le> max_rw" and m: "pmem_dirfd m = d"
    and none: "find_overlap m \<lparr>reg_base = base, reg_size = sz, reg_file_id = 7\<rparr> = - 1"
  shows "\<exists>m' w'. replace_region sim_env base sz prot (m, (v, nf, ni)) = Some (Inr (SUCCESS, m', w'))"
proof -
  let ?f = "make_file_name \<lparr>reg_base = base, reg_size = sz, reg_file_id = 7\<rparr>"
  let ?v1 = "v\<lparr>dirs := (names v)(?f \<mapsto> ni) # dirs v, contents := (contents v)(ni := [[]]), fds := (fds v)(int nf \<mapsto> FileFd ni 0)\<rparr>"
  have nf: "int32 (int nf)" "int nf \<noteq> d" using v by (auto simp: new_fd_def int32_def)
  have o: "my_openat sim_kernel d ?f 194 438 (v, nf, ni) = (int nf, (?v1, Suc nf, Suc ni))"
    using v n by (simp add: sim_calls sim_openat_def bit_numeral_rec)
  obtain v2 where pw: "persist_write sim_env (int nf) base sz (?v1, Suc nf, Suc ni) = Some (True, (v2, Suc nf, Suc ni))"
    and v2: "fds v2 = (fds v)(int nf \<mapsto> FileFd ni (unat sz))"
    using sim_persist_write [of ?v1 "int nf" ni 0 sz base "Suc nf" "Suc ni"] nf sz by fastforce
  let ?v3 = "v2\<lparr>contents := (contents v2)(ni := [data v2 ni])\<rparr>" and ?s = "(Suc nf, Suc ni)"
  have f1: "my_fsync sim_kernel (int nf) (v2, ?s) = (0, (?v3, ?s))"
    using nf by (simp add: sim_calls sim_fsync_def v2)
  have f2: "my_fsync sim_kernel d (?v3, ?s) = (0, (?v3\<lparr>dirs := [names v2]\<rparr>, ?s))"
    using nf v by (simp add: sim_calls sim_fsync_def v2)
  have pr: "persist_region sim_env base sz ?f m (v, nf, ni) = Some (int nf, (?v3\<lparr>dirs := [names v2]\<rparr>, ?s))"
    by (simp add: persist_region_def o pw f1 f2 m)
  have mm: "\<exists>w'. my_mmap sim_kernel base sz prot SHARED_FIXED (int nf) 0 (?v3\<lparr>dirs := [names v2]\<rparr>, ?s) = (base, w')"
    using nf by (simp add: sim_calls sim_mmap_def v2) (simp add: SHARED_FIXED_def bit_or_iff bit_numeral_rec)
  have cl: "\<exists>w''. my_close sim_kernel (int nf) w' = (0, w'')" for w'
    using nf by (cases w') (simp add: sim_calls sim_close_def)
  obtain w' where w': "my_mmap sim_kernel base sz prot SHARED_FIXED (int nf) 0 (?v3\<lparr>dirs := [names v2]\<rparr>, ?s) = (base, w')"
    using mm by blast
  obtain w'' where w'': "my_close sim_kernel (int nf) w' = (0, w'')" using cl by blast
  show ?thesis by (cases w'') (simp add: replace_region_def none pr Let_def w' w'')
qed

theorem replace_region_preserves_contents_witness:
  "\<exists>m' w'. replace_region sim_env 4096 2 3 (empty_mgr, (demo_fs, 4, 0)) = Some (Inr (SUCCESS, m', w')) \<and>
     vm (fst w') = vm demo_fs \<and> (\<exists>r. regions m' = [r] \<and> file_bytes (fst w') r = [0, 0])"
proof -
  let ?w = "(demo_fs, 4, 0) :: sim"
  have hyp: "posix (kern sim_env) fst" "quiet_rnd sim_env fst" "fds (fst ?w) (pmem_dirfd empty_mgr) = Some DirFd"
    "int32 (pmem_dirfd empty_mgr)" "user_region (window_region 4096 2)"
    by (simp_all add: sim_posix quiet_rnd_def user_region_def region_ok_def)
  have "\<exists>m' w'. replace_region sim_env 4096 2 3 (empty_mgr, ?w) = Some (Inr (SUCCESS, m', w'))"
    by (rule sim_replace [of _ 3]) (auto simp: new_fd_def new_inode_def find_overlap_def)
  with replace_region_preserves_contents [OF hyp, of 3] show ?thesis by (auto simp: rd_def upt_rec)
qed

text \<open>
  \<open>persist_region\<close> ignores a failing \<^verbatim>\<open>fsync\<close> of the region file: with the file opened and
  written and the directory synchronised it returns the descriptor, whatever the first \<^verbatim>\<open>fsync\<close>
  returned. The contents of the region file need not be durable then.
\<close>

theorem persist_region_ignores_fsync:
  assumes "my_openat (kern E) (pmem_dirfd m) name (or O_CREAT (or O_RDWR O_EXCL)) 438 w = (fd, w1)" and "0 \<le> fd"
    and "persist_write E fd base sz w1 = Some (True, w2)"
    and "my_fsync (kern E) fd w2 = (error, w3)" and "error < 0"
    and "my_fsync (kern E) (pmem_dirfd m) w3 = (0, w4)"
  shows "persist_region E base sz name m w = Some (fd, w4)"
  using assms by (simp add: persist_region_def Let_def)

definition no_fsync_kernel :: "unit kernel" where
  "no_fsync_kernel g w = (if g RAX = Some (num SYS_fsync) \<and> g RDI = Some (num 4) then ((- 5, []), w)
     else if g RAX = Some (num SYS_openat) then ((4, []), w) else yes_kernel 0 g w)"

theorem persist_region_ignores_fsync_witness:
  "my_fsync no_fsync_kernel 4 () = (- 5, ()) \<and>
   persist_region ((yes_env 0)\<lparr>kern := no_fsync_kernel\<rparr>) 4096 2 ''mem_1000_7'' empty_mgr () = Some (4, ())"
proof -
  let ?E = "(yes_env 0)\<lparr>kern := no_fsync_kernel\<rparr>"
  have f: "my_fsync no_fsync_kernel 4 () = (- 5, ())" "my_fsync no_fsync_kernel 3 () = (0, ())"
    and o: "my_openat no_fsync_kernel 3 ''mem_1000_7'' (or O_CREAT (or O_RDWR O_EXCL)) 438 () = (4, ())"
    and wr: "my_write no_fsync_kernel 4 (Num 4096) 2 () = (2, ())"
    by (simp_all add: my_fsync_def my_openat_def my_write_def syscall_def syscall_regs_def no_fsync_kernel_def yes_kernel_def to_int_def)
  have "persist_write ?E 4 4098 0 () = Some (True, ())" by (subst persist_write.simps) simp
  then have w: "persist_write ?E 4 4096 2 () = Some (True, ())"
    by (subst persist_write.simps) (simp add: wr to_int_def)
  have "persist_region ?E 4096 2 ''mem_1000_7'' empty_mgr () = Some (4, ())"
    by (rule persist_region_ignores_fsync [OF _ _ w, where error = "- 5"]) (use o f in simp_all)
  with f show ?thesis by simp
qed

section \<open>The region tables across a power failure\<close>

lemma fold_add_region [simp]: "regions (fold add_region xs m) = regions m @ xs"
  by (induction xs arbitrary: m) auto

text \<open>What a restarted process finds: the directory and the files of a disk image.\<close>

definition restarted :: "dir \<Rightarrow> (nat \<Rightarrow> byte list) \<Rightarrow> mem_region_manager \<Rightarrow> fs \<Rightarrow> bool" where
  "restarted d f m v \<longleftrightarrow> names v = d \<and> (\<forall>i \<in> ran d. data v i = f i) \<and> int32 (pmem_dirfd m) \<and>
     fds v (pmem_dirfd m) = Some DirFd \<and> regions m = [] \<and> rs m = []"

lemma restarted_recover:
  assumes px: "posix (kern E) view" and pad: "padded E" and r: "restarted d f m (view w)"
    and i: "d CURRENT_TABLE_FILE_NAME = Some i" "f i = table_bytes E xs" and ok: "\<forall>r \<in> set xs. user_region r"
  shows "\<exists>res. recover E (m, w) = Some res \<and> (\<forall>m' w'. res = Inr (m', w') \<longrightarrow> regions m' = xs)"
proof -
  have "i \<in> ran d" using i(1) by (auto simp: ran_def)
  then have "data (view w) i = table_bytes E xs" using r i(2) by (auto simp: restarted_def)
  moreover have "names (view w) CURRENT_TABLE_FILE_NAME = Some i" using r i(1) by (simp add: restarted_def)
  moreover have "int32 (pmem_dirfd m)" "fds (view w) (pmem_dirfd m) = Some DirFd" "regions m = []"
    using r by (simp_all add: restarted_def)
  ultimately show ?thesis using recover_files [OF px pad _ _ ok] by fastforce
qed

text \<open>
  C28. The commit record of the undo log chooses the region table. Suppose \<open>table.dat\<close> durably holds
  the table \<open>old\<close> and \<open>persist_new_region_table\<close> has returned for a manager \<open>m\<close>. Whatever a power failure
  leaves on the disk afterwards, a restarted process that clears the new table recovers exactly
  the regions \<open>old\<close>, and one that commits it recovers exactly the regions of \<open>m\<close>, in order.
  The latter also holds for a failure during or after \<open>commit_new_region_table\<close>, whatever
  that call returned, so recovery may itself be interrupted and repeated.
\<close>

theorem region_tables_choose:
  assumes px: "posix (kern E) view" and pad: "padded E"
    and d: "fds (view w) (pmem_dirfd m) = Some DirFd" "int32 (pmem_dirfd m)"
    and old: "dirs (view w) = [dir]" "dir CURRENT_TABLE_FILE_NAME = Some j" "contents (view w) j = [table_bytes E old]"
      "dir NEW_TABLE_FILE_NAME = None"
    and ok: "\<forall>r \<in> set old \<union> set (regions m). user_region r"
    and per: "persist_new_region_table E (m, w) = Inr (res, w1)"
    and re: "restarted d f m2 (view w2)"
  shows "(disk_image (view w1) d f \<longrightarrow> clear_new_region_table E (m2, w2) = (SUCCESS, w3) \<longrightarrow>
      (\<exists>r. recover E (m2, w3) = Some r \<and> (\<forall>m' w'. r = Inr (m', w') \<longrightarrow> regions m' = old))) \<and>
    (disk_image (view w1) d f \<or> disk_image (view (snd (commit_new_region_table E (m, w1)))) d f \<longrightarrow>
      commit_new_region_table E (m2, w2) = (SUCCESS, w3) \<longrightarrow>
      (\<exists>r. recover E (m2, w3) = Some r \<and> (\<forall>m' w'. r = Inr (m', w') \<longrightarrow> regions m' = regions m)))"
proof (intro conjI impI)
  obtain i where i: "new_inode (view w) i" "view w1 = (view w)\<lparr>dirs := [dir(NEW_TABLE_FILE_NAME \<mapsto> i)],
      contents := (contents (view w))(i := [table_bytes E (regions m)])\<rparr>"
    using persist_new_region_table_files [OF px pad d _ per] old(1,4) by auto
  have ij: "i \<noteq> j" using i(1) old(1,2) by (auto simp: new_inode_def ran_def)
  have rd: "fds (view w2) (pmem_dirfd m2) = Some DirFd" "int32 (pmem_dirfd m2)" using re by (simp_all add: restarted_def)
  show "\<exists>r. recover E (m2, w3) = Some r \<and> (\<forall>m' w'. r = Inr (m', w') \<longrightarrow> regions m' = old)"
    if img: "disk_image (view w1) d f" and cl: "clear_new_region_table E (m2, w2) = (SUCCESS, w3)"
  proof -
    have df: "d = dir(NEW_TABLE_FILE_NAME \<mapsto> i)" using img by (simp add: disk_image_def i(2))
    have "j \<in> ran d" using old(2) df ranI [of d CURRENT_TABLE_FILE_NAME j] by simp
    then have fj: "f j = table_bytes E old" using img old(3) ij by (auto simp: disk_image_def i(2))
    obtain ds where v3: "names (view w3) = d(NEW_TABLE_FILE_NAME := None)" "view w3 = (view w2)\<lparr>dirs := ds\<rparr>"
      using clear_new_region_table_files [OF px rd cl] re by (auto simp: restarted_def)
    have "restarted (d(NEW_TABLE_FILE_NAME := None)) f m2 (view w3)"
      using re v3 by (auto simp: restarted_def ran_def)
    then show ?thesis by (rule restarted_recover [OF px pad]) (use df fj old(2) ok in auto)
  qed
  show "\<exists>r. recover E (m2, w3) = Some r \<and> (\<forall>m' w'. r = Inr (m', w') \<longrightarrow> regions m' = regions m)"
    if img: "disk_image (view w1) d f \<or> disk_image (view (snd (commit_new_region_table E (m, w1)))) d f"
      and cm: "commit_new_region_table E (m2, w2) = (SUCCESS, w3)"
  proof -
    let ?d1 = "dir(NEW_TABLE_FILE_NAME \<mapsto> i)" and ?d2 = "dir(CURRENT_TABLE_FILE_NAME \<mapsto> i)"
    have d1: "fds (view w1) (pmem_dirfd m) = Some DirFd" using d(1) by (simp add: i(2))
    have dir: "dir(NEW_TABLE_FILE_NAME := None) = dir" using old(4) by auto
    have "names (view w1) NEW_TABLE_FILE_NAME = Some i" by (simp add: i(2))
    from commit_new_region_table_dirs [OF px d1 d(2) this] obtain ds where
      ds: "view (snd (commit_new_region_table E (m, w1))) = (view w1)\<lparr>dirs := ds\<rparr>" "set ds \<subseteq> {?d1, ?d2}"
      by (auto simp: i(2) dir)
    have df: "d \<in> {?d1, ?d2}" using img ds by (auto simp: disk_image_def i(2))
    have id: "i \<in> ran d" using df by (auto intro: ranI)
    then have fi: "f i = table_bytes E (regions m)" using img ds(1) by (auto simp: disk_image_def i(2))
    have di: "data (view w2) i = f i" using re id by (simp add: restarted_def)
    have v3: "restarted (d(NEW_TABLE_FILE_NAME := None, CURRENT_TABLE_FILE_NAME \<mapsto> i)) f m2 (view w3)"
      using commit_new_region_table_files [OF px rd cm] re df di old(4) by (auto simp: restarted_def ran_def split: if_splits)
    show ?thesis by (rule restarted_recover [OF px pad v3]) (use fi ok in auto)
  qed
qed

text \<open>On the simulated kernel \<open>recover\<close> succeeds when every region of the table has its file.\<close>

lemma sim_recover_region:
  assumes d: "fds v (pmem_dirfd m) = Some DirFd" "int32 (pmem_dirfd m)" and nf: "new_fd v (int nf)"
    and r: "names v (make_file_name r) = Some i" "user_region r"
  shows "\<exists>x. recover_region sim_env r (m, (v, nf, ni)) = Inr (add_region r m, (v\<lparr>vm := x\<rparr>, Suc nf, ni))"
proof -
  define v1 where "v1 = v\<lparr>fds := (fds v)(int nf \<mapsto> FileFd i 0)\<rparr>"
  define v2 where "v2 = v1\<lparr>vm := wr (reg_base r) (take (unat (reg_size r)) (data v i @ replicate (unat (reg_size r)) 0)) (vm v)\<rparr>"
  have i32: "int32 (int nf)" using nf by (simp add: new_fd_def int32_def)
  have b: "bit SHARED_FIXED 4" "\<not> bit SHARED_FIXED 5" by (simp_all add: SHARED_FIXED_def bit_or_iff bit_numeral_rec)
  have o: "my_openat sim_kernel (pmem_dirfd m) (make_file_name r) O_RDWR 0 (v, nf, ni) = (int nf, (v1, Suc nf, ni))"
    using d nf r by (simp add: sim_calls sim_openat_def v1_def new_fd_def bit_numeral_rec)
  have mm: "my_mmap sim_kernel (reg_base r) (reg_size r) RW SHARED_FIXED (int nf) 0 (v1, Suc nf, ni) = (reg_base r, (v2, Suc nf, ni))"
    using i32 b by (simp add: sim_calls sim_mmap_def v1_def v2_def)
  have cl: "my_close sim_kernel (int nf) (v2, Suc nf, ni) = (0, (v2\<lparr>fds := (fds v2)(int nf := None)\<rparr>, Suc nf, ni))"
    using i32 by (simp add: sim_calls sim_close_def)
  have "(fds v)(int nf := None) = fds v" using nf by (auto simp: new_fd_def)
  then have "v2\<lparr>fds := (fds v2)(int nf := None)\<rparr> = v\<lparr>vm := vm v2\<rparr>" by (simp add: v2_def v1_def)
  moreover have "0 \<le> sint (reg_base r)" unfolding user_region_sint [OF r(2)] by (rule of_nat_0_le_iff)
  then have "reg_base r \<noteq> MAP_FAILED" by auto
  ultimately have "recover_region sim_env r (m, (v, nf, ni)) = Inr (add_region r m, (v\<lparr>vm := vm v2\<rparr>, Suc nf, ni))"
    by (simp add: recover_region_def o mm cl)
  then show ?thesis by blast
qed

lemma sim_recover_loop:
  assumes i32: "int32 (pmem_dirfd m)" "int32 fd" and ne: "fd \<noteq> pmem_dirfd m" and "fds v (pmem_dirfd m) = Some DirFd"
    and "fds v fd = Some (FileFd j pos)" and "pos + length (table_bytes sim_env xs) = length (data v j)"
    and "drop pos (data v j) = table_bytes sim_env xs"
    and "\<forall>n \<ge> nf. fds v (int n) = None" and "nf + length xs < 2147483648"
    and "\<forall>r \<in> set xs. user_region r \<and> names v (make_file_name r) \<noteq> None"
  shows "\<exists>m' w'. recover_loop sim_env fd (m, (v, nf, ni)) = Some (Inr (0, m', w'))"
  using assms
proof (induction xs arbitrary: m v pos nf)
  case Nil
  then have "my_read sim_kernel fd (Out 24) 24 (v, nf, ni) = ((0, []), (v\<lparr>fds := (fds v)(fd \<mapsto> FileFd j pos)\<rparr>, nf, ni))"
    by (simp add: sim_calls sim_read_def table_bytes_def Let_def)
  then show ?case by (subst recover_loop.simps) (simp add: to_int_def)
next
  case (Cons r xs)
  define v1 where "v1 = v\<lparr>fds := (fds v)(fd \<mapsto> FileFd j (pos + 24))\<rparr>"
  have e: "length (region_bytes sim_env r) = 24" by (simp add: encode_region_def)
  have t: "drop pos (data v j) = region_bytes sim_env r @ table_bytes sim_env xs"
    using Cons.prems(7) by (simp add: table_bytes_def)
  have "length (data v j) - pos = 24 + length (table_bytes sim_env xs)" using arg_cong [OF t, of length] e by simp
  then have rd: "my_read sim_kernel fd (Out 24) 24 (v, nf, ni) = ((24, region_bytes sim_env r), (v1, nf, ni))"
    using Cons.prems(2,5) e t by (simp add: sim_calls sim_read_def v1_def)
  have fd': "int nf \<noteq> fd" "\<forall>n \<ge> nf. int n \<noteq> fd" using Cons.prems(5,8) by force+
  obtain i where i: "names v1 (make_file_name r) = Some i" using Cons.prems(10) by (auto simp: v1_def)
  have "new_fd v1 (int nf)" "fds v1 (pmem_dirfd m) = Some DirFd" "user_region r"
    using Cons.prems(3,4,8-10) fd' by (simp_all add: new_fd_def v1_def)
  with sim_recover_region [OF _ Cons.prems(1) _ i] obtain x where
    "recover_region sim_env r (m, (v1, nf, ni)) = Inr (add_region r m, (v1\<lparr>vm := x\<rparr>, Suc nf, ni))" by blast
  then have "recover_loop sim_env fd (m, (v, nf, ni)) = recover_loop sim_env fd (add_region r m, (v1\<lparr>vm := x\<rparr>, Suc nf, ni))"
    using rd by (subst recover_loop.simps) (simp add: to_int_def)
  moreover have "drop (pos + 24) (data v j) = table_bytes sim_env xs"
    using arg_cong [OF t, of "drop 24"] e by (simp add: add.commute)
  then have "\<exists>m' w'. recover_loop sim_env fd (add_region r m, (v1\<lparr>vm := x\<rparr>, Suc nf, ni)) = Some (Inr (0, m', w'))"
    using Cons.prems fd' e by (intro Cons.IH [where pos = "pos + 24"]) (auto simp: v1_def add_region_def table_bytes_def)
  ultimately show ?case by simp
qed

lemma sim_recover_table:
  assumes d: "fds v (pmem_dirfd m) = Some DirFd" "int32 (pmem_dirfd m)"
    and t: "names v CURRENT_TABLE_FILE_NAME = Some j" "data v j = table_bytes sim_env xs"
    and free: "\<forall>n \<ge> nf. fds v (int n) = None" "nf + length xs < 2147483647"
    and r: "\<forall>r \<in> set xs. user_region r \<and> names v (make_file_name r) \<noteq> None"
  shows "\<exists>m' w'. recover sim_env (m, (v, nf, ni)) = Some (Inr (m', w'))"
proof -
  define v1 where "v1 = v\<lparr>fds := (fds v)(int nf \<mapsto> FileFd j 0)\<rparr>"
  have nf: "new_fd v (int nf)" using free by (simp add: new_fd_def)
  then have i32: "int32 (int nf)" "int nf \<noteq> pmem_dirfd m" using d(1) by (auto simp: new_fd_def int32_def)
  have o: "my_openat sim_kernel (pmem_dirfd m) CURRENT_TABLE_FILE_NAME O_RDONLY 0 (v, nf, ni) = (int nf, (v1, Suc nf, ni))"
    using d nf t by (simp add: sim_calls sim_openat_def v1_def)
  obtain m' w' where l: "recover_loop sim_env (int nf) (m, (v1, Suc nf, ni)) = Some (Inr (0, m', w'))"
    using sim_recover_loop [OF d(2) i32, of v1 j 0 xs "Suc nf" ni] d(1) i32(2) t free r by (auto simp: v1_def)
  have "\<exists>w''. my_close sim_kernel (int nf) w' = (0, w'')" using i32 by (cases w') (simp add: sim_calls sim_close_def)
  then show ?thesis by (auto simp: recover_def o l bind_ro_def)
qed

text \<open>An empty table is replaced by one with a region, whose file exists.\<close>

abbreviation demo_table_fs :: fs where
  "demo_table_fs \<equiv> demo_fs\<lparr>dirs := [[CURRENT_TABLE_FILE_NAME \<mapsto> 0, make_file_name demo_region \<mapsto> 1]]\<rparr>"

abbreviation demo_table_mgr :: mem_region_manager where
  "demo_table_mgr \<equiv> \<lparr>pmem_dirfd = 3, regions = [demo_region], rs = [Range 4096 12288]\<rparr>"

lemma region_file_name: "make_file_name r \<noteq> CURRENT_TABLE_FILE_NAME" "make_file_name r \<noteq> NEW_TABLE_FILE_NAME"
  by (simp_all add: make_file_name_def CURRENT_TABLE_FILE_NAME_def NEW_TABLE_FILE_NAME_def)

lemma in_ran_upd: "x \<in> ran (m(k \<mapsto> y)) \<Longrightarrow> x = y \<or> x \<in> ran m"
  by (auto simp: ran_def split: if_splits)

lemma demo_persist:
  "\<exists>v. persist_new_region_table sim_env (demo_table_mgr, (demo_table_fs, 4, 7)) = Inr (SUCCESS, (v, 5, 8)) \<and>
     dirs v = [[CURRENT_TABLE_FILE_NAME \<mapsto> 0, make_file_name demo_region \<mapsto> 1, NEW_TABLE_FILE_NAME \<mapsto> 7]] \<and> contents v 0 = [[]] \<and>
     contents v 1 = [[]] \<and> contents v 7 = [table_bytes sim_env [demo_region]] \<and> fds v = [3 \<mapsto> DirFd]"
proof -
  let ?e = "encode_region (\<lambda>_. [0, 0, 0, 0]) demo_region"
  have e: "length ?e = 24" by (simp add: encode_region_def)
  define v0 where "v0 = demo_table_fs"
  define v1 where "v1 = v0\<lparr>dirs := [[CURRENT_TABLE_FILE_NAME \<mapsto> 0, make_file_name demo_region \<mapsto> 1, NEW_TABLE_FILE_NAME \<mapsto> 7],
      [CURRENT_TABLE_FILE_NAME \<mapsto> 0, make_file_name demo_region \<mapsto> 1]],
    contents := (\<lambda>_. [[]])(7 := [[]]), fds := [3 \<mapsto> DirFd, 4 \<mapsto> FileFd 7 0]\<rparr>"
  define v2 where "v2 = v1\<lparr>contents := (\<lambda>_. [[]])(7 := [?e, []]), fds := [3 \<mapsto> DirFd, 4 \<mapsto> FileFd 7 24]\<rparr>"
  define v3 where "v3 = v2\<lparr>contents := (\<lambda>_. [[]])(7 := [?e])\<rparr>"
  define v4 where "v4 = v3\<lparr>fds := [3 \<mapsto> DirFd]\<rparr>"
  define v5 where "v5 = v4\<lparr>dirs := [names v4]\<rparr>"
  note defs = v0_def v1_def v2_def v3_def v4_def
  have o: "my_openat sim_kernel 3 NEW_TABLE_FILE_NAME 65 0 (v0, 4, 7) = (4, (v1, 5, 8))"
    using region_file_name [of demo_region]
    by (auto simp: sim_calls sim_openat_def new_fd_def new_inode_def bit_numeral_rec defs dest!: in_ran_upd)
  have w: "my_write sim_kernel 4 (Buf ?e) 24 (v1, 5, 8) = (24, (v2, 5, 8))"
    using e by (simp add: sim_calls sim_write_def put_def defs)
  have f: "my_fsync sim_kernel 4 (v2, 5, 8) = (0, (v3, 5, 8))"
    by (simp add: sim_calls sim_fsync_def defs)
  have c: "my_close sim_kernel 4 (v3, 5, 8) = (0, (v4, 5, 8))"
    by (simp add: sim_calls sim_close_def defs)
  have g: "my_fsync sim_kernel 3 (v4, 5, 8) = (0, (v5, 5, 8))"
    by (simp add: sim_calls sim_fsync_def v5_def) (simp add: defs)
  have t: "to_int 24 = 24" by (simp add: to_int_def)
  have "persist_new_region_table sim_env (demo_table_mgr, (v0, 4, 7)) = Inr (SUCCESS, (v5, 5, 8))"
    using w by (simp add: persist_new_region_table_def o f c g write_region_def Let_def t)
  then show ?thesis unfolding v0_def by (auto simp: defs v5_def table_bytes_def)
qed

theorem region_tables_choose_witness:
  "\<exists>w1 w3 m' w'. persist_new_region_table sim_env (demo_table_mgr, (demo_table_fs, 4, 7)) = Inr (SUCCESS, w1) \<and>
     restarted (names (fst w1)) (data (fst w1)) empty_mgr (fst w1) \<and> disk_image (fst w1) (names (fst w1)) (data (fst w1)) \<and>
     commit_new_region_table sim_env (empty_mgr, w1) = (SUCCESS, w3) \<and> recover sim_env (empty_mgr, w3) = Some (Inr (m', w')) \<and>
     regions m' = [demo_region]"
proof -
  let ?d = "[CURRENT_TABLE_FILE_NAME \<mapsto> 0, make_file_name demo_region \<mapsto> 1]" and ?d3 = "[CURRENT_TABLE_FILE_NAME \<mapsto> 7, make_file_name demo_region \<mapsto> 1]"
  obtain v where v: "persist_new_region_table sim_env (demo_table_mgr, (demo_table_fs, 4, 7)) = Inr (SUCCESS, (v, 5, 8))"
     "dirs v = [?d(NEW_TABLE_FILE_NAME \<mapsto> 7)]" "contents v 0 = [[]]" "contents v 1 = [[]]"
     "contents v 7 = [table_bytes sim_env [demo_region]]" "fds v = [3 \<mapsto> DirFd]"
    using demo_persist by blast
  let ?w1 = "(v, 5, 8) :: sim" and ?v3 = "v\<lparr>dirs := [?d(NEW_TABLE_FILE_NAME := None, CURRENT_TABLE_FILE_NAME \<mapsto> 7)]\<rparr>"
  have re: "restarted (names (fst ?w1)) (data (fst ?w1)) empty_mgr (fst ?w1)" by (simp add: restarted_def v(6))
  have "ran (names v) \<subseteq> {7, 1, 0}" using v(2) by (auto dest!: in_ran_upd)
  then have img: "disk_image (fst ?w1) (names (fst ?w1)) (data (fst ?w1))" using v(2-5) by (auto simp: disk_image_def)
  have c: "commit_new_region_table sim_env (empty_mgr, ?w1) = (SUCCESS, (?v3, 5, 8))"
    using v(2,6) by (simp add: commit_new_region_table_def sim_calls sim_rename_def sim_fsync_def)
  have pad: "padded sim_env" by (simp add: padded_def)
  have ok: "\<forall>r \<in> set [] \<union> set (regions demo_table_mgr). user_region r"
    by (simp add: user_region_def region_ok_def)
  note rt = region_tables_choose [where E = sim_env and view = fst and m = demo_table_mgr and w = "(demo_table_fs, 4, 7)"
    and dir = ?d and j = 0 and old = "[]", OF _ pad _ _ _ _ _ _ ok v(1) re, of "(?v3, 5, 8)"]
  have "\<exists>r. recover sim_env (empty_mgr, (?v3, 5, 8)) = Some r \<and> (\<forall>m' w'. r = Inr (m', w') \<longrightarrow> regions m' = regions demo_table_mgr)"
    using rt c img region_file_name [of demo_region] by (simp add: sim_posix table_bytes_def)
  moreover obtain m' w' where r: "recover sim_env (empty_mgr, (?v3, 5, 8)) = Some (Inr (m', w'))"
    using sim_recover_table [of ?v3 empty_mgr 7 "[demo_region]" 5 8] v(5,6) ok region_file_name [of demo_region] by auto
  ultimately have "regions m' = [demo_region]" by (cases w') simp
  with v(1) re img c r show ?thesis by blast
qed

end
