(* ===== verification/Region_Foreground.thy ===== *)
theory Region_Foreground
  imports Region_Props
begin

text \<open>
  The hand-over of the regions at recovery: \<open>send_regions\<close> of the background process writes the
  table and a sentinel into a pipe, \<open>map_recovered_regions\<close> of the foreground process reads
  them and fills its memory from the region files.
\<close>

lemma length_file_bytes [simp]: "length (file_bytes v r) = unat (reg_size r)"
  by (simp add: file_bytes_def Let_def)

lemma wr_wr_same: "length xs = length ys \<Longrightarrow> wr a ys (wr a xs m) = wr a ys m"
  by (rule ext) (auto simp: wr_def)

lemma mmap_anon:
  assumes "mmap_ok v a n ANON_FIXED fd (sint a) v'" and "0 \<le> sint a"
  shows "v' = v\<lparr>vm := wr a (replicate n 0) (vm v)\<rparr>"
proof -
  have "bit ANON_FIXED 4" "bit ANON_FIXED 5"
    by (simp_all add: ANON_FIXED_def bit_or_iff bit_numeral_rec)
  with assms show ?thesis by (auto simp: mmap_ok_def fails_def)
qed

lemma map_recovered_region_files:
  assumes px: "posix k view" and d: "fds (view w) d = Some DirFd" "int32 d" and r: "user_region r"
    and res: "map_recovered_region k d r w = Inr w'"
  shows "view w' = (view w)\<lparr>vm := load_region (view w) r (vm (view w))\<rparr>"
proof -
  let ?n = "unat (reg_size r)"
  obtain addr w1 where mm: "my_mmap k (reg_base r) (reg_size r) RW ANON_FIXED (- 1) 0 w = (addr, w1)" by fastforce
  obtain fd w2 where o: "my_openat k d (make_file_name r) O_RDWR 0 w1 = (fd, w2)" by fastforce
  obtain n out w3 where rd: "my_read k fd (Num addr) (reg_size r) w2 = ((n, out), w3)" by (metis surj_pair)
  obtain c w4 where cl: "my_close k fd w3 = (c, w4)" by fastforce
  have e: "addr = reg_base r" "0 \<le> fd" using res by (auto simp: map_recovered_region_def mm o Let_def split: if_splits)
  have rest: "\<not> to_int (word_of_int n) < 0" "\<not> (word_of_int (to_int (word_of_int n)) :: u64) < reg_size r" "c = 0" "w' = w4"
    using res e rd by (auto simp: map_recovered_region_def mm o cl Let_def split: if_splits)
  have v1: "view w1 = (view w)\<lparr>vm := wr (reg_base r) (replicate ?n 0) (vm (view w))\<rparr>"
    by (rule mmap_anon [OF posix_mmap [OF px mm shared_int32(2), unfolded e(1)]]) (simp_all add: user_region_sint [OF r])
  have d1: "fds (view w1) d = Some DirFd" using d(1) by (simp add: v1)
  obtain i where i: "names (view w1) (make_file_name r) = Some i" "new_fd (view w1) fd"
    "view w2 = (view w1)\<lparr>fds := (fds (view w1))(fd \<mapsto> FileFd i 0)\<rparr>"
    by (rule openat_old [OF posix_openat(1) [OF px o d1 d(2)] d1 _ e(2)]) (simp_all add: bit_numeral_rec)
  have i32: "int32 fd" by (rule new_fd_int32 [OF i(2)])
  obtain bs where ro: "read_ok (view w2) fd ?n (\<lambda>bs u. u\<lparr>vm := wr addr bs (vm u)\<rparr>) n bs (view w3)"
    using posix_read_mem [OF px rd i32] by blast
  have n: "to_int (word_of_int n) = n" by (rule to_int_of [OF transfer_range(2) [OF ro]])
  have n0: "0 \<le> n" "nat n \<le> ?n" using ro rest(1) n by (auto simp: read_ok_def fails_def)
  have "?n \<le> unat (word_of_int n :: u64)" using rest(2) by (simp add: n word_le_nat_alt not_less)
  moreover have "unat (word_of_int n :: u64) = nat n"
    using n0 unat_u64_less [of "reg_size r"] unat_of_nat_small [of "nat n"] by simp
  ultimately have n': "nat n = ?n" using n0(2) by simp
  have v3: "bs = take ?n (data (view w) i)" "?n \<le> length (data (view w) i)"
    "view w3 = (view w2)\<lparr>fds := (fds (view w2))(fd \<mapsto> FileFd i (nat n)), vm := wr addr bs (vm (view w2))\<rparr>"
    using ro n0(1) n' by (auto simp: read_ok_def fails_def i(3) v1)
  have v4: "view w4 = (view w3)\<lparr>fds := (fds (view w3))(fd := None)\<rparr>"
    by (rule close_done [OF posix_close [OF px cl i32]]) (simp add: rest(3))
  have "(fds (view w))(fd := None) = fds (view w)" using i(2) by (auto simp: new_fd_def v1)
  moreover have "bs = file_bytes (view w) r" using v3(1,2) i(1) by (simp add: file_bytes_def v1)
  moreover have "length bs = ?n" using v3 by simp
  ultimately show ?thesis
    by (simp add: rest(4) v4 v3(3) i(3) v1 e(1) load_region_def wr_wr_same cong: if_cong)
qed

lemma not_sentinel: "region_ok r \<Longrightarrow> \<not> (reg_base r = 0 \<and> reg_size r = 0)"
  by (auto simp: region_ok_def)

lemma map_recovered_loop_files:
  assumes px: "posix k view" and pad: "padded E" and i32: "int32 d" "int32 fd"
    and ok: "\<forall>r \<in> set xs. user_region r"
    and "fds (view w) d = Some DirFd" and "fds (view w) fd = Some PipeR"
    and "inbox (view w) = table_bytes E xs @ region_bytes E sentinel @ rest"
  shows "\<exists>res. map_recovered_loop k d fd w = Some res \<and>
    (\<forall>w'. res = Inr w' \<longrightarrow> view w' = (view w)\<lparr>inbox := rest, vm := fold (load_region (view w)) xs (vm (view w))\<rparr>)"
  using assms(5-)
proof (induction xs arbitrary: w)
  case Nil
  obtain n bs w1 where n: "my_read k fd (Out 24) 24 w = ((n, bs), w1)" by (metis surj_pair)
  have ro: "read_ok (view w) fd 24 (\<lambda>_ u. u) n bs (view w1)"
    by (rule posix_read [OF px n]) (use i32 in simp_all)
  have ti: "to_int (word_of_int n) = n" by (rule to_int_of [OF transfer_range(2) [OF ro]])
  consider "n < 0 \<or> (word_of_int n :: u64) < 24" | "n = 24"
    using transfer_short [OF ro] by auto
  then show ?case
  proof cases
    case 1
    then have "map_recovered_loop k d fd w = Some (Inl EINVAL)"
      by (subst map_recovered_loop.simps) (simp add: n ti)
    then show ?thesis by simp
  next
    case 2
    then have v1: "bs = region_bytes E sentinel" "view w1 = (view w)\<lparr>inbox := rest\<rparr>"
      using ro Nil.prems pad by (auto simp: read_ok_def fails_def)
    then have "map_recovered_loop k d fd w = Some (Inr w1)"
      by (subst map_recovered_loop.simps) (simp add: n 2 v1(1) sentinel_def to_int_def)
    then show ?thesis using v1(2) by simp
  qed
next
  case (Cons r xs)
  obtain n bs w1 where n: "my_read k fd (Out 24) 24 w = ((n, bs), w1)" by (metis surj_pair)
  have ro: "read_ok (view w) fd 24 (\<lambda>_ u. u) n bs (view w1)"
    by (rule posix_read [OF px n]) (use i32 in simp_all)
  have ti: "to_int (word_of_int n) = n" by (rule to_int_of [OF transfer_range(2) [OF ro]])
  consider "n < 0 \<or> (word_of_int n :: u64) < 24" | "n = 24"
    using transfer_short [OF ro] by auto
  then show ?case
  proof cases
    case 1
    then have "map_recovered_loop k d fd w = Some (Inl EINVAL)"
      by (subst map_recovered_loop.simps) (simp add: n ti)
    then show ?thesis by simp
  next
    case 2
    then have v1: "bs = region_bytes E r" "view w1 = (view w)\<lparr>inbox := table_bytes E xs @ region_bytes E sentinel @ rest\<rparr>"
      using ro Cons.prems pad by (auto simp: read_ok_def fails_def)
    have r: "user_region r" and ns: "\<not> (reg_base r = 0 \<and> reg_size r = 0)"
      using Cons.prems(1) not_sentinel by (auto simp: user_region_def)
    have loop: "map_recovered_loop k d fd w = (case map_recovered_region k d r w1 of
        Inl e \<Rightarrow> Some (Inl e) | Inr w2 \<Rightarrow> map_recovered_loop k d fd w2)"
      using ns by (subst map_recovered_loop.simps) (auto simp add: n 2 v1(1) to_int_def)
    show ?thesis
    proof (cases "map_recovered_region k d r w1")
      case (Inl e)
      then show ?thesis by (simp add: loop)
    next
      case (Inr w2)
      have "view w2 = (view w1)\<lparr>vm := load_region (view w1) r (vm (view w1))\<rparr>"
        by (rule map_recovered_region_files [OF px _ i32(1) r Inr]) (use Cons.prems(2) in \<open>simp add: v1\<close>)
      then have v2: "view w2 = (view w)\<lparr>inbox := table_bytes E xs @ region_bytes E sentinel @ rest, vm := load_region (view w) r (vm (view w))\<rparr>"
        by (simp add: v1)
      have "\<forall>r \<in> set xs. user_region r" using Cons.prems(1) by simp
      from Cons.IH [OF this, of w2] Cons.prems(2,3) show ?thesis by (simp add: loop Inr v2)
    qed
  qed
qed

text \<open>Loading disjoint regions, in any order, each region has the bytes of its file.\<close>

lemma load_other:
  assumes r: "region_ok r" and x: "x \<notin> region_addrs r"
  shows "load_region v r m x = m x"
proof -
  have "unat (reg_base r) + unat (reg_size r) \<le> 18446744073709551616" using r by (simp add: region_ok_def)
  from window_iff [OF this, of x] x show ?thesis
    by (auto simp: load_region_def wr_def region_addrs_nat [OF r])
qed

lemma fold_load_other:
  "\<forall>r \<in> set xs. region_ok r \<and> x \<notin> region_addrs r \<Longrightarrow> fold (load_region v) xs m x = m x"
  by (induction xs arbitrary: m) (auto simp: load_other)

lemma fold_load_region:
  assumes "distinct xs" and "\<forall>r \<in> set xs. region_ok r"
    and "\<forall>r \<in> set xs. \<forall>s \<in> set xs. r \<noteq> s \<longrightarrow> \<not> does_overlap_with r s" and r: "r \<in> set xs"
  shows "rd (fold (load_region v) xs m) (reg_base r) (unat (reg_size r)) = file_bytes v r"
proof -
  obtain ys zs where xs: "xs = ys @ r # zs" using r by (meson split_list)
  have ok: "region_ok r" using assms(2) r by blast
  have b: "unat (reg_base r) + unat (reg_size r) \<le> 18446744073709551616" using ok by (simp add: region_ok_def)
  let ?m = "fold (load_region v) ys m"
  have "fold (load_region v) zs (load_region v r ?m) x = load_region v r ?m x" if "x \<in> region_addrs r" for x
  proof (rule fold_load_other, intro ballI conjI)
    fix s assume s: "s \<in> set zs"
    then show "region_ok s" using assms(2) xs by simp
    moreover have "r \<noteq> s" using assms(1) s xs by auto
    then have "\<not> does_overlap_with r s" using assms(3) s xs by auto
    ultimately show "x \<notin> region_addrs s" using that overlap_disjoint [OF ok, of s] by blast
  qed
  moreover have "reg_base r + of_nat i \<in> region_addrs r" if "i < unat (reg_size r)" for i
    using that b ok unat_add_of_nat [of "reg_base r" i] by (simp add: region_addrs_nat region_ok_def)
  ultimately have "rd (fold (load_region v) xs m) (reg_base r) (unat (reg_size r)) =
      rd (load_region v r ?m) (reg_base r) (unat (reg_size r))"
    unfolding xs by (intro rd_cong) simp
  also have "\<dots> = file_bytes v r"
    using rd_wr_same [of "file_bytes v r" "reg_base r" ?m] unat_u64_less [of "reg_size r"] by (simp add: load_region_def)
  finally show ?thesis .
qed

text \<open>The pipe may hold more behind the sentinel, which stays there.\<close>

lemma map_recovered_regions_files:
  assumes px: "posix k fview" and pad: "padded E" and pfd: "fds (fview u) pfd = Some PipeR" "int32 pfd"
    and m: "mgr_inv m" "\<forall>r \<in> set (regions m). user_region r"
    and inb: "inbox (fview u) = table_bytes E (regions m) @ region_bytes E sentinel @ rest"
  shows "\<exists>res. map_recovered_regions k path pfd u = Some res \<and>
    (\<forall>u'. res = Inr u' \<longrightarrow> inbox (fview u') = rest \<and> outbox (fview u') = outbox (fview u) \<and> fds (fview u') = fds (fview u) \<and>
       (\<forall>r \<in> set (regions m). rd (vm (fview u')) (reg_base r) (unat (reg_size r)) = file_bytes (fview u) r) \<and>
       (\<forall>x. (\<forall>r \<in> set (regions m). x \<notin> region_addrs r) \<longrightarrow> vm (fview u') x = vm (fview u) x))"
proof -
  obtain d u1 where o: "my_open k path O_DIRECTORY 0 u = (d, u1)" by fastforce
  note po = posix_open [OF px o]
  show ?thesis
  proof (cases "d < 0")
    case True
    then show ?thesis by (simp add: map_recovered_regions_def o)
  next
    case False
    then have d: "new_fd (fview u) d" "fview u1 = (fview u)\<lparr>fds := (fds (fview u))(d \<mapsto> DirFd)\<rparr>"
      using po by (auto simp: fails_def)
    have ne: "d \<noteq> pfd" using d(1) pfd(1) by (auto simp: new_fd_def)
    obtain res where l: "map_recovered_loop k d pfd u1 = Some res" and
      res: "\<And>w'. res = Inr w' \<Longrightarrow> fview w' = (fview u1)\<lparr>inbox := rest, vm := fold (load_region (fview u1)) (regions m) (vm (fview u1))\<rparr>"
      using map_recovered_loop_files [OF px pad new_fd_int32 [OF d(1)] pfd(2) m(2), of u1 rest] ne pfd(1) inb by (auto simp: d(2))
    show ?thesis
    proof (cases res)
      case (Inl e)
      then show ?thesis using False by (simp add: map_recovered_regions_def o l)
    next
      case (Inr u2)
      obtain c u3 where c: "my_close k d u2 = (c, u3)" by fastforce
      have f: "rd (fold (load_region (fview u)) (regions m) (vm (fview u))) (reg_base r) (unat (reg_size r)) = file_bytes (fview u) r"
        if "r \<in> set (regions m)" for r
        using m(1) that by (intro fold_load_region) (auto simp: mgr_inv_def)
      have g: "fold (load_region (fview u)) (regions m) (vm (fview u)) x = vm (fview u) x"
        if "\<forall>r \<in> set (regions m). x \<notin> region_addrs r" for x
        using m(1) that by (intro fold_load_other) (auto simp: mgr_inv_def)
      have "fview u3 = (fview u2)\<lparr>fds := (fds (fview u2))(d := None)\<rparr>" if "c = 0"
        using close_done [OF posix_close [OF px c new_fd_int32 [OF d(1)]]] that by simp
      moreover have "(fds (fview u))(d := None) = fds (fview u)" using d(1) by (auto simp: new_fd_def)
      ultimately show ?thesis
        using False res [OF Inr] f g by (simp add: map_recovered_regions_def o l Inr c d(2))
    qed
  qed
qed

text \<open>What \<open>send_regions\<close> leaves in the pipe.\<close>

lemma send_regions_pipe:
  assumes "posix (kern E) view" "padded E" "fds (view w) fd = Some PipeW" "int32 fd" and send: "send_regions E fd (m, w) = Inr w1"
  shows "view w1 = (view w)\<lparr>outbox := outbox (view w) @ table_bytes E (regions m) @ region_bytes E sentinel\<rparr>"
proof -
  obtain wa where wa: "write_regions E fd (regions m) w = Inr wa" "write_region E fd sentinel wa = Inr w1"
    using send by (auto simp: send_regions_def bind_result_Inr)
  note va = write_regions_pipe [OF assms(1,2,4,3) wa(1)]
  have "view w1 = (view wa)\<lparr>outbox := outbox (view wa) @ region_bytes E sentinel\<rparr>"
    by (rule write_region_pipe [OF assms(1,2,4) _ wa(2)]) (simp add: va assms(3))
  then show ?thesis by (simp add: va)
qed

section \<open>On the simulated kernel\<close>

text \<open>Every call succeeds there, so the table is sent and, when its region files are long enough, mapped.\<close>

lemma length_sim_region [simp]: "length (encode_region (\<lambda>_. [0, 0, 0, 0]) r) = 24"
  by (simp add: encode_region_def)

lemma sim_write_region:
  assumes "fds v fd = Some PipeW" and "int32 fd"
  shows "write_region sim_env fd r (v, s) = Inr (v\<lparr>outbox := outbox v @ region_bytes sim_env r\<rparr>, s)"
  using assms by (cases s) (simp add: write_region_def sim_calls sim_write_def to_int_def)

lemma sim_send_regions:
  assumes "fds v fd = Some PipeW" and "int32 fd"
  shows "send_regions sim_env fd (m, (v, s)) =
    Inr (v\<lparr>outbox := outbox v @ table_bytes sim_env (regions m) @ region_bytes sim_env sentinel\<rparr>, s)"
proof -
  have "write_regions sim_env fd xs (v', s) = Inr (v'\<lparr>outbox := outbox v' @ table_bytes sim_env xs\<rparr>, s)"
    if "fds v' fd = Some PipeW" for xs v'
    using that by (induction xs arbitrary: v') (simp_all add: sim_write_region [OF _ assms(2)] table_bytes_def)
  then show ?thesis using assms by (simp add: send_regions_def sim_write_region)
qed

definition has_file :: "fs \<Rightarrow> region \<Rightarrow> bool" where
  "has_file v r \<longleftrightarrow> user_region r \<and> unat (reg_size r) \<le> max_rw \<and>
     (\<exists>i. names v (make_file_name r) = Some i \<and> unat (reg_size r) \<le> length (data v i))"

lemma sim_map_region:
  assumes d: "fds v d = Some DirFd" "int32 d" and nf: "new_fd v (int nf)" and r: "has_file v r"
  shows "map_recovered_region sim_kernel d r (v, nf, ni) = Inr (v\<lparr>vm := load_region v r (vm v)\<rparr>, Suc nf, ni)"
proof -
  let ?n = "unat (reg_size r)"
  obtain i where i: "names v (make_file_name r) = Some i" "?n \<le> length (data v i)" and n: "?n \<le> max_rw"
    and u: "user_region r" using r by (auto simp: has_file_def)
  define v1 where "v1 = v\<lparr>vm := wr (reg_base r) (replicate ?n 0) (vm v)\<rparr>"
  define v2 where "v2 = v1\<lparr>fds := (fds v)(int nf \<mapsto> FileFd i 0)\<rparr>"
  have ne: "int nf \<noteq> d" "int32 (int nf)" using d nf by (auto simp: new_fd_def int32_def)
  have b: "bit ANON_FIXED 4" "bit ANON_FIXED 5" by (simp_all add: ANON_FIXED_def bit_or_iff bit_numeral_rec)
  have mm: "my_mmap sim_kernel (reg_base r) (reg_size r) RW ANON_FIXED (- 1) 0 (v, nf, ni) = (reg_base r, (v1, nf, ni))"
    by (simp add: sim_calls sim_mmap_def b v1_def)
  have o: "my_openat sim_kernel d (make_file_name r) O_RDWR 0 (v1, nf, ni) = (int nf, (v2, Suc nf, ni))"
    using d nf i by (simp add: sim_calls sim_openat_def v1_def v2_def new_fd_def bit_numeral_rec)
  have rd: "\<exists>out w. my_read sim_kernel (int nf) (Num (reg_base r)) (reg_size r) (v2, Suc nf, ni) = ((int ?n, out), (w, Suc nf, ni))"
    using ne n i by (simp add: sim_calls sim_read_def Let_def v2_def v1_def)
  then obtain out w where rd: "my_read sim_kernel (int nf) (Num (reg_base r)) (reg_size r) (v2, Suc nf, ni) = ((int ?n, out), (w, Suc nf, ni))"
    by blast
  have cl: "\<exists>w'. my_close sim_kernel (int nf) (w, Suc nf, ni) = (0, (w', Suc nf, ni))" using ne by (simp add: sim_calls sim_close_def)
  have "int32 (int k)" if "k \<le> max_rw" for k using that by (simp add: int32_def)
  from to_int_of [OF this [OF n]] have ti: "to_int (word_of_int (int ?n)) = int ?n" .
  obtain w' where ok: "map_recovered_region sim_kernel d r (v, nf, ni) = Inr (w', Suc nf, ni)"
    using cl ti by (auto simp: map_recovered_region_def mm o rd)
  from map_recovered_region_files [OF sim_posix _ d(2) u this] d(1) show ?thesis by (simp add: ok)
qed

lemma sim_map_loop:
  assumes i32: "int32 d" "int32 fd" and "fds v d = Some DirFd" and "fds v fd = Some PipeR"
    and "\<forall>n \<ge> nf. fds v (int n) = None" and "nf + length xs < 2147483648" and "\<forall>r \<in> set xs. has_file v r"
    and "inbox v = table_bytes sim_env xs @ region_bytes sim_env sentinel @ rest"
  shows "\<exists>v' nf'. map_recovered_loop sim_kernel d fd (v, nf, ni) = Some (Inr (v', nf', ni))"
  using assms(3-)
proof (induction xs arbitrary: v nf)
  case Nil
  have "my_read sim_kernel fd (Out 24) 24 (v, nf, ni) = ((24, region_bytes sim_env sentinel), (v\<lparr>inbox := rest\<rparr>, nf, ni))"
    using Nil.prems i32 by (simp add: sim_calls sim_read_def table_bytes_def)
  then show ?case by (subst map_recovered_loop.simps) (simp add: to_int_def sentinel_def)
next
  case (Cons r xs)
  define v1 where "v1 = v\<lparr>inbox := table_bytes sim_env xs @ region_bytes sim_env sentinel @ rest\<rparr>"
  have rd: "my_read sim_kernel fd (Out 24) 24 (v, nf, ni) = ((24, region_bytes sim_env r), (v1, nf, ni))"
    using Cons.prems i32 by (simp add: sim_calls sim_read_def table_bytes_def v1_def)
  have r: "has_file v1 r" and ns: "\<not> (reg_base r = 0 \<and> reg_size r = 0)"
    using Cons.prems(5) not_sentinel [of r] by (auto simp: has_file_def v1_def user_region_def)
  have d: "fds v1 d = Some DirFd" and "new_fd v1 (int nf)" using Cons.prems(1,3,4) by (simp_all add: new_fd_def v1_def)
  define v2 where "v2 = v1\<lparr>vm := load_region v1 r (vm v1)\<rparr>"
  have m: "map_recovered_region sim_kernel d r (v1, nf, ni) = Inr (v2, Suc nf, ni)"
    unfolding v2_def by (rule sim_map_region [OF d i32(1) \<open>new_fd v1 (int nf)\<close> r])
  have "map_recovered_loop sim_kernel d fd (v, nf, ni) = map_recovered_loop sim_kernel d fd (v2, Suc nf, ni)"
    using ns by (subst map_recovered_loop.simps) (auto simp: rd m to_int_def)
  moreover have "\<exists>v' nf'. map_recovered_loop sim_kernel d fd (v2, Suc nf, ni) = Some (Inr (v', nf', ni))"
    using Cons.prems by (intro Cons.IH) (auto simp: v2_def v1_def has_file_def)
  ultimately show ?case by simp
qed

lemma sim_map_regions:
  assumes fd: "fds v fd = Some PipeR" "int32 fd" and free: "\<forall>n \<ge> nf. fds v (int n) = None" "nf + length xs < 2147483647"
    and f: "\<forall>r \<in> set xs. has_file v r" and inb: "inbox v = table_bytes sim_env xs @ region_bytes sim_env sentinel @ rest"
  shows "\<exists>w'. map_recovered_regions sim_kernel path fd (v, nf, ni) = Some (Inr w')"
proof -
  let ?v = "v\<lparr>fds := (fds v)(int nf \<mapsto> DirFd)\<rparr>"
  have nf: "new_fd v (int nf)" using free by (simp add: new_fd_def)
  then have i32: "int32 (int nf)" and ne: "fd \<noteq> int nf" using fd(1) by (auto simp: new_fd_def int32_def)
  have "my_open sim_kernel path O_DIRECTORY 0 (v, nf, ni) = (int nf, (?v, Suc nf, ni))"
    using nf to_int_of [OF i32] by (simp add: my_open_def syscall_def sim_kernel_simps sim_open_def)
  moreover obtain v' nf' where "map_recovered_loop sim_kernel (int nf) fd (?v, Suc nf, ni) = Some (Inr (v', nf', ni))"
    using sim_map_loop [OF i32 fd(2), of ?v "Suc nf" xs rest ni] fd(1) free f ne inb by (auto simp: has_file_def)
  moreover have "\<exists>w'. my_close sim_kernel (int nf) (v', nf', ni) = (0, w')"
    using i32 by (simp add: sim_calls sim_close_def)
  ultimately show ?thesis by (auto simp: map_recovered_regions_def)
qed

end
