(* ===== verification/Instrument.thy ===== *)
theory Instrument
  imports Undo_Log Mem_Region
begin

text \<open>
  The instrumentation client, \<^verbatim>\<open>src/src/undo/instrument.cc\<close>: which stores are instrumented and how, the
  interception of \<^verbatim>\<open>mmap\<close> and \<^verbatim>\<open>munmap\<close>, the replacement of the initial address space, and the
  commit and cleanup entry points. DynamoRIO is a parameter: the accessors of instructions and
  operands, the answers of its register allocator, its map of the address space and the
  parameters and results of the application's system calls. Log output is not modelled. Stack
  writes are skipped, as \<^verbatim>\<open>undo_bg.h\<close> sets it; \<open>fast\<close> is \<open>OPTIMIZE_SKIP_RECORD\<close>, which is off
  there and needs \<open>OPTIMIZE_DEDUPLICATE\<close>.
\<close>

section \<open>State\<close>

record 'w instrument =
  last_sysnum :: int
  last_addr :: u64
  last_size :: u64
  ul :: undo_log
  mrm :: mem_region_manager
  region_table_modified :: bool
  should_commit :: bool
  world :: 'w

section \<open>Instrumenting stores\<close>

text \<open>
  The instruction list is the list of what was emitted before the application's instruction. The
  allocator answers from what has been emitted so far: a register or a failure.
\<close>

type_synonym regid = nat

abbreviation (input) DR_REG_NULL :: regid where "DR_REG_NULL \<equiv> 0"

datatype 'o emitted =
    ReserveReg regid
  | GetMemAddr 'o regid regid
  | CleanCall regid u32
  | UnreserveReg regid
  | ReserveAflags
  | Inline regid regid "fast_instr list"
  | SlowPathLabel
  | SkipLabel
  | UnreserveAflags

record ('i, 'o) dr_api =
  instr_is_app :: "'i \<Rightarrow> bool"
  instr_in_psm :: "'i \<Rightarrow> bool"
  instr_writes_memory :: "'i \<Rightarrow> bool"
  instr_dsts :: "'i \<Rightarrow> 'o list"
  opnd_is_memory_reference :: "'o \<Rightarrow> bool"
  opnd_is_base_disp :: "'o \<Rightarrow> bool"
  opnd_base_is_xsp :: "'o \<Rightarrow> bool"
  opnd_mem_size :: "'o \<Rightarrow> 'i \<Rightarrow> u32"
  drreg_reserve_register :: "'o emitted list \<Rightarrow> regid option"
  drutil_get_mem_addr_ok :: "'o emitted list \<Rightarrow> 'o \<Rightarrow> regid \<Rightarrow> regid \<Rightarrow> bool"
  drreg_unreserve_ok :: "'o emitted list \<Rightarrow> regid \<Rightarrow> bool"
  drreg_aflags_ok :: "'o emitted list \<Rightarrow> bool"
  drutil_expand_rep_string :: "'i list \<Rightarrow> 'i list option"

definition reserve_register :: "('i, 'o) dr_api \<Rightarrow> 'o emitted list \<Rightarrow> (regid \<times> 'o emitted list) result" where
  "reserve_register D bb =
     (case drreg_reserve_register D bb of
        None \<Rightarrow> Inl (Assertion ''drreg_reserve_register'')
      | Some reg \<Rightarrow> dr_assert (reg \<noteq> DR_REG_NULL) ''reg != DR_REG_NULL'' (Inr (reg, bb @ [ReserveReg reg])))"

definition unreserve_register :: "('i, 'o) dr_api \<Rightarrow> regid \<Rightarrow> 'o emitted list \<Rightarrow> 'o emitted list result" where
  "unreserve_register D reg bb =
     dr_assert (drreg_unreserve_ok D bb reg) ''drreg_unreserve_register'' (Inr (bb @ [UnreserveReg reg]))"

definition insert_instrumentation ::
  "('i, 'o) dr_api \<Rightarrow> 'i \<Rightarrow> 'o \<Rightarrow> 'o emitted list \<Rightarrow> 'o emitted list result" where
  "insert_instrumentation D instr opnd bb =
     bind_result (reserve_register D bb) (\<lambda>(reg_dst, bb1).
     bind_result
       (if drutil_get_mem_addr_ok D bb1 opnd reg_dst DR_REG_NULL
        then Inr (DR_REG_NULL, bb1 @ [GetMemAddr opnd reg_dst DR_REG_NULL])
        else bind_result (reserve_register D bb1) (\<lambda>(reg_tmp, bb2).
          dr_assert (drutil_get_mem_addr_ok D bb2 opnd reg_dst reg_tmp) ''ok''
            (Inr (reg_tmp, bb2 @ [GetMemAddr opnd reg_dst reg_tmp]))))
       (\<lambda>(reg_tmp, bb3).
         let size = opnd_mem_size D opnd instr in
         dr_assert (size > 0) ''size > 0''
           (bind_result (unreserve_register D reg_dst (bb3 @ [CleanCall reg_dst size])) (\<lambda>bb4.
             if reg_tmp \<noteq> DR_REG_NULL then unreserve_register D reg_tmp bb4 else Inr bb4))))"

text \<open>With the inline check in front of the call; here a null register is not checked for.\<close>

definition insert_instrumentation_fast ::
  "('i, 'o) dr_api \<Rightarrow> 'i \<Rightarrow> 'o \<Rightarrow> 'o emitted list \<Rightarrow> 'o emitted list result" where
  "insert_instrumentation_fast D instr opnd bb =
     (let size = opnd_mem_size D opnd instr in
      dr_assert (size > 0) ''size > 0''
        (case drreg_reserve_register D bb of
           None \<Rightarrow> Inl (Assertion ''failed to reserve registers'')
         | Some reg_dst \<Rightarrow>
             (case drreg_reserve_register D (bb @ [ReserveReg reg_dst]) of
                None \<Rightarrow> Inl (Assertion ''failed to reserve registers'')
              | Some reg_t1 \<Rightarrow>
                  let bb1 = bb @ [ReserveReg reg_dst, ReserveReg reg_t1] in
                  dr_assert (drutil_get_mem_addr_ok D bb1 opnd reg_dst reg_t1) ''failed to insert get mem addr''
                    (let bb2 = bb1 @ [GetMemAddr opnd reg_dst reg_t1] in
                     dr_assert (drreg_aflags_ok D bb2) ''failed to reserve aflags''
                       (bind_result (undo_insert_fast_path size) (\<lambda>code.
                          let bb3 = bb2 @ [ReserveAflags, Inline reg_dst reg_t1 code, SlowPathLabel, CleanCall reg_dst size, SkipLabel] in
                          dr_assert (drreg_aflags_ok D bb3) ''failed to unreserve aflags''
                            (dr_assert (drreg_unreserve_ok D (bb3 @ [UnreserveAflags]) reg_t1) ''failed to unreserve registers''
                              (dr_assert (drreg_unreserve_ok D (bb3 @ [UnreserveAflags, UnreserveReg reg_t1]) reg_dst)
                                ''failed to unreserve registers''
                                (Inr (bb3 @ [UnreserveAflags, UnreserveReg reg_t1, UnreserveReg reg_dst]))))))))))"

text \<open>The loop over the destinations.\<close>

fun instrument_dsts :: "bool \<Rightarrow> ('i, 'o) dr_api \<Rightarrow> 'i \<Rightarrow> 'o list \<Rightarrow> 'o emitted list \<Rightarrow> 'o emitted list result" where
  "instrument_dsts fast D instr [] bb = Inr bb"
| "instrument_dsts fast D instr (opnd # os) bb =
     (if opnd_is_memory_reference D opnd
      then if opnd_is_base_disp D opnd \<and> opnd_base_is_xsp D opnd then instrument_dsts fast D instr os bb
           else bind_result ((if fast then insert_instrumentation_fast else insert_instrumentation) D instr opnd bb)
                  (instrument_dsts fast D instr os)
      else instrument_dsts fast D instr os bb)"

definition event_app_instruction :: "bool \<Rightarrow> ('i, 'o) dr_api \<Rightarrow> 'i \<Rightarrow> 'o emitted list \<Rightarrow> 'o emitted list result" where
  "event_app_instruction fast D instr bb =
     (if \<not> instr_is_app D instr then Inr bb
      else if instr_in_psm D instr then Inr bb
      else if \<not> instr_writes_memory D instr then Inr bb
      else instrument_dsts fast D instr (instr_dsts D instr) bb)"

text \<open>Before that, string loops are expanded.\<close>

definition event_bb_app2app :: "('i, 'o) dr_api \<Rightarrow> 'i list \<Rightarrow> 'i list result" where
  "event_bb_app2app D bb =
     (case drutil_expand_rep_string D bb of None \<Rightarrow> Inl (Assertion ''false'') | Some bb' \<Rightarrow> Inr bb')"

section \<open>System calls\<close>

definition event_filter_syscall :: "int \<Rightarrow> bool result" where
  "event_filter_syscall sysnum =
     (if sysnum = SYS_mmap \<or> sysnum = SYS_munmap then Inr True
      else dr_assert (sysnum \<noteq> SYS_brk) ''brk syscall not supported'' (Inr False))"

text \<open>
  \<open>p i\<close> is the \<open>i\<close>-th parameter of the call. The answer is whether the call goes ahead; if not, the
  second component is the result the application sees.
\<close>

definition event_pre_syscall ::
  "'w env \<Rightarrow> int \<Rightarrow> (nat \<Rightarrow> u64) \<Rightarrow> 'w instrument \<Rightarrow> (bool \<times> int option \<times> 'w instrument) result option" where
  "event_pre_syscall E sysnum p s =
     (if sysnum \<noteq> SYS_mmap \<and> sysnum \<noteq> SYS_munmap then Some (Inr (True, None, s))
      else let addr = p 0; size = p 1 in
        if sysnum = SYS_munmap
        then (case undo_log_remove_fresh_region addr (ucast size) (ul s) of
                Inl e \<Rightarrow> Some (Inl e)
              | Inr ul' \<Rightarrow>
                  bind_ro (remove_region E addr size (mrm s, world s)) (\<lambda>(res, m', w').
                    let s1 = s\<lparr>ul := ul', mrm := m', world := w'\<rparr> in
                    if res = NOT_MANAGED then Some (Inr (True, None, s1))
                    else Some (Inr (False, Some (result_code res), s1\<lparr>region_table_modified := True\<rparr>))))
        else Some
          (dr_assert (last_sysnum s = - 1) ''last_syscall.sysnum == -1''
            (dr_assert (addr = 0) ''not supported: mmap with address hint''
              (dr_assert (and (to_int (p 2)) PROT_READ \<noteq> 0) ''not supported: mmap unreadable pages''
                (dr_assert (to_int (p 3) = or MAP_PRIVATE MAP_ANONYMOUS) ''not supported: mmap flags''
                  (Inr (True, None, s\<lparr>last_sysnum := sysnum, last_addr := addr, last_size := size\<rparr>)))))))"

definition event_post_syscall ::
  "'w env \<Rightarrow> int \<Rightarrow> u64 \<Rightarrow> 'w instrument \<Rightarrow> 'w instrument result option" where
  "event_post_syscall E sysnum mmap_ret s =
     (if sysnum \<noteq> SYS_mmap \<and> sysnum \<noteq> SYS_munmap then Some (Inr s)
      else if last_sysnum s = SYS_mmap \<and> mmap_ret \<noteq> MAP_FAILED
      then bind_ro (replace_region E mmap_ret (last_size s) RW (mrm s, world s)) (\<lambda>(res, m', w').
        let ul' = undo_log_record_fresh_region mmap_ret (ucast (last_size s)) (ul s) in
        Some (dr_assert (res = SUCCESS) ''res == SUCCESS''
          (Inr (s\<lparr>ul := ul', mrm := m', world := w', region_table_modified := True, last_sysnum := - 1\<rparr>))))
      else Some (Inr (s\<lparr>last_sysnum := - 1\<rparr>)))"

section \<open>The initial address space\<close>

text \<open>The protection bits of \<^verbatim>\<open>dr_tools.h\<close>, as a set of flags.\<close>

datatype dr_memprot = DR_MEMPROT_READ | DR_MEMPROT_WRITE | DR_MEMPROT_EXEC | DR_MEMPROT_PRETEND_WRITE
  | DR_MEMPROT_VDSO | DR_MEMPROT_STACK | DR_MEMPROT_SHARED

record dr_mem_info =
  mi_base :: u64
  mi_size :: u64
  mi_free :: bool
  mi_prot :: "dr_memprot list"

abbreviation has_prot :: "dr_mem_info \<Rightarrow> dr_memprot \<Rightarrow> bool" where
  "has_prot info f \<equiv> f \<in> set (mi_prot info)"

record dr_memory =
  dr_query_memory :: "u64 \<Rightarrow> dr_mem_info option"
  dr_is_internal :: "u64 \<Rightarrow> bool"
  dr_is_in_client :: "u64 \<Rightarrow> bool"

definition should_replace :: "dr_memory \<Rightarrow> dr_mem_info \<Rightarrow> bool result" where
  "should_replace M info =
     (if dr_is_internal M (mi_base info) then Inr False
      else if dr_is_in_client M (mi_base info) then Inr False
      else if mi_free info then Inr False
      else if \<not> has_prot info DR_MEMPROT_WRITE then Inr False
      else if has_prot info DR_MEMPROT_VDSO then Inr False
      else if has_prot info DR_MEMPROT_STACK then Inr False
      else if has_prot info DR_MEMPROT_SHARED then Inr False
      else dr_assert (\<not> has_prot info DR_MEMPROT_PRETEND_WRITE) ''!(info->prot & DR_MEMPROT_PRETEND_WRITE)''
        (dr_assert (has_prot info DR_MEMPROT_READ) ''info->prot & DR_MEMPROT_READ'' (Inr True)))"

abbreviation (input) POINTER_MAX :: u64 where "POINTER_MAX \<equiv> - 1"

text \<open>The first loop of \<open>init_address_space\<close>: collect what to replace.\<close>

partial_function (option) collect_regions ::
  "dr_memory \<Rightarrow> u64 \<Rightarrow> dr_mem_info list \<Rightarrow> dr_mem_info list result option" where
  "collect_regions M pc to_replace =
     (if pc < POINTER_MAX
      then case dr_query_memory M pc of
             None \<Rightarrow> Some (Inr to_replace)
           | Some info \<Rightarrow>
               (case should_replace M info of
                  Inl e \<Rightarrow> Some (Inl e)
                | Inr yes \<Rightarrow> collect_regions M (mi_base info + mi_size info)
                              (if yes then to_replace @ [info] else to_replace))
      else Some (Inr to_replace))"

definition replace_prot :: "dr_memprot list \<Rightarrow> int" where
  "replace_prot dr_prot =
     (let p0 = 0; p1 = (if DR_MEMPROT_READ \<in> set dr_prot then or p0 PROT_READ else p0);
          p2 = (if DR_MEMPROT_WRITE \<in> set dr_prot then or p1 PROT_WRITE else p1)
      in if DR_MEMPROT_EXEC \<in> set dr_prot then or p2 PROT_EXEC else p2)"

fun replace_all ::
  "'w env \<Rightarrow> dr_mem_info list \<Rightarrow> mem_region_manager \<times> 'w \<Rightarrow> (mem_region_manager \<times> 'w) result option" where
  "replace_all E [] s = Some (Inr s)"
| "replace_all E (info # xs) s =
     bind_ro (replace_region E (mi_base info) (mi_size info) (replace_prot (mi_prot info)) s) (\<lambda>(res, s').
       if res = SUCCESS then replace_all E xs s' else Some (Inl (Assertion ''res == SUCCESS'')))"

definition init_address_space ::
  "'w env \<Rightarrow> dr_memory \<Rightarrow> mem_region_manager \<times> 'w \<Rightarrow> (mem_region_manager \<times> 'w) result option" where
  "init_address_space E M s =
     bind_ro (collect_regions M 0 []) (\<lambda>to_replace.
     bind_ro (replace_all E to_replace s) (\<lambda>(m, w).
       Some (bind_result (persist_new_region_table E (m, w)) (\<lambda>(_, w1).
         Inr (m, snd (commit_new_region_table E (m, w1)))))))"

section \<open>Commit and cleanup\<close>

definition instrument_commit :: "'w env \<Rightarrow> int \<Rightarrow> 'w instrument \<Rightarrow> 'w instrument result option" where
  "instrument_commit E tail s =
     bind_ro (if region_table_modified s
              then Some (bind_result (persist_new_region_table E (mrm s, world s)) (\<lambda>(_, w'). Inr (s\<lparr>world := w'\<rparr>)))
              else Some (Inr s))
       (\<lambda>s1. bind_ro (undo_log_commit tail (ul s1)) (\<lambda>ul'. Some (Inr (s1\<lparr>ul := ul'\<rparr>))))"

definition instrument_cleanup :: "bool \<Rightarrow> 'w env \<Rightarrow> 'w instrument \<Rightarrow> 'w instrument result" where
  "instrument_cleanup dedup E s =
     (let s1 = (if region_table_modified s
                then s\<lparr>world := snd (commit_new_region_table E (mrm s, world s))\<rparr> else s)
      in bind_result (undo_log_post_commit_cleanup dedup (ul s1))
           (\<lambda>ul'. Inr (s1\<lparr>ul := ul', region_table_modified := False\<rparr>)))"

end
