(* ===== verification/Instrument_Props.thy ===== *)
theory Instrument_Props
  imports Instrument Region_Inv
begin

text \<open>
  Properties of the instrumentation client: the regions it finds in the initial address space and
  the invariant of the intercepted system calls.
\<close>

section \<open>The initial address space\<close>

text \<open>
  A map of the address space from \<open>pc\<close> on: consecutive areas up to \<open>top\<close>, and a query anywhere in
  an area returns the area.
\<close>

fun memory_map :: "dr_memory \<Rightarrow> u64 \<Rightarrow> dr_mem_info list \<Rightarrow> bool" where
  "memory_map M pc [] \<longleftrightarrow> pc = POINTER_MAX \<or> dr_query_memory M pc = None"
| "memory_map M pc (i # infos) \<longleftrightarrow> pc < POINTER_MAX \<and> dr_query_memory M pc = Some i \<and> mi_base i = pc \<and> mi_size i > 0 \<and>
     unat pc + unat (mi_size i) < 2 ^ 64 \<and> memory_map M (pc + mi_size i) infos"

definition replaceable :: "dr_memory \<Rightarrow> dr_mem_info \<Rightarrow> bool" where
  "replaceable M i \<longleftrightarrow> \<not> dr_is_internal M (mi_base i) \<and> \<not> dr_is_in_client M (mi_base i) \<and> \<not> mi_free i \<and>
     has_prot i DR_MEMPROT_WRITE \<and> \<not> has_prot i DR_MEMPROT_VDSO \<and> \<not> has_prot i DR_MEMPROT_STACK \<and>
     \<not> has_prot i DR_MEMPROT_SHARED"

lemma should_replace_iff:
  "should_replace M i = (if \<not> replaceable M i then Inr False
     else if has_prot i DR_MEMPROT_PRETEND_WRITE then Inl (Assertion ''!(info->prot & DR_MEMPROT_PRETEND_WRITE)'')
     else if has_prot i DR_MEMPROT_READ then Inr True else Inl (Assertion ''info->prot & DR_MEMPROT_READ''))"
  by (auto simp: should_replace_def replaceable_def)

text \<open>
  C34. The scan of the address space ends and finds what it should. On a well-formed memory map whose
  replaceable areas are readable and not pretend-writable, the first loop of
  \<open>init_address_space\<close> returns exactly the writable, private areas that belong neither to the stack
  nor to the VDSO nor to DynamoRIO or the client, in address order.
\<close>

theorem collect_regions_correct:
  assumes "memory_map M pc infos"
    and "\<forall>i \<in> set infos. replaceable M i \<longrightarrow> has_prot i DR_MEMPROT_READ \<and> \<not> has_prot i DR_MEMPROT_PRETEND_WRITE"
  shows "collect_regions M pc acc = Some (Inr (acc @ filter (replaceable M) infos))"
  using assms
proof (induction infos arbitrary: pc acc)
  case Nil
  then show ?case by (subst collect_regions.simps) (auto split: option.splits)
next
  case (Cons i infos)
  have s: "should_replace M i = Inr (replaceable M i)" using Cons.prems(2) by (simp add: should_replace_iff)
  have "collect_regions M pc acc =
      collect_regions M (pc + mi_size i) (if replaceable M i then acc @ [i] else acc)"
    using Cons.prems(1) s by (subst collect_regions.simps) auto
  also have "\<dots> = Some (Inr ((if replaceable M i then acc @ [i] else acc) @ filter (replaceable M) infos))"
    using Cons.prems by (intro Cons.IH) auto
  finally show ?case by simp
qed

abbreviation demo_info :: "u64 \<Rightarrow> u64 \<Rightarrow> bool \<Rightarrow> dr_memprot list \<Rightarrow> dr_mem_info" where
  "demo_info b n fr p \<equiv> \<lparr>mi_base = b, mi_size = n, mi_free = fr, mi_prot = p\<rparr>"

abbreviation demo_memory :: dr_memory where
  "demo_memory \<equiv> \<lparr>dr_query_memory = (\<lambda>pc. if pc < 4096 then Some (demo_info 0 4096 True [])
       else if pc < 12288 then Some (demo_info 4096 8192 False [DR_MEMPROT_READ, DR_MEMPROT_WRITE]) else None),
     dr_is_internal = (\<lambda>_. False), dr_is_in_client = (\<lambda>_. False)\<rparr>"

theorem collect_regions_correct_witness:
  "memory_map demo_memory 0 [demo_info 0 4096 True [], demo_info 4096 8192 False [DR_MEMPROT_READ, DR_MEMPROT_WRITE]] \<and>
   collect_regions demo_memory 0 [] = Some (Inr [demo_info 4096 8192 False [DR_MEMPROT_READ, DR_MEMPROT_WRITE]])"
proof -
  let ?is = "[demo_info 0 4096 True [], demo_info 4096 8192 False [DR_MEMPROT_READ, DR_MEMPROT_WRITE]]"
  have m: "memory_map demo_memory 0 ?is" by (simp add: word_less_nat_alt unsigned_minus_1_eq_mask mask_eq_exp_minus_1)
  with collect_regions_correct [OF m, of "[]"] show ?thesis by (simp add: replaceable_def)
qed

section \<open>Intercepted system calls\<close>

text \<open>
  One system call of the application. The kernel runs a call that goes ahead and may change the world;
  a successful \<^verbatim>\<open>mmap\<close> returns an area inside the address space, and \<^verbatim>\<open>munmap\<close> is called on one.
\<close>

definition area :: "u64 \<Rightarrow> u64 \<Rightarrow> bool" where
  "area a n \<longleftrightarrow> 0 < unat n \<and> unat a + unat n < 18446744073709551616"

inductive sys_step :: "'w env \<Rightarrow> 'w instrument \<Rightarrow> 'w instrument \<Rightarrow> bool" for E where
  unfiltered: "event_filter_syscall n = Inr False \<Longrightarrow> sys_step E s (s\<lparr>world := w\<rparr>)"
| skipped: "event_filter_syscall n = Inr True \<Longrightarrow> n = SYS_munmap \<longrightarrow> area (p 0) (p 1) \<Longrightarrow>
    event_pre_syscall E n p s = Some (Inr (False, r, s')) \<Longrightarrow> sys_step E s s'"
| performed: "event_filter_syscall n = Inr True \<Longrightarrow> n = SYS_munmap \<longrightarrow> area (p 0) (p 1) \<Longrightarrow>
    event_pre_syscall E n p s = Some (Inr (True, r, s1)) \<Longrightarrow>
    n = SYS_mmap \<longrightarrow> ret \<noteq> MAP_FAILED \<longrightarrow> area ret (p 1) \<Longrightarrow>
    event_post_syscall E n ret (s1\<lparr>world := w\<rparr>) = Some (Inr s') \<Longrightarrow> sys_step E s s'"

definition sys_inv :: "region list \<Rightarrow> 'w instrument \<Rightarrow> bool" where
  "sys_inv T s \<longleftrightarrow> last_sysnum s = - 1 \<and> mgr_inv (mrm s) \<and> (region_table_modified s \<or> regions (mrm s) = T)"

lemma pre_mmap:
  assumes "event_pre_syscall E SYS_mmap p s = Some (Inr (go, r, s'))"
  shows "go \<and> s' = s\<lparr>last_sysnum := SYS_mmap, last_addr := 0, last_size := p 1\<rparr>"
  using assms by (auto simp: event_pre_syscall_def Let_def)

lemma remove_region_inv:
  assumes "mgr_inv m" and "area base sz" and "remove_region E base sz (m, w) = Some (Inr (res, m', w'))"
  shows "mgr_inv m'" and "res = NOT_MANAGED \<Longrightarrow> m' = m"
  using remove_region_step [OF assms(1) _ _ assms(3)] assms(2) by (auto simp: area_def)

lemma pre_munmap:
  assumes "event_pre_syscall E SYS_munmap p s = Some (Inr (go, r, s'))" and "sys_inv T s" and "area (p 0) (p 1)"
  shows "sys_inv T s'"
proof -
  obtain ul' res m' w' where rr: "remove_region E (p 0) (p 1) (mrm s, world s) = Some (Inr (res, m', w'))" and
    s': "s' = (if res = NOT_MANAGED then s\<lparr>ul := ul', mrm := m', world := w'\<rparr>
               else s\<lparr>ul := ul', mrm := m', world := w', region_table_modified := True\<rparr>)"
    using assms(1) by (auto simp: event_pre_syscall_def Let_def bind_ro_Inr split: sum.splits if_splits)
  have "mgr_inv (mrm s)" using assms(2) by (simp add: sys_inv_def)
  from remove_region_inv [OF this assms(3) rr] assms(2) show ?thesis by (auto simp: s' sys_inv_def)
qed

lemma post_inv:
  assumes "event_post_syscall E n ret s = Some (Inr s')" and "n = SYS_mmap \<or> n = SYS_munmap"
    and "mgr_inv (mrm s)" and "region_table_modified s \<or> regions (mrm s) = T"
    and "last_sysnum s = SYS_mmap \<longrightarrow> ret \<noteq> MAP_FAILED \<longrightarrow> area ret (last_size s)"
  shows "sys_inv T s'"
proof (cases "last_sysnum s = SYS_mmap \<and> ret \<noteq> MAP_FAILED")
  case False
  then show ?thesis using assms by (auto simp: event_post_syscall_def sys_inv_def split: if_splits)
next
  case True
  then obtain m' w' where r: "replace_region E ret (last_size s) RW (mrm s, world s) = Some (Inr (SUCCESS, m', w'))"
      and s': "mrm s' = m'" "region_table_modified s'" "last_sysnum s' = - 1"
    using assms(1,2) by (auto simp: event_post_syscall_def bind_ro_Inr)
  have "area ret (last_size s)" using True assms(5) by simp
  then show ?thesis using replace_region_step(1) [OF r assms(3)] s' by (simp add: sys_inv_def area_def)
qed

lemma filter_true: "event_filter_syscall n = Inr True \<Longrightarrow> n = SYS_mmap \<or> n = SYS_munmap"
  by (auto simp: event_filter_syscall_def split: if_splits)

lemma sys_step_inv:
  assumes "sys_step E s s'" and "sys_inv T s"
  shows "sys_inv T s'"
  using assms
proof cases
  case (unfiltered n w)
  then show ?thesis using assms(2) by (simp add: sys_inv_def)
next
  case (skipped n p r)
  then have "n = SYS_munmap" using filter_true pre_mmap by blast
  then show ?thesis using pre_munmap [of E p s False r s' T] skipped assms(2) by simp
next
  case (performed n p r s1 ret w)
  consider "n = SYS_mmap" | "n = SYS_munmap" using filter_true [OF performed(1)] by auto
  then show ?thesis
  proof cases
    case 1
    then have "s1 = s\<lparr>last_sysnum := SYS_mmap, last_addr := 0, last_size := p 1\<rparr>" using pre_mmap performed(3) by blast
    then show ?thesis using post_inv [OF performed(5)] performed(4) 1 assms(2) by (auto simp: sys_inv_def)
  next
    case 2
    then have "sys_inv T s1" using pre_munmap [of E p s True r s1 T] performed(2,3) assms(2) by auto
    then show ?thesis using post_inv [OF performed(5)] 2 by (auto simp: sys_inv_def)
  qed
qed

text \<open>
  C32. The interception of system calls is safe over any run. Whatever system calls the application makes
  between two commits, in any number and order: no call is pending between them, so the assertion on
  \<open>last_syscall\<close> cannot fail; the region manager keeps its invariant; and as long as
  \<open>region_table_modified\<close> is false the regions are still those of the last committed
  table, so \<open>instrument_commit\<close> never forgets to persist a changed table.
\<close>

theorem syscall_interception_invariant:
  assumes "(sys_step E)\<^sup>*\<^sup>* s s'" and "sys_inv T s"
  shows "sys_inv T s'"
  using assms by (induction rule: rtranclp_induct) (auto intro: sys_step_inv)

abbreviation demo_instr :: "unit instrument" where
  "demo_instr \<equiv> \<lparr>last_sysnum = - 1, last_addr = 0, last_size = 0,
     ul = \<lparr>ul_log = 65536, ul_len = 0, logged_addrs_hash = (\<lambda>_. 0), fresh_regions = [], ul_mem = boot (\<lambda>_. 0)\<rparr>,
     mrm = \<lparr>pmem_dirfd = 3, regions = [], rs = []\<rparr>, region_table_modified = False, should_commit = False, world = ()\<rparr>"

theorem syscall_interception_invariant_witness:
  "\<exists>s'. (sys_step (yes_env 0))\<^sup>*\<^sup>* demo_instr s' \<and> sys_inv [] demo_instr \<and> sys_inv [] s' \<and> length (regions (mrm s')) = 1"
proof -
  let ?E = "yes_env 0" and ?p = "(\<lambda>_. 0)(1 := 4096, 2 := 3, 3 := 34) :: nat \<Rightarrow> u64"
  let ?s1 = "demo_instr\<lparr>last_sysnum := SYS_mmap, last_addr := 0, last_size := 4096\<rparr>"
  have pre: "event_pre_syscall ?E SYS_mmap ?p demo_instr = Some (Inr (True, None, ?s1))"
    by (simp add: event_pre_syscall_def Let_def to_int_def)
  have rr: "replace_region ?E 65536 4096 RW (mrm ?s1, world ?s1) =
      Some (Inr (SUCCESS, add_region \<lparr>reg_base = 65536, reg_size = 4096, reg_file_id = 7\<rparr> (mrm ?s1), ()))"
    unfolding instrument.select_convs
    using yes_replace [of 4096 "mrm ?s1" 65536 0 RW "()"] by (simp add: int_range_def find_overlap_def)
  obtain s' where post: "event_post_syscall ?E SYS_mmap 65536 (?s1\<lparr>world := ()\<rparr>) = Some (Inr s')" "length (regions (mrm s')) = 1"
    using rr by (simp add: event_post_syscall_def)
  have "sys_step ?E demo_instr s'"
    by (rule sys_step.performed [OF _ _ pre _ post(1)]) (simp_all add: event_filter_syscall_def area_def)
  then have run: "(sys_step ?E)\<^sup>*\<^sup>* demo_instr s'" by blast
  have "sys_inv [] demo_instr" by (simp add: sys_inv_def mgr_inv_def managed_def ranges_wf_def separated_def)
  with syscall_interception_invariant [OF run this] run post(2) show ?thesis by blast
qed

text \<open>
  A failing \<^verbatim>\<open>mmap\<close> is not recognised. The kernel reports errors as \<open>- errno\<close>, but the event compares
  with \<open>MAP_FAILED\<close>, that is -1: when the application's \<^verbatim>\<open>mmap\<close> fails with another error,
  \<open>event_post_syscall\<close> tries to move a region at that address into a file, which cannot
  be written from there, and the process aborts instead of seeing the error.
\<close>

theorem mmap_error_aborts:
  assumes "last_sysnum s = SYS_mmap" and "1 < e" and "e \<le> 4095" and "last_size s > 0"
    and "rnd E (world s) = (fid, w0)"
    and "find_overlap (mrm s) \<lparr>reg_base = - word_of_int e, reg_size = last_size s, reg_file_id = fid\<rparr> = - 1"
    and "my_openat (kern E) (pmem_dirfd (mrm s)) (make_file_name \<lparr>reg_base = - word_of_int e, reg_size = last_size s, reg_file_id = fid\<rparr>)
      (or O_CREAT (or O_RDWR O_EXCL)) 438 w0 = (fd, w1)" and "0 \<le> fd"
    and "my_write (kern E) fd (Num (- word_of_int e)) (last_size s) w1 = (- 14, w2)"
  shows "event_post_syscall E SYS_mmap (- word_of_int e) s = Some (Inl (Assertion ''res == SUCCESS''))"
proof -
  have ne: "(- word_of_int e :: u64) \<noteq> MAP_FAILED"
  proof
    assume "(- word_of_int e :: u64) = MAP_FAILED"
    then have "uint (word_of_int e :: u64) = uint (1 :: u64)" by simp
    then show False using assms(2,3) by (simp add: uint_word_of_int)
  qed
  have "persist_write E fd (- word_of_int e) (last_size s) w1 = Some (False, w2)"
    using assms(4,9) by (subst persist_write.simps) (simp add: to_int_def)
  then have p: "persist_region E (- word_of_int e) (last_size s)
      (make_file_name \<lparr>reg_base = - word_of_int e, reg_size = last_size s, reg_file_id = fid\<rparr>) (mrm s) w0 = Some (persist_err E fd w2)"
    using assms(7,8) by (simp add: persist_region_def)
  have "replace_region E (- word_of_int e) (last_size s) RW (mrm s, world s) =
      Some (Inr (ERROR, mrm s, snd (persist_err E fd w2)))"
    by (simp add: replace_region_def assms(5,6) p persist_err_def)
  then show ?thesis using assms(1) ne by (simp add: event_post_syscall_def)
qed

definition efault_kernel :: "unit kernel" where
  "efault_kernel g w = (if g RAX = Some (num SYS_write) then ((- 14, []), w) else ((4, []), w))"

theorem mmap_error_aborts_witness:
  "event_post_syscall ((yes_env 0)\<lparr>kern := efault_kernel\<rparr>) SYS_mmap (- word_of_int 12)
     (demo_instr\<lparr>last_sysnum := SYS_mmap, last_size := 4096\<rparr>) = Some (Inl (Assertion ''res == SUCCESS''))"
proof -
  let ?s = "demo_instr\<lparr>last_sysnum := SYS_mmap, last_size := 4096\<rparr>"
  let ?E = "(yes_env 0)\<lparr>kern := efault_kernel\<rparr>"
  have k: "my_openat (kern ?E) (pmem_dirfd (mrm ?s)) f fl md () = (4, ())"
      "my_write (kern ?E) 4 b n () = (- 14, ())" for f fl md b n
    by (simp_all add: my_openat_def my_write_def syscall_def syscall_regs_def efault_kernel_def to_int_def)
  show ?thesis
    by (rule mmap_error_aborts [OF _ _ _ _ _ _ k(1) _ k(2), where fid = 7]) (simp_all add: find_overlap_def)
qed

end
