(* ===== verification/Emitted_Code.thy ===== *)
theory Emitted_Code
  imports Instrument Undo_Inv
begin

text \<open>
  What the code that \<open>event_app_instruction\<close> emits does when it runs, with and without the inline check
  of \<open>OPTIMIZE_SKIP_RECORD\<close>: every store of the application is recorded, or its block has been
  logged already.
\<close>

section \<open>Running emitted code\<close>

text \<open>
  \<open>A opnd\<close> is the address an operand denotes, \<open>R\<close> the register file, \<open>junk\<close> what a
  scratch register is left with. A clean call changes the client's state \<open>'s\<close>, of which \<open>tab\<close> is
  the hash table that the inline code reads.
\<close>

fun behind_slow :: "'o emitted list \<Rightarrow> 'o emitted list" where
  "behind_slow [] = []"
| "behind_slow (SlowPathLabel # es) = es"
| "behind_slow (_ # es) = behind_slow es"

fun behind_skip :: "'o emitted list \<Rightarrow> 'o emitted list" where
  "behind_skip [] = []"
| "behind_skip (SkipLabel # es) = es"
| "behind_skip (_ # es) = behind_skip es"

fun jump :: "fast_target \<Rightarrow> 'o emitted list \<Rightarrow> 'o emitted list" where
  "jump SlowPath es = behind_slow es"
| "jump Skip es = behind_skip es"

lemma behind_slow_length: "length (behind_slow es) \<le> length es"
  by (induction es rule: behind_slow.induct) simp_all

lemma behind_skip_length: "length (behind_skip es) \<le> length es"
  by (induction es rule: behind_skip.induct) simp_all

lemma jump_length [termination_simp]: "length (jump t es) < Suc (length es)"
  using behind_slow_length [of es] behind_skip_length [of es] by (cases t) simp_all

fun run_emitted ::
  "('o \<Rightarrow> u64) \<Rightarrow> u64 \<Rightarrow> (u64 \<Rightarrow> u32 \<Rightarrow> 's \<Rightarrow> 's option) \<Rightarrow> ('s \<Rightarrow> addr_table) \<Rightarrow> (regid \<Rightarrow> u64) \<Rightarrow> 'o emitted list \<Rightarrow> 's \<Rightarrow> 's option" where
  "run_emitted A junk call tab R [] s = Some s"
| "run_emitted A junk call tab R (GetMemAddr opnd d r # es) s = run_emitted A junk call tab (R(r := junk, d := A opnd)) es s"
| "run_emitted A junk call tab R (CleanCall d sz # es) s =
     (case call (R d) sz s of None \<Rightarrow> None | Some s' \<Rightarrow> run_emitted A junk call tab R es s')"
| "run_emitted A junk call tab R (Inline d r code # es) s =
     run_emitted A junk call tab (R(r := junk))
       (jump (fast_run (tab s) (R d) (R r) 0 code) es) s"
| "run_emitted A junk call tab R (e # es) s = run_emitted A junk call tab R es s"

section \<open>The shape of the code\<close>

definition instrumented :: "('i, 'o) dr_api \<Rightarrow> 'i \<Rightarrow> 'o list" where
  "instrumented D i =
     (if instr_is_app D i \<and> \<not> instr_in_psm D i \<and> instr_writes_memory D i
      then filter (\<lambda>opnd. opnd_is_memory_reference D opnd \<and> \<not> (opnd_is_base_disp D opnd \<and> opnd_base_is_xsp D opnd))
             (instr_dsts D i)
      else [])"

definition records_plain :: "u32 \<Rightarrow> 'o \<Rightarrow> 'o emitted list \<Rightarrow> bool" where
  "records_plain sz opnd seg \<longleftrightarrow> sz > 0 \<and> (\<exists>d t. seg = [ReserveReg d, GetMemAddr opnd d 0, CleanCall d sz, UnreserveReg d] \<or>
      seg = [ReserveReg d, ReserveReg t, GetMemAddr opnd d t, CleanCall d sz, UnreserveReg d, UnreserveReg t])"

definition records_fast :: "u32 \<Rightarrow> 'o \<Rightarrow> 'o emitted list \<Rightarrow> bool" where
  "records_fast sz opnd seg \<longleftrightarrow> sz > 0 \<and> (\<exists>d t code. d \<noteq> t \<and> undo_insert_fast_path sz = Inr code \<and>
      seg = [ReserveReg d, ReserveReg t, GetMemAddr opnd d t, ReserveAflags, Inline d t code, SlowPathLabel, CleanCall d sz, SkipLabel,
        UnreserveAflags, UnreserveReg t, UnreserveReg d])"

text \<open>The allocator does not hand out a register twice.\<close>

definition allocates_apart :: "('i, 'o) dr_api \<Rightarrow> bool" where
  "allocates_apart D \<longleftrightarrow> (\<forall>bb d r. drreg_reserve_register D (bb @ [ReserveReg d]) = Some r \<longrightarrow> r \<noteq> d)"

lemma reserve_register_Inr:
  "reserve_register D bb = Inr (reg, bb') \<longleftrightarrow>
     drreg_reserve_register D bb = Some reg \<and> reg \<noteq> 0 \<and> bb' = bb @ [ReserveReg reg]"
  by (auto simp: reserve_register_def split: option.splits)

lemma insert_plain:
  assumes "insert_instrumentation D i opnd bb = Inr bb'"
  shows "\<exists>seg. bb' = bb @ seg \<and> records_plain (opnd_mem_size D opnd i) opnd seg"
  using assms
  by (auto simp: insert_instrumentation_def unreserve_register_def bind_result_Inr reserve_register_Inr records_plain_def Let_def
      split: if_splits)

lemma insert_fast:
  assumes "insert_instrumentation_fast D i opnd bb = Inr bb'" and "allocates_apart D"
  shows "\<exists>seg. bb' = bb @ seg \<and> records_fast (opnd_mem_size D opnd i) opnd seg"
  using assms
  by (auto simp: insert_instrumentation_fast_def bind_result_Inr records_fast_def Let_def allocates_apart_def split: option.splits) blast

definition records :: "bool \<Rightarrow> u32 \<Rightarrow> 'o \<Rightarrow> 'o emitted list \<Rightarrow> bool" where
  "records fast = (if fast then records_fast else records_plain)"

lemma instrument_dsts_records:
  assumes "instrument_dsts fast D i os bb = Inr bb'" and "allocates_apart D"
  shows "\<exists>segs. bb' = bb @ concat segs \<and>
    list_all2 (\<lambda>opnd. records fast (opnd_mem_size D opnd i) opnd)
      (filter (\<lambda>opnd. opnd_is_memory_reference D opnd \<and> \<not> (opnd_is_base_disp D opnd \<and> opnd_base_is_xsp D opnd)) os) segs"
  using assms
proof (induction os arbitrary: bb)
  case Nil
  then show ?case by (auto intro: exI [of _ "[]"])
next
  case (Cons opnd os)
  show ?case
  proof (cases "opnd_is_memory_reference D opnd \<and> \<not> (opnd_is_base_disp D opnd \<and> opnd_base_is_xsp D opnd)")
    case False
    then have "instrument_dsts fast D i os bb = Inr bb'" using Cons.prems by (auto split: if_splits)
    from Cons.IH [OF this Cons.prems(2)] False show ?thesis by auto
  next
    case True
    then obtain bb1 where bb1: "(if fast then insert_instrumentation_fast else insert_instrumentation) D i opnd bb = Inr bb1"
      "instrument_dsts fast D i os bb1 = Inr bb'"
      using Cons.prems by (auto simp: bind_result_Inr)
    obtain seg where seg: "bb1 = bb @ seg" "records fast (opnd_mem_size D opnd i) opnd seg"
      using bb1(1) insert_plain [of D i opnd bb bb1] insert_fast [of D i opnd bb bb1, OF _ Cons.prems(2)]
      by (cases fast) (auto simp: records_def)
    obtain segs where "bb' = bb1 @ concat segs" "list_all2 (\<lambda>opnd. records fast (opnd_mem_size D opnd i) opnd)
      (filter (\<lambda>opnd. opnd_is_memory_reference D opnd \<and> \<not> (opnd_is_base_disp D opnd \<and> opnd_base_is_xsp D opnd)) os) segs"
      using Cons.IH [OF bb1(2) Cons.prems(2)] by blast
    then show ?thesis using seg True by (intro exI [of _ "seg # segs"]) simp
  qed
qed

lemma event_records:
  assumes "event_app_instruction fast D i bb = Inr bb'" and "allocates_apart D"
  shows "\<exists>segs. bb' = bb @ concat segs \<and>
    list_all2 (\<lambda>opnd. records fast (opnd_mem_size D opnd i) opnd) (instrumented D i) segs"
proof (cases "instr_is_app D i \<and> \<not> instr_in_psm D i \<and> instr_writes_memory D i")
  case True
  then have "instrument_dsts fast D i (instr_dsts D i) bb = Inr bb'" using assms by (simp add: event_app_instruction_def)
  from instrument_dsts_records [OF this assms(2)] True show ?thesis by (simp add: instrumented_def)
next
  case False
  then show ?thesis using assms(1)
    by (auto simp: event_app_instruction_def instrumented_def split: if_splits intro!: exI [of _ "[]"])
qed

section \<open>The client that is called\<close>

text \<open>A store inside one block that the table has.\<close>

definition logged_store :: "addr_table \<Rightarrow> u64 \<Rightarrow> u32 \<Rightarrow> bool" where
  "logged_store t a sz \<longleftrightarrow> (\<forall>i < unat sz. undo_block (a + of_nat i) = undo_block a) \<and>
     undo_log_insert_logged_addr (undo_block a) t = (False, t)"

text \<open>Each operand in turn is passed to the call, or its block is logged already.\<close>

fun accounted ::
  "('o \<Rightarrow> u64) \<Rightarrow> ('o \<Rightarrow> u32) \<Rightarrow> (u64 \<Rightarrow> u32 \<Rightarrow> 's \<Rightarrow> 's option) \<Rightarrow> ('s \<Rightarrow> addr_table) \<Rightarrow> bool \<Rightarrow> 'o list \<Rightarrow> 's \<Rightarrow> 's \<Rightarrow> bool" where
  "accounted A sz_of call tab fast [] s s' \<longleftrightarrow> s' = s"
| "accounted A sz_of call tab fast (opnd # os) s s' \<longleftrightarrow>
     (\<exists>s1. call (A opnd) (sz_of opnd) s = Some s1 \<and> accounted A sz_of call tab fast os s1 s') \<or>
     fast \<and> logged_store (tab s) (A opnd) (sz_of opnd) \<and> accounted A sz_of call tab fast os s s'"

text \<open>What the emitted code needs of the function it calls.\<close>

locale recorder =
  fixes call :: "u64 \<Rightarrow> u32 \<Rightarrow> 's \<Rightarrow> 's option"
    and tab :: "'s \<Rightarrow> addr_table"
    and inv :: "'s \<Rightarrow> bool"
    and ok :: "u64 \<Rightarrow> u32 \<Rightarrow> bool"
  assumes call_returns: "inv s \<Longrightarrow> ok a sz \<Longrightarrow> \<exists>s'. call a sz s = Some s' \<and> inv s'"
    and tab_aligned: "inv s \<Longrightarrow> undo_block (tab s k) = tab s k"
    and ok_null: "ok a sz \<Longrightarrow> 32 \<le> a"
begin

lemma segment_run:
  assumes r: "records fast sz opnd seg" and inv: "inv s" and ok: "ok (A opnd) sz"
  obtains s' R' where "\<And>rest. run_emitted A junk call tab R (seg @ rest) s = run_emitted A junk call tab R' rest s'"
    and "inv s'" and "call (A opnd) sz s = Some s' \<or> fast \<and> logged_store (tab s) (A opnd) sz \<and> s' = s"
proof -
  obtain s1 where s1: "call (A opnd) sz s = Some s1" "inv s1" using call_returns [OF inv ok] by blast
  show thesis
  proof (cases fast)
    case False
    then obtain d t where "seg = [ReserveReg d, GetMemAddr opnd d 0, CleanCall d sz, UnreserveReg d] \<or>
      seg = [ReserveReg d, ReserveReg t, GetMemAddr opnd d t, CleanCall d sz, UnreserveReg d, UnreserveReg t]"
      using r by (auto simp: records_def records_plain_def)
    then show thesis
    proof
      assume "seg = [ReserveReg d, GetMemAddr opnd d 0, CleanCall d sz, UnreserveReg d]"
      with s1 show thesis by (intro that [of "R(0 := junk, d := A opnd)" s1]) simp_all
    next
      assume "seg = [ReserveReg d, ReserveReg t, GetMemAddr opnd d t, CleanCall d sz, UnreserveReg d, UnreserveReg t]"
      with s1 show thesis by (intro that [of "R(t := junk, d := A opnd)" s1]) simp_all
    qed
  next
    case True
    then obtain d t code where seg: "d \<noteq> t" "undo_insert_fast_path sz = Inr code"
      "seg = [ReserveReg d, ReserveReg t, GetMemAddr opnd d t, ReserveAflags, Inline d t code, SlowPathLabel, CleanCall d sz, SkipLabel,
        UnreserveAflags, UnreserveReg t, UnreserveReg d]"
      using r by (auto simp: records_def records_fast_def)
    let ?R = "R(t := junk, d := A opnd, t := junk)"
    show thesis
    proof (cases "fast_run (tab s) (A opnd) junk 0 code")
      case SlowPath
      with s1 seg show thesis by (intro that [of ?R s1]) (simp_all add: fun_upd_twist)
    next
      case Skip
      have "logged_store (tab s) (A opnd) sz"
        using skip_logged [OF seg(2) Skip _ ok_null [OF ok]] tab_aligned [OF inv] by (simp add: logged_store_def)
      with Skip seg inv True show thesis by (intro that [of ?R s]) (simp_all add: fun_upd_twist)
    qed
  qed
qed

lemma code_run:
  assumes "list_all2 (\<lambda>opnd. records fast (sz_of opnd) opnd) os segs" and "inv s" and "\<forall>opnd \<in> set os. ok (A opnd) (sz_of opnd)"
  shows "\<exists>s'. run_emitted A junk call tab R (concat segs) s = Some s' \<and> inv s' \<and> accounted A sz_of call tab fast os s s'"
  using assms
proof (induction arbitrary: R s rule: list_all2_induct)
  case Nil
  then show ?case by simp
next
  case (Cons opnd os seg segs)
  obtain s1 R' where r: "run_emitted A junk call tab R (seg @ concat segs) s = run_emitted A junk call tab R' (concat segs) s1" "inv s1"
    "call (A opnd) (sz_of opnd) s = Some s1 \<or> fast \<and> logged_store (tab s) (A opnd) (sz_of opnd) \<and> s1 = s"
    using segment_run [OF Cons.hyps(1) Cons.prems(1), of A junk R] Cons.prems(2) by (metis list.set_intros(1))
  obtain s' where "run_emitted A junk call tab R' (concat segs) s1 = Some s'" "inv s'" "accounted A sz_of call tab fast os s1 s'"
    using Cons.IH [OF r(2), of R'] Cons.prems(2) by auto
  with r show ?case by auto
qed

end

section \<open>\<open>record_write\<close> is such a function\<close>

definition hash_aligned :: "undo_log \<Rightarrow> bool" where
  "hash_aligned u \<longleftrightarrow> (\<forall>k. undo_block (logged_addrs_hash u k) = logged_addrs_hash u k)"

definition store_ok :: "u64 \<Rightarrow> u32 \<Rightarrow> bool" where
  "store_ok a sz \<longleftrightarrow> 32 \<le> a \<and> unat a + unat sz + 32 \<le> 2 ^ 64"

lemma insert_aligned:
  assumes "undo_block a = a" and "\<forall>k. undo_block (t k) = t k"
  shows "\<forall>k. undo_block (snd (undo_log_insert_logged_addr a t) k) = snd (undo_log_insert_logged_addr a t) k"
  using assms by (cases rule: insert_cases [of a t]) auto

lemma log_block_aligned: "undo_block p = p \<Longrightarrow> hash_aligned u \<Longrightarrow> hash_aligned (log_block True p u)"
  using insert_aligned [of p "logged_addrs_hash u"] by (auto simp: hash_aligned_def log_block_def split: prod.splits)

lemma record_loop_returns:
  assumes "unat p = 32 * q" and "unat lim \<le> 32 * (q + c)" and "32 * (q + c) < 2 ^ 64" and "hash_aligned u"
  shows "\<exists>u'. record_loop True p lim u = Some u' \<and> hash_aligned u'"
  using assms
proof (induction c arbitrary: p q u)
  case 0
  then show ?case by (subst record_loop.simps) (simp add: word_less_nat_alt)
next
  case (Suc c)
  have "unat (p + of_nat 32) = unat p + 32" using Suc.prems(1,3) by (intro unat_add_of_nat) simp
  then have up: "unat (p + 32) = 32 * Suc q" using Suc.prems(1) by simp
  have "undo_block p = p" using unat_undo_block [of p] Suc.prems(1) by (simp add: word_eq_iff_unat)
  then have "hash_aligned (log_block True p u)" using Suc.prems(4) by (rule log_block_aligned)
  then have "\<exists>u'. record_loop True (p + 32) lim (log_block True p u) = Some u' \<and> hash_aligned u'"
    using Suc.prems(2,3) by (intro Suc.IH [OF up]) simp_all
  then show ?case using Suc.prems(4) by (subst record_loop.simps) (simp add: UNDO_BLK_SIZE_B_def)
qed

lemma store_end: "store_ok a sz \<Longrightarrow> unat (a + ucast sz) = unat a + unat sz"
  using unat_add_of_nat [of a "unat sz"] by (simp add: store_ok_def)

lemma record_write_returns:
  assumes ok: "store_ok a sz" and al: "hash_aligned (fst s)"
  shows "\<exists>s'. record_write True skip a sz rsp s = Some s' \<and> hash_aligned (fst s')"
proof -
  obtain u flag where s: "s = (u, flag)" by fastforce
  define q where "q = unat a div 32"
  define c where "c = (unat a mod 32 + unat sz + 31) div 32"
  have "unat a = 32 * q + unat a mod 32" by (simp add: q_def)
  moreover have "32 * c \<le> unat a mod 32 + unat sz + 31" "unat a mod 32 + unat sz \<le> 32 * c" unfolding c_def by linarith+
  ultimately have b: "unat a + unat sz \<le> 32 * (q + c)" "32 * (q + c) < 2 ^ 64" using ok by (auto simp: store_ok_def)
  have "\<exists>u'. record_loop True (undo_block a) (a + ucast sz) u = Some u' \<and> hash_aligned u'"
    by (rule record_loop_returns [OF unat_undo_block]) (use b al s store_end [OF ok] in \<open>simp_all add: q_def\<close>)
  then show ?thesis
    using al s by (auto simp: record_write_def undo_log_record_def hash_aligned_def Let_def)
qed

interpretation rw: recorder "\<lambda>a sz. record_write True skip a sz rsp" "\<lambda>s. logged_addrs_hash (fst s)" "\<lambda>s. hash_aligned (fst s)" store_ok
  for skip rsp
  by unfold_locales (use record_write_returns in \<open>auto simp: hash_aligned_def store_ok_def\<close>)

text \<open>What a skipped call would have done: at most a fence, and the request to commit that was made before.\<close>

lemma record_write_logged:
  assumes ok: "store_ok a sz" "sz > 0" and lg: "logged_store (logged_addrs_hash u) a sz"
  shows "\<exists>P flag'. record_write True skip a sz rsp (u, flag) = Some (u\<lparr>ul_mem := P\<rparr>, flag') \<and>
    P \<in> {ul_mem u, pmem_drain (ul_mem u)} \<and> (flag' \<longrightarrow> flag \<or> COMMIT_THRESHOLD < ul_len u)"
proof -
  have e: "unat (a + ucast sz) = unat a + unat sz" by (rule store_end [OF ok(1)])
  have z: "0 < unat sz" using ok(2) by (simp add: word_less_nat_alt)
  have b: "unat (undo_block a) = 32 * (unat a div 32)" by (rule unat_undo_block)
  have lt: "undo_block a < a + ucast sz" using b e z by (simp add: word_less_nat_alt)
  have "undo_block (a + of_nat (unat sz - 1)) = undo_block a"
    by (rule lg [unfolded logged_store_def, THEN conjunct1, rule_format]) (use z in simp)
  moreover have "unat (a + of_nat (unat sz - 1)) = unat a + (unat sz - 1)"
    using ok(1) by (intro unat_add_of_nat) (auto simp: store_ok_def)
  ultimately have "(unat a + (unat sz - 1)) div 32 = unat a div 32" by (simp add: undo_block_eq_nat)
  then have "unat a + unat sz \<le> 32 * (unat a div 32) + 32" by linarith
  moreover have "unat (undo_block a + of_nat 32) = 32 * (unat a div 32) + 32"
  proof -
    have "unat a + unat sz + 32 \<le> 18446744073709551616" using ok(1) by (simp add: store_ok_def)
    then have "unat (undo_block a) + 32 < 18446744073709551616" unfolding b using z times_div_less_eq_dividend [of 32 "unat a"] by linarith
    then show ?thesis by (subst unat_add_of_nat) (simp_all add: b)
  qed
  ultimately have ge: "\<not> undo_block a + 32 < a + ucast sz" using e by (simp add: word_less_nat_alt)
  have "log_block True (undo_block a) u = u" using lg by (simp add: log_block_def logged_store_def)
  then have "record_loop True (undo_block a) (a + ucast sz) u = Some u"
    using lt ge by (subst record_loop.simps, simp add: UNDO_BLK_SIZE_B_def, subst record_loop.simps) simp
  note simps = record_write_def undo_log_record_def Let_def this
  show ?thesis
  proof (cases "skip \<and> a \<ge> rsp - 128 \<or> ranges_find (fresh_regions u) a (ucast sz)")
    case True
    then show ?thesis by (intro exI [of _ "ul_mem u"] exI [of _ flag]) (auto simp: simps)
  next
    case False
    then show ?thesis
      by (intro exI [of _ "pmem_drain (ul_mem u)"] exI [of _ "flag \<or> COMMIT_THRESHOLD < ul_len u"]) (auto simp: simps)
  qed
qed

section \<open>Properties\<close>

text \<open>
  C20. The inline check is equivalent to the call. When the emitted code jumps over the clean call, \<open>record_write\<close>
  would have returned with the same log and the same table: it would have issued at most a fence, and
  asked for a commit only if that had been asked for already or the log is over the threshold.
\<close>

theorem skipped_call_redundant:
  assumes "undo_insert_fast_path sz = Inr code" and "fast_run (logged_addrs_hash u) a r c code = Skip"
    and "hash_aligned u" and "store_ok a sz"
  shows "\<exists>P flag'. record_write True skip a sz rsp (u, flag) = Some (u\<lparr>ul_mem := P\<rparr>, flag') \<and>
    P \<in> {ul_mem u, pmem_drain (ul_mem u)} \<and> (flag' \<longrightarrow> flag \<or> COMMIT_THRESHOLD < ul_len u)"
proof -
  have "sz > 0" using assms(1,2) by (auto simp: undo_insert_fast_path_def split: if_splits)
  moreover have "logged_store (logged_addrs_hash u) a sz"
    using skip_logged [OF assms(1,2)] assms(3,4) by (simp add: logged_store_def hash_aligned_def store_ok_def)
  ultimately show ?thesis using record_write_logged [OF assms(4)] by blast
qed

text \<open>An 8-byte store at address 72, whose block 64 is in its home slot.\<close>

abbreviation demo_hash :: undo_log where
  "demo_hash \<equiv> \<lparr>ul_log = 65536, ul_len = 1, logged_addrs_hash = (\<lambda>_. 0)(2 := 64), fresh_regions = [], ul_mem = boot (\<lambda>_. 0)\<rparr>"

theorem skipped_call_redundant_witness:
  "\<exists>code P flag'. undo_insert_fast_path 8 = Inr code \<and> fast_run (logged_addrs_hash demo_hash) 72 0 0 code = Skip \<and>
     record_write True True 72 8 0x7000000000000000 (demo_hash, False) = Some (demo_hash\<lparr>ul_mem := P\<rparr>, flag') \<and> \<not> flag'"
proof -
  obtain code where c: "undo_insert_fast_path 8 = Inr code" and s: "fast_run (logged_addrs_hash demo_hash) 72 0 0 code = Skip"
    by (simp add: undo_insert_fast_path_def log_simps log2_ptr_size_def log2_UNDO_BLK_SIZE_B_def)
  have "hash_aligned demo_hash" "store_ok 72 8" by (simp_all add: hash_aligned_def store_ok_def undo_block_def)
  from skipped_call_redundant [OF c s this, of True "0x7000000000000000" False] c s show ?thesis
    by (simp add: COMMIT_THRESHOLD_def LOGGED_ADDR_HASH_SIZE_def) blast
qed

text \<open>
  C33. Every store of the application is recorded. When the instruction event returns, with or without the inline check, the
  code it has emitted runs to its end and passes, in order, the address and size of each memory
  destination of an application instruction that is not based on the stack pointer to
  \<open>record_write\<close>. With the inline check a call may be missing, but only for a store inside one
  block that the table has already; nothing is recorded for other instructions or
  for those of the library itself.
\<close>

theorem emitted_code_records:
  assumes "event_app_instruction fast D i [] = Inr code" and "allocates_apart D"
    and "\<forall>opnd \<in> set (instrumented D i). store_ok (A opnd) (opnd_mem_size D opnd i)" and "hash_aligned u"
  shows "\<exists>s'. run_emitted A junk (\<lambda>a sz. record_write True skip a sz rsp) (\<lambda>s. logged_addrs_hash (fst s)) R code (u, flag) = Some s' \<and>
    accounted A (\<lambda>opnd. opnd_mem_size D opnd i) (\<lambda>a sz. record_write True skip a sz rsp) (\<lambda>s. logged_addrs_hash (fst s)) fast
      (instrumented D i) (u, flag) s'"
proof -
  obtain segs where segs: "code = concat segs" "list_all2 (\<lambda>opnd. records fast (opnd_mem_size D opnd i) opnd) (instrumented D i) segs"
    using event_records [OF assms(1,2)] by auto
  from rw.code_run [OF segs(2), of "(u, flag)" A junk skip rsp R] assms(3,4) show ?thesis unfolding segs(1) by auto
qed

text \<open>An instruction with a stack store and a heap store, on an allocator that hands out registers in turn.\<close>

abbreviation demo_dr :: "(unit, bool) dr_api" where
  "demo_dr \<equiv> \<lparr>instr_is_app = (\<lambda>_. True), instr_in_psm = (\<lambda>_. False), instr_writes_memory = (\<lambda>_. True),
     instr_dsts = (\<lambda>_. [True, False]), opnd_is_memory_reference = (\<lambda>_. True), opnd_is_base_disp = id, opnd_base_is_xsp = id,
     opnd_mem_size = (\<lambda>_ _. 8), drreg_reserve_register = (\<lambda>bb. Some (case rev bb of ReserveReg d # _ \<Rightarrow> d + 1 | _ \<Rightarrow> 1)),
     drutil_get_mem_addr_ok = (\<lambda>_ _ _ t. t \<noteq> 0), drreg_unreserve_ok = (\<lambda>_ _. True), drreg_aflags_ok = (\<lambda>_. True),
     drutil_expand_rep_string = Some\<rparr>"

theorem emitted_code_records_witness:
  "\<exists>code s'. event_app_instruction True demo_dr () [] = Inr code \<and> instrumented demo_dr () = [False] \<and>
     run_emitted (\<lambda>_. 72) 0 (\<lambda>a sz. record_write True True a sz 0x7000000000000000) (\<lambda>s. logged_addrs_hash (fst s)) (\<lambda>_. 0) code (demo_hash, False) = Some s' \<and>
     accounted (\<lambda>_. 72) (\<lambda>opnd. opnd_mem_size demo_dr opnd ()) (\<lambda>a sz. record_write True True a sz 0x7000000000000000)
       (\<lambda>s. logged_addrs_hash (fst s)) True [False] (demo_hash, False) s'"
proof -
  obtain code where e: "event_app_instruction True demo_dr () [] = Inr code"
    by (simp add: event_app_instruction_def insert_instrumentation_fast_def undo_insert_fast_path_def)
  have i: "instrumented demo_dr () = [False]" by (simp add: instrumented_def)
  have "allocates_apart demo_dr" by (simp add: allocates_apart_def)
  moreover have "\<forall>opnd \<in> set (instrumented demo_dr ()). store_ok 72 (opnd_mem_size demo_dr opnd ())"
    by (simp add: i store_ok_def)
  moreover have "hash_aligned demo_hash" by (simp add: hash_aligned_def undo_block_def)
  ultimately show ?thesis using emitted_code_records [OF e, of "\<lambda>_. 72" demo_hash] e i by fastforce
qed

end
