(* ===== verification/Chkpt.thy ===== *)
theory Chkpt
  imports My_Libc
begin

text \<open>
  Checkpoints through CRIU: \<^verbatim>\<open>src/src/chkpt/chkpt.cc\<close> and \<^verbatim>\<open>chkpt.h\<close> (the mode \<open>PSM_MODE_CHKPT\<close>), and the
  initial checkpoint of the background process, \<^verbatim>\<open>src/src/undo/initial_chkpt.cc\<close>. CRIU and the
  creation of directories are parameters. \<open>longjmp\<close> is an outcome of its own: control returns to
  the \<open>setjmp\<close> in \<open>psm_init\<close>.
\<close>

section \<open>Library functions\<close>

text \<open>The libc wrappers used outside the instrumented process: an error is -1, with \<open>errno\<close> beside it.\<close>

definition libc_call :: "'w kernel \<Rightarrow> int \<Rightarrow> sysarg list \<Rightarrow> 'w \<Rightarrow> (int \<times> int \<times> byte list) \<times> 'w" where
  "libc_call k n args w =
     (case syscall k n args w of ((r, out), w') \<Rightarrow>
        if - 4095 \<le> sint r \<and> sint r < 0 then ((- 1, - sint r, out), w') else ((to_int r, 0, out), w'))"

abbreviation (input) AT_FDCWD :: int where "AT_FDCWD \<equiv> - 100"

definition libc_open :: "'w kernel \<Rightarrow> string \<Rightarrow> int \<Rightarrow> int \<Rightarrow> 'w \<Rightarrow> (int \<times> int) \<times> 'w" where
  "libc_open k p fl md w =
     (case libc_call k SYS_openat [num AT_FDCWD, Str p, num fl, num md] w of ((r, e, _), w') \<Rightarrow> ((r, e), w'))"

definition libc_dup2 :: "'w kernel \<Rightarrow> int \<Rightarrow> int \<Rightarrow> 'w \<Rightarrow> (int \<times> int) \<times> 'w" where
  "libc_dup2 k a b w = (case libc_call k SYS_dup2 [num a, num b] w of ((r, e, _), w') \<Rightarrow> ((r, e), w'))"

definition libc_setsid :: "'w kernel \<Rightarrow> 'w \<Rightarrow> (int \<times> int) \<times> 'w" where
  "libc_setsid k w = (case libc_call k SYS_setsid [] w of ((r, e, _), w') \<Rightarrow> ((r, e), w'))"

definition libc_close :: "'w kernel \<Rightarrow> int \<Rightarrow> 'w \<Rightarrow> (int \<times> int) \<times> 'w" where
  "libc_close k fd w = (case libc_call k SYS_close [num fd] w of ((r, e, _), w') \<Rightarrow> ((r, e), w'))"

definition libc_read :: "'w kernel \<Rightarrow> int \<Rightarrow> u64 \<Rightarrow> 'w \<Rightarrow> (int \<times> int \<times> byte list) \<times> 'w" where
  "libc_read k fd n w = libc_call k SYS_read [num fd, Out (unat n), Num n] w"

definition libc_write :: "'w kernel \<Rightarrow> int \<Rightarrow> byte list \<Rightarrow> 'w \<Rightarrow> (int \<times> int) \<times> 'w" where
  "libc_write k fd bs w =
     (case libc_call k SYS_write [num fd, Buf bs, Num (of_nat (length bs))] w of ((r, e, _), w') \<Rightarrow> ((r, e), w'))"

text \<open>\<open>std::to_string\<close> of an \<open>int\<close>, and \<open>operator/=\<close> of a path.\<close>

fun dec :: "nat \<Rightarrow> string" where
  "dec n = (if n < 10 then [char_of (48 + n)] else dec (n div 10) @ [char_of (48 + n mod 10)])"

declare dec.simps [simp del]

definition to_string :: "int \<Rightarrow> string" where
  "to_string i = (if i < 0 then CHR ''-'' # dec (nat (- i)) else dec (nat i))"

definition path_append :: "string \<Rightarrow> string \<Rightarrow> string" where
  "path_append p q = (if p = [] \<or> last p = CHR ''/'' then p @ q else p @ CHR ''/'' # q)"

section \<open>CRIU\<close>

datatype criu_opt = WorkDirFd int | LogFile string | LogLevel int | LeaveRunning bool | ImagesDirFd int
  | TrackMem bool | AutoDedup bool | ParentImages string

record 'w criu =
  criu_init_opts :: "'w \<Rightarrow> int \<times> 'w"
  criu_set_service_address :: "string \<Rightarrow> 'w \<Rightarrow> int \<times> 'w"
  criu_set :: "criu_opt \<Rightarrow> 'w \<Rightarrow> 'w"
  criu_dump :: "'w \<Rightarrow> int \<times> 'w"
  create_directories :: "string \<Rightarrow> 'w \<Rightarrow> 'w"

datatype outcome = Return int | LongJmp | Aborted

section \<open>Checkpoint mode\<close>

record chkpt_state =
  imgs_dir :: string
  service_path :: string
  log_path :: string
  seq :: int

definition chkpt_state_init :: "string \<Rightarrow> string \<Rightarrow> string option \<Rightarrow> chkpt_state" where
  "chkpt_state_init dir service log =
     \<lparr>imgs_dir = dir, service_path = service,
      log_path = (case log of None \<Rightarrow> ''/dev/null'' | Some p \<Rightarrow> p), seq = 0\<rparr>"

definition chkpt_init :: "'w kernel \<Rightarrow> 'w criu \<Rightarrow> chkpt_state \<Rightarrow> 'w \<Rightarrow> int \<times> 'w" where
  "chkpt_init k C st w =
     (case libc_open k ''/dev/null'' O_RDONLY 0 w of ((dev_null_ro, e), w) \<Rightarrow>
      if dev_null_ro = - 1 then (e, w) else
      case libc_dup2 k dev_null_ro 0 w of ((r, e), w) \<Rightarrow>
      if r = - 1 then (e, w) else
      case libc_open k (log_path st) (or O_WRONLY O_CREAT) 438 w of ((out_fd, e), w) \<Rightarrow>
      if out_fd = - 1 then (e, w) else
      case libc_dup2 k out_fd 1 w of ((r, e), w) \<Rightarrow>
      if r = - 1 then (e, w) else
      case libc_dup2 k out_fd 2 w of ((r, e), w) \<Rightarrow>
      if r = - 1 then (e, w) else
      case libc_setsid k w of ((r, e), w) \<Rightarrow>
      if r = - 1 then (e, w) else
      case criu_init_opts C w of (res, w) \<Rightarrow>
      if res \<noteq> 0 then (res, w) else
      case criu_set_service_address C (service_path st) w of (res, w) \<Rightarrow>
      if res \<noteq> 0 then (res, w)
      else (0, criu_set C (AutoDedup True) (criu_set C (TrackMem True)
              (criu_set C (LeaveRunning True) (criu_set C (LogLevel 4) w)))))"

definition curr_imgs_dir :: "chkpt_state \<Rightarrow> string" where
  "curr_imgs_dir st = path_append (imgs_dir st) (to_string (seq st))"

definition chkpt_commit :: "'w kernel \<Rightarrow> 'w criu \<Rightarrow> chkpt_state \<Rightarrow> 'w \<Rightarrow> outcome \<times> chkpt_state \<times> 'w" where
  "chkpt_commit k C st w =
     (let w1 = create_directories C (curr_imgs_dir st) w in
      case libc_open k (curr_imgs_dir st) O_DIRECTORY 0 w1 of ((fd, e), w2) \<Rightarrow>
      if fd = - 1 then (Aborted, st, w2)
      else let w3 = criu_set C (ImagesDirFd fd) w2;
               w4 = (if seq st > 0 then criu_set C (ParentImages (path_append ''..'' (to_string (seq st - 1)))) w3 else w3);
               (res, w5) = criu_dump C w4;
               st' = st\<lparr>seq := seq st + 1\<rparr>
           in if res = 0 then (Return 0, st', w5)
              else if res > 0 then (LongJmp, st', w5)
              else (Aborted, st', w5))"

section \<open>The initial checkpoint\<close>

text \<open>\<open>MUST_SUCCEED\<close>: a negative result is returned with its sign changed.\<close>

definition must_succeed :: "int \<times> 'w \<Rightarrow> (int \<Rightarrow> 'w \<Rightarrow> outcome \<times> 'w) \<Rightarrow> outcome \<times> 'w" where
  "must_succeed x f = (case x of (ret, w) \<Rightarrow> if ret < 0 then (Return (- ret), w) else f ret w)"

definition redirect_null :: "'w kernel \<Rightarrow> ('w \<Rightarrow> outcome \<times> 'w) \<Rightarrow> 'w \<Rightarrow> outcome \<times> 'w" where
  "redirect_null k f w =
     must_succeed (my_open k ''/dev/null'' O_RDONLY 0 w) (\<lambda>dev_null_ro w.
     must_succeed (my_dup2 k dev_null_ro 0 w) (\<lambda>_ w.
     must_succeed (my_close k dev_null_ro w) (\<lambda>_ w.
     must_succeed (my_open k ''/dev/null'' O_WRONLY 0 w) (\<lambda>dev_null_wo w.
     must_succeed (my_dup2 k dev_null_wo 1 w) (\<lambda>_ w.
     must_succeed (my_dup2 k dev_null_wo 2 w) (\<lambda>_ w.
     must_succeed (my_close k dev_null_wo w) (\<lambda>_ w. f w)))))))"

definition redirect_log :: "'w kernel \<Rightarrow> int \<Rightarrow> ('w \<Rightarrow> outcome \<times> 'w) \<Rightarrow> 'w \<Rightarrow> outcome \<times> 'w" where
  "redirect_log k dirfd f w =
     must_succeed (my_openat k dirfd ''std.log'' (or O_WRONLY (or O_CREAT O_APPEND)) 438 w) (\<lambda>log_fd w.
     must_succeed (my_dup2 k log_fd 1 w) (\<lambda>_ w.
     must_succeed (my_dup2 k log_fd 2 w) (\<lambda>_ w.
     must_succeed (my_close k log_fd w) (\<lambda>_ w. f w))))"

definition take_initial_chkpt :: "'w kernel \<Rightarrow> 'w criu \<Rightarrow> string \<Rightarrow> string \<Rightarrow> 'w \<Rightarrow> outcome \<times> 'w" where
  "take_initial_chkpt k C pmem_path criu_service_path w0 =
     redirect_null k (\<lambda>w.
     must_succeed (my_setsid k w) (\<lambda>_ w.
     must_succeed (my_open k pmem_path O_DIRECTORY 0 w) (\<lambda>dirfd w.
     case criu_init_opts C w of (res, w) \<Rightarrow>
     if res \<noteq> 0 then (Return res, w) else
     case criu_set_service_address C criu_service_path w of (res, w) \<Rightarrow>
     if res \<noteq> 0 then (Return res, w) else
     let w = criu_set C (LeaveRunning True) (criu_set C (LogLevel 4) (criu_set C (LogFile ''dump.log'')
               (criu_set C (WorkDirFd dirfd) w))) in
     case my_mkdirat k dirfd ''initial_chkpt'' 438 w of (ret, w) \<Rightarrow>
     if ret < 0 \<and> ret \<noteq> - EEXIST then (Return (- ret), w) else
     must_succeed (my_openat k dirfd ''initial_chkpt'' O_DIRECTORY 0 w) (\<lambda>imgs_dirfd w.
     case criu_dump C (criu_set C (ImagesDirFd imgs_dirfd) w) of (res, w) \<Rightarrow>
     must_succeed (my_close k imgs_dirfd w) (\<lambda>_ w.
     if res < 0 then (Return res, w)
     else redirect_log k dirfd (\<lambda>w.
       must_succeed (my_close k dirfd w) (\<lambda>_ w.
       if res > 0 then (LongJmp, w) else (Return 0, w))) w))))) w0"

section \<open>Properties\<close>

text \<open>A kernel and a CRIU for the examples: every call succeeds.\<close>

definition zero_kernel :: "unit kernel" where
  "zero_kernel g w = ((0, []), w)"

definition demo_criu :: "unit criu" where
  "demo_criu = \<lparr>criu_init_opts = (\<lambda>w. (0, w)), criu_set_service_address = (\<lambda>_ w. (0, w)), criu_set = (\<lambda>_ w. w),
     criu_dump = (\<lambda>w. (0, w)), create_directories = (\<lambda>_ w. w)\<rparr>"

definition dec_value :: "string \<Rightarrow> nat" where
  "dec_value cs = foldl (\<lambda>a c. 10 * a + (of_char c - 48)) 0 cs"

lemma dec_value_dec: "dec_value (dec n) = n"
proof (induction n rule: dec.induct)
  case (1 n)
  have d: "of_char (char_of (48 + m) :: char) = 48 + (m :: nat)" if "m < 10" for m using that by simp
  have m: "of_char (char_of (48 + n mod 10) :: char) = 48 + (n mod 10 :: nat)" by (rule d) simp
  show ?case
  proof (cases "n < 10")
    case True
    then show ?thesis using d [OF True] by (subst dec.simps) (simp add: dec_value_def)
  next
    case False
    then have "dec_value (dec n) = 10 * dec_value (dec (n div 10)) + (48 + n mod 10 - 48)"
      by (subst dec.simps) (simp add: dec_value_def m)
    then show ?thesis using 1 False by simp
  qed
qed

lemma path_append_inject: "path_append p q = path_append p q' \<longleftrightarrow> q = q'"
  by (auto simp: path_append_def)

text \<open>
  Checkpoints never overwrite each other: in checkpoint mode two commits with different, non-negative
  sequence numbers write to different image directories, and a commit that returns increases
  the sequence number by one.
\<close>

theorem chkpt_directories_distinct:
  assumes "imgs_dir st = imgs_dir st'" and "0 \<le> seq st" and "0 \<le> seq st'" and "seq st \<noteq> seq st'"
  shows "curr_imgs_dir st \<noteq> curr_imgs_dir st' \<and>
    (\<forall>res s w'. chkpt_commit k C st w = (Return res, s, w') \<longrightarrow> seq s = seq st + 1 \<and> imgs_dir s = imgs_dir st)"
proof -
  have "nat (seq st) \<noteq> nat (seq st')" using assms(2-4) by (simp add: nat_eq_iff)
  then have "dec (nat (seq st)) \<noteq> dec (nat (seq st'))" by (metis dec_value_dec)
  then have "curr_imgs_dir st \<noteq> curr_imgs_dir st'"
    using assms(1-3) by (simp add: curr_imgs_dir_def path_append_inject to_string_def)
  moreover have "seq s = seq st + 1 \<and> imgs_dir s = imgs_dir st" if "chkpt_commit k C st w = (Return res, s, w')" for res s w'
    using that by (auto simp: chkpt_commit_def Let_def split: prod.splits if_splits)
  ultimately show ?thesis by blast
qed

theorem chkpt_directories_distinct_witness:
  "curr_imgs_dir \<lparr>imgs_dir = ''/c'', service_path = [], log_path = [], seq = 9\<rparr> \<noteq>
     curr_imgs_dir \<lparr>imgs_dir = ''/c'', service_path = [], log_path = [], seq = 10\<rparr> \<and>
   curr_imgs_dir \<lparr>imgs_dir = ''/c'', service_path = [], log_path = [], seq = 10\<rparr> = ''/c/10''"
proof -
  let ?a = "\<lparr>imgs_dir = ''/c'', service_path = [], log_path = [], seq = 9\<rparr>"
  let ?b = "\<lparr>imgs_dir = ''/c'', service_path = [], log_path = [], seq = 10\<rparr>"
  have "curr_imgs_dir ?a \<noteq> curr_imgs_dir ?b"
    using chkpt_directories_distinct [of ?a ?b zero_kernel demo_criu "()"] by simp
  moreover have "dec 10 = ''10''" by (subst dec.simps, subst dec.simps) (simp add: char_of_def bit_Suc_0_iff)
  then have "curr_imgs_dir ?b = ''/c/10''" by (simp add: curr_imgs_dir_def path_append_def to_string_def)
  ultimately show ?thesis by blast
qed

end
