(* ===== verification/Chkpt_Props.thy ===== *)
theory Chkpt_Props
  imports Chkpt
begin

text \<open>
  What the initial checkpoint captures. The kernel and CRIU are observed through a view of the process: the path that each
  descriptor was opened on, whether the process leads a session, the options of CRIU, and for every \<open>criu_dump\<close> its
  result with the process as it was.
\<close>

section \<open>The view of the process\<close>

record proc =
  proc_files :: "int \<rightharpoonup> string"
  proc_leader :: bool
  proc_opts :: "criu_opt list"

record observed = proc +
  proc_dumps :: "(int \<times> proc) list"

definition proc_of :: "observed \<Rightarrow> proc" where
  "proc_of v = \<lparr>proc_files = proc_files v, proc_leader = proc_leader v, proc_opts = proc_opts v\<rparr>"

text \<open>The documented behaviour of the calls: each may fail; a new descriptor is one that was not in use.\<close>

definition opens :: "observed \<Rightarrow> string \<Rightarrow> int \<Rightarrow> observed \<Rightarrow> bool" where
  "opens v p r v' \<longleftrightarrow>
     (if r < 0 then v' = v else proc_files v r = None \<and> v' = v\<lparr>proc_files := (proc_files v)(r \<mapsto> p)\<rparr>)"

definition kernel_observed :: "'w kernel \<Rightarrow> ('w \<Rightarrow> observed) \<Rightarrow> bool" where
  "kernel_observed k view \<longleftrightarrow>
     (\<forall>p fl md w r w'. my_open k p fl md w = (r, w') \<longrightarrow> opens (view w) p r (view w')) \<and>
     (\<forall>d q p fl md w r w'. my_openat k d p fl md w = (r, w') \<longrightarrow> int32 d \<longrightarrow> proc_files (view w) d = Some q \<longrightarrow>
        opens (view w) (q @ ''/'' @ p) r (view w')) \<and>
     (\<forall>a b p w r w'. my_dup2 k a b w = (r, w') \<longrightarrow> int32 a \<longrightarrow> int32 b \<longrightarrow> proc_files (view w) a = Some p \<longrightarrow>
        view w' = (if r < 0 then view w else (view w)\<lparr>proc_files := (proc_files (view w))(b \<mapsto> p)\<rparr>)) \<and>
     (\<forall>fd w r w'. my_close k fd w = (r, w') \<longrightarrow> int32 fd \<longrightarrow>
        view w' \<in> {(view w)\<lparr>proc_files := (proc_files (view w))(fd := None)\<rparr>} \<union> (if r < 0 then {view w} else {})) \<and>
     (\<forall>w r w'. my_setsid k w = (r, w') \<longrightarrow> view w' = (if r < 0 then view w else (view w)\<lparr>proc_leader := True\<rparr>)) \<and>
     (\<forall>d p md w r w'. my_mkdirat k d p md w = (r, w') \<longrightarrow> view w' = view w)"

definition criu_observed :: "'w criu \<Rightarrow> ('w \<Rightarrow> observed) \<Rightarrow> bool" where
  "criu_observed C view \<longleftrightarrow>
     (\<forall>w r w'. criu_init_opts C w = (r, w') \<longrightarrow> (\<exists>os. view w' = (view w)\<lparr>proc_opts := os\<rparr> \<and> (r = 0 \<longrightarrow> os = []))) \<and>
     (\<forall>p w r w'. criu_set_service_address C p w = (r, w') \<longrightarrow> view w' = view w) \<and>
     (\<forall>p w. view (criu_set C p w) = (view w)\<lparr>proc_opts := proc_opts (view w) @ [p]\<rparr>) \<and>
     (\<forall>w r w'. criu_dump C w = (r, w') \<longrightarrow> view w' = (view w)\<lparr>proc_dumps := proc_dumps (view w) @ [(r, proc_of (view w))]\<rparr>)"

section \<open>Calls that must succeed\<close>

text \<open>The function has returned an error with the dumps \<open>D\<close>, or what is asked for holds.\<close>

definition unless_error :: "('w \<Rightarrow> observed) \<Rightarrow> (int \<times> proc) list \<Rightarrow> (outcome \<times> 'w \<Rightarrow> bool) \<Rightarrow> outcome \<times> 'w \<Rightarrow> bool" where
  "unless_error view D Q x \<longleftrightarrow> (\<exists>e. fst x = Return e \<and> e \<noteq> 0) \<and> proc_dumps (view (snd x)) = D \<or> Q x"

lemma int32_to_int [simp]: "int32 (to_int r)"
  using sint_ge [of "ucast r :: u32"] sint_lt [of "ucast r :: u32"] by (simp add: int32_def to_int_def)

lemma unless_error_return: "e \<noteq> 0 \<Longrightarrow> proc_dumps (view w) = D \<Longrightarrow> unless_error view D Q (Return e, w)"
  by (simp add: unless_error_def)

lemma unless_error_must:
  assumes "proc_dumps (view (snd x)) = D" and "0 \<le> fst x \<Longrightarrow> unless_error view D Q (f (fst x) (snd x))"
  shows "unless_error view D Q (must_succeed x f)"
  using assms by (auto simp: must_succeed_def unless_error_def split: prod.splits)

lemma must_open:
  assumes k: "kernel_observed k view" and D: "proc_dumps (view w) = D"
    and f: "\<And>fd w1. int32 fd \<Longrightarrow> proc_files (view w) fd = None \<Longrightarrow> view w1 = (view w)\<lparr>proc_files := (proc_files (view w))(fd \<mapsto> p)\<rparr> \<Longrightarrow>
      unless_error view D Q (f fd w1)"
  shows "unless_error view D Q (must_succeed (my_open k p fl md w) f)"
proof -
  obtain r w1 where o: "my_open k p fl md w = (r, w1)" by fastforce
  then have "opens (view w) p r (view w1)" using k by (simp add: kernel_observed_def)
  moreover have "int32 r" using o by (auto simp: my_open_def split: prod.splits)
  ultimately show ?thesis using D f by (intro unless_error_must) (auto simp: o opens_def split: if_splits)
qed

lemma must_openat:
  assumes k: "kernel_observed k view" and D: "proc_dumps (view w) = D" and d: "int32 d" "proc_files (view w) d = Some q"
    and f: "\<And>fd w1. int32 fd \<Longrightarrow> proc_files (view w) fd = None \<Longrightarrow> view w1 = (view w)\<lparr>proc_files := (proc_files (view w))(fd \<mapsto> q @ ''/'' @ p)\<rparr> \<Longrightarrow>
      unless_error view D Q (f fd w1)"
  shows "unless_error view D Q (must_succeed (my_openat k d p fl md w) f)"
proof -
  obtain r w1 where o: "my_openat k d p fl md w = (r, w1)" by fastforce
  have "opens (view w) (q @ ''/'' @ p) r (view w1)"
    by (rule k [unfolded kernel_observed_def, THEN conjunct2, THEN conjunct1, rule_format, OF o d])
  moreover have "int32 r" using o by (auto simp: my_openat_def split: prod.splits)
  ultimately show ?thesis using D f by (intro unless_error_must) (auto simp: o opens_def split: if_splits)
qed

lemma must_dup2:
  assumes k: "kernel_observed k view" and D: "proc_dumps (view w) = D" and a: "int32 a" "int32 b" "proc_files (view w) a = Some p"
    and f: "\<And>r w1. view w1 = (view w)\<lparr>proc_files := (proc_files (view w))(b \<mapsto> p)\<rparr> \<Longrightarrow> unless_error view D Q (f r w1)"
  shows "unless_error view D Q (must_succeed (my_dup2 k a b w) f)"
proof -
  obtain r w1 where o: "my_dup2 k a b w = (r, w1)" by fastforce
  then have "view w1 = (if r < 0 then view w else (view w)\<lparr>proc_files := (proc_files (view w))(b \<mapsto> p)\<rparr>)"
    using k a unfolding kernel_observed_def by blast
  then show ?thesis using D f by (intro unless_error_must) (auto simp: o split: if_splits)
qed

lemma must_close:
  assumes k: "kernel_observed k view" and D: "proc_dumps (view w) = D" and fd: "int32 fd"
    and f: "\<And>r w1. view w1 = (view w)\<lparr>proc_files := (proc_files (view w))(fd := None)\<rparr> \<Longrightarrow> unless_error view D Q (f r w1)"
  shows "unless_error view D Q (must_succeed (my_close k fd w) f)"
proof -
  obtain r w1 where o: "my_close k fd w = (r, w1)" by fastforce
  then have "view w1 \<in> {(view w)\<lparr>proc_files := (proc_files (view w))(fd := None)\<rparr>} \<union> (if r < 0 then {view w} else {})"
    using k fd unfolding kernel_observed_def by blast
  then show ?thesis using D f by (intro unless_error_must) (auto simp: o split: if_splits)
qed

lemma must_setsid:
  assumes k: "kernel_observed k view" and D: "proc_dumps (view w) = D"
    and f: "\<And>r w1. view w1 = (view w)\<lparr>proc_leader := True\<rparr> \<Longrightarrow> unless_error view D Q (f r w1)"
  shows "unless_error view D Q (must_succeed (my_setsid k w) f)"
proof -
  obtain r w1 where o: "my_setsid k w = (r, w1)" by fastforce
  then have "view w1 = (if r < 0 then view w else (view w)\<lparr>proc_leader := True\<rparr>)"
    using k unfolding kernel_observed_def by blast
  then show ?thesis using D f by (intro unless_error_must) (auto simp: o split: if_splits)
qed

section \<open>Redirecting the standard descriptors\<close>

lemma files_cong: "fs = gs \<Longrightarrow> v\<lparr>proc_files := fs\<rparr> = v\<lparr>proc_files := gs\<rparr>"
  by simp

abbreviation null :: string where "null \<equiv> ''/dev/null''"

lemma redirect_null_files:
  assumes k: "kernel_observed k view" and D: "proc_dumps (view w) = D"
    and std: "proc_files (view w) 0 \<noteq> None" "proc_files (view w) 1 \<noteq> None" "proc_files (view w) 2 \<noteq> None"
    and f: "\<And>w1. view w1 = (view w)\<lparr>proc_files := (proc_files (view w))(0 \<mapsto> null, 1 \<mapsto> null, 2 \<mapsto> null)\<rparr> \<Longrightarrow> unless_error view D Q (f w1)"
  shows "unless_error view D Q (redirect_null k f w)"
  unfolding redirect_null_def
  apply (rule must_open [OF k D])
  apply (rule must_dup2 [OF k, where p = null], simp add: D, simp, simp, simp)
  apply (rule must_close [OF k], simp add: D, simp)
  apply (rule must_open [OF k], simp add: D)
  apply (rule must_dup2 [OF k, where p = null], simp add: D, simp, simp, simp)
  apply (rule must_dup2 [OF k, where p = null], simp add: D, simp, simp, simp)
  apply (rule must_close [OF k], simp add: D, simp)
  apply (rule f)
  using std apply (simp, intro files_cong) apply (auto simp: fun_eq_iff split: if_splits)
  done

lemma redirect_log_files:
  assumes k: "kernel_observed k view" and D: "proc_dumps (view w) = D" and d: "int32 d" "proc_files (view w) d = Some q"
    and std: "proc_files (view w) 1 \<noteq> None" "proc_files (view w) 2 \<noteq> None"
    and f: "\<And>w1. view w1 = (view w)\<lparr>proc_files := (proc_files (view w))(1 \<mapsto> q @ ''/'' @ ''std.log'', 2 \<mapsto> q @ ''/'' @ ''std.log'')\<rparr> \<Longrightarrow>
      unless_error view D Q (f w1)"
  shows "unless_error view D Q (redirect_log k d f w)"
  unfolding redirect_log_def
  apply (rule must_openat [OF k D d])
  apply (rule must_dup2 [OF k, where p = "q @ ''/'' @ ''std.log''"], simp add: D, simp, simp, simp)
  apply (rule must_dup2 [OF k, where p = "q @ ''/'' @ ''std.log''"], simp add: D, simp, simp, simp)
  apply (rule must_close [OF k], simp add: D, simp)
  apply (rule f)
  using std apply (simp, intro files_cong) apply (auto simp: fun_eq_iff split: if_splits)
  done

text \<open>What follows the dump, with its result \<open>res\<close>.\<close>

lemma after_dump:
  assumes k: "kernel_observed k view" and D: "proc_dumps (view w) = D" and d: "int32 d" "proc_files (view w) d = Some q" "d \<noteq> i" "d \<notin> {1, 2}"
    and std: "proc_files (view w) 1 \<noteq> None" "proc_files (view w) 2 \<noteq> None" "i \<notin> {1, 2}" "int32 i"
  shows "unless_error view D (\<lambda>(out, w'). (out = Return 0 \<and> res = 0 \<or> out = LongJmp \<and> 0 < res) \<and> proc_dumps (view w') = D \<and>
       proc_files (view w') = (proc_files (view w))(i := None, 1 \<mapsto> q @ ''/std.log'', 2 \<mapsto> q @ ''/std.log'', d := None))
     (must_succeed (my_close k i w) (\<lambda>_ w. if res < 0 then (Return res, w)
        else redirect_log k d (\<lambda>w. must_succeed (my_close k d w) (\<lambda>_ w. if res > 0 then (LongJmp, w) else (Return 0, w))) w))"
    (is "unless_error view D ?Q _")
proof (rule must_close [OF k D std(4)])
  fix w1
  assume w1: "view w1 = (view w)\<lparr>proc_files := (proc_files (view w))(i := None)\<rparr>"
  have "unless_error view D ?Q (redirect_log k d (\<lambda>w. must_succeed (my_close k d w) (\<lambda>_ w. if res > 0 then (LongJmp, w) else (Return 0, w))) w1)"
    if "0 \<le> res"
  proof (rule redirect_log_files [OF k])
    fix w2
    assume w2: "view w2 = (view w1)\<lparr>proc_files := (proc_files (view w1))(1 \<mapsto> q @ ''/'' @ ''std.log'', 2 \<mapsto> q @ ''/'' @ ''std.log'')\<rparr>"
    show "unless_error view D ?Q (must_succeed (my_close k d w2) (\<lambda>_ w. if res > 0 then (LongJmp, w) else (Return 0, w)))"
      by (rule must_close [OF k _ d(1)]) (use that in \<open>auto simp: w1 w2 D unless_error_def\<close>)
  qed (use d std in \<open>auto simp: w1 D\<close>)
  moreover have "unless_error view D ?Q (Return res, w1)" if "res < 0"
    using that by (intro unless_error_return) (simp_all add: w1 D)
  ultimately show "unless_error view D ?Q (if res < 0 then (Return res, w1)
      else redirect_log k d (\<lambda>w. must_succeed (my_close k d w) (\<lambda>_ w. if res > 0 then (LongJmp, w) else (Return 0, w))) w1)"
    by simp
qed

text \<open>The dump itself, into the directory that \<open>d\<close> is open on.\<close>

definition dumped :: "('w \<Rightarrow> observed) \<Rightarrow> (int \<times> proc) list \<Rightarrow> proc \<Rightarrow> int \<Rightarrow> string \<Rightarrow> outcome \<times> 'w \<Rightarrow> bool" where
  "dumped view D v d path x \<longleftrightarrow>
     (\<exists>res i. proc_dumps (view (snd x)) = D @ [(res, v\<lparr>proc_files := (proc_files v)(i \<mapsto> path @ ''/initial_chkpt''), proc_opts := proc_opts v @ [ImagesDirFd i]\<rparr>)] \<and>
        proc_files v i = None \<and>
        ((\<exists>e. fst x = Return e \<and> e \<noteq> 0) \<or> (fst x = Return 0 \<and> res = 0 \<or> fst x = LongJmp \<and> 0 < res) \<and>
         proc_files (view (snd x)) = (proc_files v)(1 \<mapsto> path @ ''/std.log'', 2 \<mapsto> path @ ''/std.log'', d := None)))"

lemma dump_step:
  assumes k: "kernel_observed k view" and C: "criu_observed C view" and D: "proc_dumps (view w) = D"
    and d: "int32 d" "proc_files (view w) d = Some path" "d \<notin> {1, 2}" and std: "proc_files (view w) 1 \<noteq> None" "proc_files (view w) 2 \<noteq> None"
  shows "unless_error view D (dumped view D (proc_of (view w)) d path)
     (must_succeed (my_openat k d ''initial_chkpt'' O_DIRECTORY 0 w) (\<lambda>imgs_dirfd w.
        case criu_dump C (criu_set C (ImagesDirFd imgs_dirfd) w) of (res, w) \<Rightarrow>
        must_succeed (my_close k imgs_dirfd w) (\<lambda>_ w. if res < 0 then (Return res, w)
          else redirect_log k d (\<lambda>w. must_succeed (my_close k d w) (\<lambda>_ w. if res > 0 then (LongJmp, w) else (Return 0, w))) w)))"
proof (rule must_openat [OF k D d(1,2)])
  fix i w1
  assume i32: "int32 i" and i: "proc_files (view w) i = None" and w1: "view w1 = (view w)\<lparr>proc_files := (proc_files (view w))(i \<mapsto> path @ ''/'' @ ''initial_chkpt'')\<rparr>"
  obtain res w2 where dump: "criu_dump C (criu_set C (ImagesDirFd i) w1) = (res, w2)" by fastforce
  let ?p = "(proc_of (view w))\<lparr>proc_files := (proc_files (view w))(i \<mapsto> path @ ''/initial_chkpt''), proc_opts := proc_opts (view w) @ [ImagesDirFd i]\<rparr>"
  have w2: "view w2 = (view w)\<lparr>proc_files := proc_files ?p, proc_opts := proc_opts ?p, proc_dumps := D @ [(res, ?p)]\<rparr>"
    using C dump D by (simp add: criu_observed_def w1 proc_of_def)
  have ne: "d \<noteq> i" "i \<notin> {1, 2}" using i d std by auto
  let ?x = "must_succeed (my_close k i w2) (\<lambda>_ w. if res < 0 then (Return res, w)
     else redirect_log k d (\<lambda>w. must_succeed (my_close k d w) (\<lambda>_ w. if res > 0 then (LongJmp, w) else (Return 0, w))) w)"
  have "unless_error view (D @ [(res, ?p)]) (\<lambda>(out, w'). (out = Return 0 \<and> res = 0 \<or> out = LongJmp \<and> 0 < res) \<and> proc_dumps (view w') = D @ [(res, ?p)] \<and>
       proc_files (view w') = (proc_files (view w2))(i := None, 1 \<mapsto> path @ ''/std.log'', 2 \<mapsto> path @ ''/std.log'', d := None)) ?x"
    using d std ne i32 by (intro after_dump [OF k]) (auto simp: w2)
  moreover have "(proc_files (view w2))(i := None) = proc_files (view w)" using i by (auto simp: w2)
  ultimately have "dumped view D (proc_of (view w)) d path ?x"
    using i unfolding dumped_def unless_error_def by (auto simp: proc_of_def split: prod.splits)
  then show "unless_error view D (dumped view D (proc_of (view w)) d path)
     (case criu_dump C (criu_set C (ImagesDirFd i) w1) of (res, w) \<Rightarrow>
        must_succeed (my_close k i w) (\<lambda>_ w. if res < 0 then (Return res, w)
          else redirect_log k d (\<lambda>w. must_succeed (my_close k d w) (\<lambda>_ w. if res > 0 then (LongJmp, w) else (Return 0, w))) w))"
    by (simp add: dump unless_error_def)
qed

lemma unless_error_mono: "unless_error view D Q x \<Longrightarrow> (Q x \<Longrightarrow> Q' x) \<Longrightarrow> unless_error view D Q' x"
  by (auto simp: unless_error_def)

text \<open>From the initialization of CRIU on.\<close>

lemma options_step:
  assumes k: "kernel_observed k view" and C: "criu_observed C view" and D: "proc_dumps (view w) = D"
    and d: "int32 d" "proc_files (view w) d = Some path" "d \<notin> {1, 2}" and std: "proc_files (view w) 1 \<noteq> None" "proc_files (view w) 2 \<noteq> None"
  shows "unless_error view D
     (dumped view D ((proc_of (view w))\<lparr>proc_opts := [WorkDirFd d, LogFile ''dump.log'', LogLevel 4, LeaveRunning True]\<rparr>) d path)
     (case criu_init_opts C w of (res, w) \<Rightarrow>
      if res \<noteq> 0 then (Return res, w) else
      case criu_set_service_address C service w of (res, w) \<Rightarrow>
      if res \<noteq> 0 then (Return res, w) else
      let w = criu_set C (LeaveRunning True) (criu_set C (LogLevel 4) (criu_set C (LogFile ''dump.log'') (criu_set C (WorkDirFd d) w))) in
      case my_mkdirat k d ''initial_chkpt'' 438 w of (ret, w) \<Rightarrow>
      if ret < 0 \<and> ret \<noteq> - EEXIST then (Return (- ret), w) else
      must_succeed (my_openat k d ''initial_chkpt'' O_DIRECTORY 0 w) (\<lambda>imgs_dirfd w.
      case criu_dump C (criu_set C (ImagesDirFd imgs_dirfd) w) of (res, w) \<Rightarrow>
      must_succeed (my_close k imgs_dirfd w) (\<lambda>_ w.
      if res < 0 then (Return res, w)
      else redirect_log k d (\<lambda>w. must_succeed (my_close k d w) (\<lambda>_ w. if res > 0 then (LongJmp, w) else (Return 0, w))) w)))"
proof -
  obtain r1 w1 where r1: "criu_init_opts C w = (r1, w1)" by fastforce
  obtain os where w1: "view w1 = (view w)\<lparr>proc_opts := os\<rparr>" "r1 = 0 \<longrightarrow> os = []" using C r1 unfolding criu_observed_def by blast
  obtain r2 w2 where r2: "criu_set_service_address C service w1 = (r2, w2)" by fastforce
  have w2: "view w2 = view w1" using C r2 unfolding criu_observed_def by blast
  let ?w = "criu_set C (LeaveRunning True) (criu_set C (LogLevel 4) (criu_set C (LogFile ''dump.log'') (criu_set C (WorkDirFd d) w2)))"
  have s: "view (criu_set C p u) = (view u)\<lparr>proc_opts := proc_opts (view u) @ [p]\<rparr>" for p u using C by (simp add: criu_observed_def)
  obtain r3 w3 where r3: "my_mkdirat k d ''initial_chkpt'' 438 ?w = (r3, w3)" by fastforce
  have w3: "view w3 = view ?w" using k r3 unfolding kernel_observed_def by blast
  let ?os = "[WorkDirFd d, LogFile ''dump.log'', LogLevel 4, LeaveRunning True]"
  have v3: "view w3 = (view w)\<lparr>proc_opts := os @ ?os\<rparr>" by (simp add: w3 s w2 w1(1))
  have f3: "proc_dumps (view w3) = D" "proc_files (view w3) = proc_files (view w)" by (simp_all add: v3 D)
  note ds = dump_step [OF k C f3(1), unfolded f3(2), OF d std]
  have p: "proc_of (view w3) = (proc_of (view w))\<lparr>proc_opts := ?os\<rparr>" if "r1 = 0" using that w1(2) by (simp add: v3 proc_of_def)
  have e: "proc_dumps (view w1) = D" "proc_dumps (view w2) = D" by (simp_all add: w2 w1(1) D)
  show ?thesis
    using ds p e f3(1) by (auto simp: r1 r2 r3 Let_def intro!: unless_error_return)
qed

section \<open>The initial checkpoint\<close>

text \<open>
  C35. What is in the initial checkpoint. Let the three standard descriptors be open, and let kernel and CRIU behave as documented.
  \<open>take_initial_chkpt\<close> calls \<open>criu_dump\<close> at most once, and when it does, the three standard descriptors are \<^verbatim>\<open>/dev/null\<close>, the process
  leads its session, the images go to the directory \<^verbatim>\<open>initial_chkpt\<close> under \<open>pmem_path\<close>, and the process is left running.
  It returns 0 only if this dump returned 0, and jumps to the recovery point only if it returned a positive value, that is in
  the restored process; then standard input is \<^verbatim>\<open>/dev/null\<close>, standard output and error go to the log file, and every other descriptor is as before the call. In every other
  case it returns an error.
\<close>

theorem take_initial_chkpt_dump:
  assumes k: "kernel_observed k view" and C: "criu_observed C view"
    and std: "proc_files (view w) 0 \<noteq> None" "proc_files (view w) 1 \<noteq> None" "proc_files (view w) 2 \<noteq> None"
    and run: "take_initial_chkpt k C path service w = (out, w')"
  shows "(\<exists>e. out = Return e \<and> e \<noteq> 0) \<and> proc_dumps (view w') = proc_dumps (view w) \<or>
    (\<exists>res p d i. proc_dumps (view w') = proc_dumps (view w) @ [(res, p)] \<and>
       proc_files p 0 = Some null \<and> proc_files p 1 = Some null \<and> proc_files p 2 = Some null \<and> proc_leader p \<and>
       proc_opts p = [WorkDirFd d, LogFile ''dump.log'', LogLevel 4, LeaveRunning True, ImagesDirFd i] \<and>
       proc_files p d = Some path \<and> proc_files p i = Some (path @ ''/initial_chkpt'') \<and>
       ((\<exists>e. out = Return e \<and> e \<noteq> 0) \<or>
        (out = Return 0 \<and> res = 0 \<or> out = LongJmp \<and> 0 < res) \<and>
        proc_files (view w') = (proc_files (view w))(0 \<mapsto> null, 1 \<mapsto> path @ ''/std.log'', 2 \<mapsto> path @ ''/std.log'')))"
proof -
  let ?D = "proc_dumps (view w)" and ?null = "(proc_files (view w))(0 \<mapsto> null, 1 \<mapsto> null, 2 \<mapsto> null)"
  let ?p = "\<lambda>d. \<lparr>proc_files = ?null(d \<mapsto> path), proc_leader = True,
    proc_opts = [WorkDirFd d, LogFile ''dump.log'', LogLevel 4, LeaveRunning True]\<rparr>"
  let ?Q = "\<lambda>x. \<exists>d. ?null d = None \<and> dumped view ?D (?p d) d path x"
  have "unless_error view ?D ?Q (take_initial_chkpt k C path service w)"
    unfolding take_initial_chkpt_def
    apply (rule redirect_null_files [OF k refl std])
    apply (rule must_setsid [OF k], simp)
    apply (rule must_open [OF k], simp)
    apply (rule unless_error_mono [OF options_step [OF k C]])
    apply (auto simp: proc_of_def split: if_splits)
    done
  then consider "(\<exists>e. out = Return e \<and> e \<noteq> 0) \<and> proc_dumps (view w') = ?D" | d where "?null d = None" "dumped view ?D (?p d) d path (out, w')"
    by (auto simp: run unless_error_def)
  then show ?thesis
  proof cases
    case (2 d)
    have d: "d \<notin> {0, 1, 2}" using 2(1) by (auto split: if_splits)
    then have std_log: "(?null(d \<mapsto> path))(1 \<mapsto> l, 2 \<mapsto> l, d := None) = (proc_files (view w))(0 \<mapsto> null, 1 \<mapsto> l, 2 \<mapsto> l)" for l
      using 2(1) by (auto simp: fun_eq_iff)
    obtain res i where r: "proc_dumps (view w') = ?D @ [(res, (?p d)\<lparr>proc_files := (?null(d \<mapsto> path))(i \<mapsto> path @ ''/initial_chkpt''),
          proc_opts := proc_opts (?p d) @ [ImagesDirFd i]\<rparr>)]" "(?null(d \<mapsto> path)) i = None"
      "(\<exists>e. out = Return e \<and> e \<noteq> 0) \<or> (out = Return 0 \<and> res = 0 \<or> out = LongJmp \<and> 0 < res) \<and>
         proc_files (view w') = (?null(d \<mapsto> path))(1 \<mapsto> path @ ''/std.log'', 2 \<mapsto> path @ ''/std.log'', d := None)"
      using 2(2) unfolding dumped_def by auto
    have i: "i \<notin> {0, 1, 2, d}" using r(2) by (auto split: if_splits)
    show ?thesis
      using r(1,3) d i unfolding std_log
      by (intro disjI2 exI [of _ res] exI [of _ "(?p d)\<lparr>proc_files := (?null(d \<mapsto> path))(i \<mapsto> path @ ''/initial_chkpt''),
          proc_opts := proc_opts (?p d) @ [ImagesDirFd i]\<rparr>"] exI [of _ d] exI [of _ i]) simp
  qed simp
qed

section \<open>A kernel and a CRIU with this behaviour\<close>

type_synonym chk = "observed \<times> int"

abbreviation chk_fail :: "chk \<Rightarrow> (u64 \<times> byte list) \<times> chk" where "chk_fail w \<equiv> ((- 1, []), w)"

definition chk_open :: "string \<Rightarrow> chk \<Rightarrow> (u64 \<times> byte list) \<times> chk" where
  "chk_open p w = (case w of (v, n) \<Rightarrow>
     if 0 \<le> n \<and> n < 2147483648 \<and> proc_files v n = None
     then ((word_of_int n, []), (v\<lparr>proc_files := (proc_files v)(n \<mapsto> p)\<rparr>, n + 1)) else chk_fail w)"

definition chk_call :: "u64 \<Rightarrow> sysarg option \<Rightarrow> sysarg option \<Rightarrow> chk \<Rightarrow> (u64 \<times> byte list) \<times> chk" where
  "chk_call n a b w = (case w of (v, m) \<Rightarrow>
     if n = 2 then (case a of Some (Str p) \<Rightarrow> chk_open p w | _ \<Rightarrow> chk_fail w)
     else if n = 257 then (case (a, b) of (Some (Num d), Some (Str p)) \<Rightarrow>
         (case proc_files v (to_int d) of Some q \<Rightarrow> chk_open (q @ ''/'' @ p) w | None \<Rightarrow> chk_fail w) | _ \<Rightarrow> chk_fail w)
     else if n = 33 then (case (a, b) of (Some (Num x), Some (Num y)) \<Rightarrow>
         (case proc_files v (to_int x) of Some p \<Rightarrow> ((0, []), (v\<lparr>proc_files := (proc_files v)(to_int y \<mapsto> p)\<rparr>, m)) | None \<Rightarrow> chk_fail w) | _ \<Rightarrow> chk_fail w)
     else if n = 3 then (case a of Some (Num x) \<Rightarrow> ((0, []), (v\<lparr>proc_files := (proc_files v)(to_int x := None)\<rparr>, m)) | _ \<Rightarrow> chk_fail w)
     else if n = 112 then ((7, []), (v\<lparr>proc_leader := True\<rparr>, m))
     else ((0, []), w))"

definition chk_kernel :: "chk kernel" where
  "chk_kernel g w = (case g RAX of Some (Num n) \<Rightarrow> chk_call n (g RDI) (g RSI) w | _ \<Rightarrow> chk_fail w)"

definition chk_criu :: "int \<Rightarrow> chk criu" where
  "chk_criu res = \<lparr>criu_init_opts = (\<lambda>(v, n). (0, (v\<lparr>proc_opts := []\<rparr>, n))), criu_set_service_address = (\<lambda>_ w. (0, w)),
     criu_set = (\<lambda>p (v, n). (v\<lparr>proc_opts := proc_opts v @ [p]\<rparr>, n)),
     criu_dump = (\<lambda>(v, n). (res, (v\<lparr>proc_dumps := proc_dumps v @ [(res, proc_of v)]\<rparr>, n))), create_directories = (\<lambda>_ w. w)\<rparr>"

lemma chk_criu_observed: "criu_observed (chk_criu res) fst"
  by (auto simp: criu_observed_def chk_criu_def split: prod.splits)

lemma chk_calls:
  "my_open chk_kernel p fl md w = (case chk_open p w of ((r, _), w') \<Rightarrow> (to_int r, w'))"
  "my_openat chk_kernel d p fl md w = (case chk_call 257 (Some (num d)) (Some (Str p)) w of ((r, _), w') \<Rightarrow> (to_int r, w'))"
  "my_dup2 chk_kernel x y w = (case chk_call 33 (Some (num x)) (Some (num y)) w of ((r, _), w') \<Rightarrow> (to_int r, w'))"
  "my_close chk_kernel x w = (case chk_call 3 (Some (num x)) None w of ((r, _), w') \<Rightarrow> (to_int r, w'))"
  "my_setsid chk_kernel w = (7, ((fst w)\<lparr>proc_leader := True\<rparr>, snd w))"
  "my_mkdirat chk_kernel d p md w = (0, w)"
  by (simp_all add: my_open_def my_openat_def my_dup2_def my_close_def my_setsid_def my_mkdirat_def syscall_def syscall_regs_def
      chk_kernel_def chk_call_def to_int_def split: prod.splits)

lemma to_int_minus_1 [simp]: "to_int (- 1) = - 1"
  using to_int_of [of "- 1"] by simp

lemma chk_opens: "chk_open p w = ((r, bs), w') \<Longrightarrow> opens (fst w) p (to_int r) (fst w')"
  by (auto simp: chk_open_def opens_def int32_I split: prod.splits if_splits)

lemma chk_kernel_observed: "kernel_observed chk_kernel fst"
  unfolding kernel_observed_def
proof (intro conjI)
  show "\<forall>p fl md w r w'. my_open chk_kernel p fl md w = (r, w') \<longrightarrow> opens (fst w) p r (fst w')"
    by (auto simp: chk_calls split: prod.splits dest!: chk_opens)
  show "\<forall>d q p fl md w r w'. my_openat chk_kernel d p fl md w = (r, w') \<longrightarrow> int32 d \<longrightarrow> proc_files (fst w) d = Some q \<longrightarrow>
      opens (fst w) (q @ ''/'' @ p) r (fst w')"
    by (auto simp: chk_calls chk_call_def split: prod.splits dest!: chk_opens)
qed (auto simp: chk_calls chk_call_def to_int_def [of 0] split: prod.splits if_splits)

definition chk_start :: chk where
  "chk_start = (\<lparr>proc_files = [0 \<mapsto> ''tty'', 1 \<mapsto> ''tty'', 2 \<mapsto> ''tty''], proc_leader = False, proc_opts = [], proc_dumps = []\<rparr>, 3)"

lemma chk_run:
  "fst (take_initial_chkpt chk_kernel (chk_criu 1) ''/pmem'' ''/criu'' chk_start) = LongJmp"
  by (simp add: take_initial_chkpt_def redirect_null_def redirect_log_def must_succeed_def Let_def chk_calls chk_call_def chk_open_def chk_criu_def
      chk_start_def to_int_def)

theorem take_initial_chkpt_dump_witness:
  "\<exists>w' res p d i. take_initial_chkpt chk_kernel (chk_criu 1) ''/pmem'' ''/criu'' chk_start = (LongJmp, w') \<and>
     proc_dumps (fst w') = [(res, p)] \<and> 0 < res \<and> proc_files p 0 = Some null \<and> proc_leader p \<and>
     proc_files p d = Some ''/pmem'' \<and> proc_files p i = Some ''/pmem/initial_chkpt'' \<and>
     proc_files (fst w') = [0 \<mapsto> null, 1 \<mapsto> ''/pmem/std.log'', 2 \<mapsto> ''/pmem/std.log'']"
proof -
  obtain w' where w': "take_initial_chkpt chk_kernel (chk_criu 1) ''/pmem'' ''/criu'' chk_start = (LongJmp, w')"
    using chk_run by (metis prod.collapse)
  show ?thesis
    using take_initial_chkpt_dump [OF chk_kernel_observed chk_criu_observed _ _ _ w'] w' by (auto simp: chk_start_def)
qed

end
