(* ===== verification/Background.thy ===== *)
theory Background
  imports Psm_Queue Sga Instrument Chkpt
begin

text \<open>
  The background process: the loop of \<^verbatim>\<open>src/src/bg.cc\<close> that takes commands from the log, runs them under
  instrumentation and commits (\<open>BATCH_COMMIT\<close> is 0: one command at a time). Both logs lie in
  the same persistent memory; \<open>psm_mem\<close> and \<open>ul_mem\<close> are kept equal. The consume function is a
  parameter: a function of the address of an entry and of the state.
\<close>

section \<open>State\<close>

record 'w bg =
  psm_of :: psm
  instr_of :: "'w instrument"
  chkpt_of :: chkpt_state
  recovered :: bool
  recovered_tail :: int

abbreviation bg_mem :: "'w bg \<Rightarrow> mem" where
  "bg_mem b \<equiv> cur (psm_mem (psm_of b))"

text \<open>Putting a memory into both views.\<close>

definition set_mem :: "pmem \<Rightarrow> 'w bg \<Rightarrow> 'w bg" where
  "set_mem P b = b\<lparr>psm_of := (psm_of b)\<lparr>psm_mem := P\<rparr>,
     instr_of := (instr_of b)\<lparr>ul := (ul (instr_of b))\<lparr>ul_mem := P\<rparr>\<rparr>\<rparr>"

section \<open>Consuming\<close>

text \<open>
  The inner loop of \<open>_bg_consume\<close>: \<open>heads i\<close> is what the \<open>i\<close>-th load of the shared head returns.
  While nothing has been consumed it spins.
\<close>

partial_function (option) bg_spin ::
  "(addr \<Rightarrow> 'w bg \<Rightarrow> (int \<times> 'w bg) result option) \<Rightarrow> (nat \<Rightarrow> u64) \<Rightarrow> nat \<Rightarrow> u64 \<Rightarrow> 'w bg \<Rightarrow> (int \<times> 'w bg) result option" where
  "bg_spin f heads i tl_off b =
     (case consume bg_mem f (buf_at (log_base (psm_of b))) (heads i) tl_off b of
        None \<Rightarrow> None
      | Some (Inl e) \<Rightarrow> Some (Inl e)
      | Some (Inr (nt, b')) \<Rightarrow>
          if to_int nt = - 1 then bg_spin f heads (Suc i) tl_off b' else Some (Inr (to_int nt, b')))"

definition bg_commit :: "'w env \<Rightarrow> 'w criu \<Rightarrow> u64 \<Rightarrow> 'w bg \<Rightarrow> 'w bg result option" where
  "bg_commit E C tl_off b =
     (case mode (psm_of b) of
        PSM_MODE_NO_PERSIST \<Rightarrow> Some (Inr b)
      | PSM_MODE_UNDO \<Rightarrow>
          bind_ro (instrument_commit E (to_int tl_off) (instr_of b))
            (\<lambda>s. Some (Inr (set_mem (ul_mem (ul s)) (b\<lparr>instr_of := s\<rparr>))))
      | PSM_MODE_CHKPT \<Rightarrow>
          (case chkpt_commit (kern E) C (chkpt_of b) (world (instr_of b)) of
             (Return _, st, w) \<Rightarrow> Some (Inr (b\<lparr>chkpt_of := st, instr_of := (instr_of b)\<lparr>world := w\<rparr>\<rparr>))
           | (LongJmp, _, _) \<Rightarrow> Some (Inl Longjmp)
           | (Aborted, _, _) \<Rightarrow> Some (Inl Abort)))"

definition bg_update_tail :: "u64 \<Rightarrow> 'w bg \<Rightarrow> 'w bg" where
  "bg_update_tail tl_off b = (let p = update_tail tl_off (psm_of b) in set_mem (psm_mem p) (b\<lparr>psm_of := p\<rparr>))"

definition bg_cleanup :: "bool \<Rightarrow> 'w env \<Rightarrow> 'w bg \<Rightarrow> 'w bg result" where
  "bg_cleanup dedup E b =
     (if mode (psm_of b) = PSM_MODE_UNDO
      then bind_result (instrument_cleanup dedup E (instr_of b))
             (\<lambda>s. Inr (set_mem (ul_mem (ul s)) (b\<lparr>instr_of := s\<rparr>)))
      else Inr b)"

text \<open>From the first load of the head to \<open>update_tail\<close>.\<close>

definition bg_execute ::
  "'w env \<Rightarrow> 'w criu \<Rightarrow> (addr \<Rightarrow> 'w bg \<Rightarrow> (int \<times> 'w bg) result option) \<Rightarrow> (nat \<Rightarrow> u64) \<Rightarrow> u64 \<Rightarrow> 'w bg \<Rightarrow>
   (u64 \<times> 'w bg) result option" where
  "bg_execute E C f heads tl_off b =
     bind_ro (bg_spin f heads 0 tl_off b) (\<lambda>(new_tail, b1).
       let tl_off' = word_of_int new_tail; b2 = b1\<lparr>instr_of := (instr_of b1)\<lparr>should_commit := False\<rparr>\<rparr> in
       bind_ro (bg_commit E C tl_off' b2) (\<lambda>b3. Some (Inr (tl_off', bg_update_tail tl_off' b3))))"

definition bg_consume ::
  "bool \<Rightarrow> 'w env \<Rightarrow> 'w criu \<Rightarrow> (addr \<Rightarrow> 'w bg \<Rightarrow> (int \<times> 'w bg) result option) \<Rightarrow> (nat \<Rightarrow> u64) \<Rightarrow> u64 \<Rightarrow> 'w bg \<Rightarrow>
   (u64 \<times> 'w bg) result option" where
  "bg_consume dedup E C f heads tl_off b =
     bind_ro (bg_execute E C f heads tl_off b) (\<lambda>(tl_off', b4).
       Some (bind_result (bg_cleanup dedup E b4) (\<lambda>b5. Inr (tl_off', b5))))"

text \<open>
  \<open>run_consumer\<close> never returns; its states are those reached after any number of rounds, the first
  from the shared tail.
\<close>

inductive run_consumer ::
  "bool \<Rightarrow> 'w env \<Rightarrow> 'w criu \<Rightarrow> (addr \<Rightarrow> 'w bg \<Rightarrow> (int \<times> 'w bg) result option) \<Rightarrow> 'w bg \<Rightarrow> u64 \<Rightarrow> 'w bg \<Rightarrow> bool"
  for dedup E C f b0 where
  start: "run_consumer dedup E C f b0 (tail (psm_of b0)) b0"
| round: "run_consumer dedup E C f b0 tl_off b \<Longrightarrow> bg_consume dedup E C f heads tl_off b = Some (Inr (tl_off', b')) \<Longrightarrow>
    run_consumer dedup E C f b0 tl_off' b'"

section \<open>Starting\<close>

text \<open>
  \<open>instrument_init\<close>: \<open>start\<close> stands for \<open>dr_app_setup_and_start\<close>, which runs \<open>dr_client_main\<close>.
\<close>

definition instrument_init ::
  "'w env \<Rightarrow> 'w criu \<Rightarrow> ('w bg \<Rightarrow> (int \<times> 'w bg) result option) \<Rightarrow> string \<Rightarrow> string \<Rightarrow> 'w bg \<Rightarrow> (int \<times> 'w bg) result option" where
  "instrument_init E C start pmem_path criu_service_path b =
     (if \<not> recovered b
      then case take_initial_chkpt (kern E) C pmem_path criu_service_path (world (instr_of b)) of
             (Return res, w) \<Rightarrow>
               let b' = b\<lparr>instr_of := (instr_of b)\<lparr>world := w\<rparr>\<rparr> in
               if res \<noteq> 0 then Some (Inr (res, b')) else start b'
           | (LongJmp, w) \<Rightarrow> Some (Inl Longjmp)
           | (Aborted, w) \<Rightarrow> Some (Inl Abort)
      else start b)"

text \<open>\<open>bg_run\<close> up to \<open>run_consumer\<close>.\<close>

definition bg_run_init ::
  "'w env \<Rightarrow> 'w criu \<Rightarrow> ('w bg \<Rightarrow> (int \<times> 'w bg) result option) \<Rightarrow> string \<Rightarrow> string \<Rightarrow> 'w bg \<Rightarrow> 'w bg result option" where
  "bg_run_init E C start pmem_path criu_service_path b =
     bind_ro
       (case mode (psm_of b) of
          PSM_MODE_NO_PERSIST \<Rightarrow> Some (Inr (0, b))
        | PSM_MODE_UNDO \<Rightarrow>
            (let b1 = b\<lparr>recovered_tail := to_int (load_u64 (bg_mem b) (tail_at (log_base (psm_of b)))),
                        instr_of := (instr_of b)\<lparr>should_commit := False\<rparr>\<rparr> in
             bind_ro (instrument_init E C start pmem_path criu_service_path b1) (\<lambda>(res, b2).
               Some (Inr (res,
                 if recovered b2 \<and> recovered_tail b2 \<noteq> - 1 then bg_update_tail (word_of_int (recovered_tail b2)) b2
                 else b2))))
        | PSM_MODE_CHKPT \<Rightarrow>
            (case chkpt_init (kern E) C (chkpt_of b) (world (instr_of b)) of
               (res, w) \<Rightarrow> Some (Inr (res, b\<lparr>instr_of := (instr_of b)\<lparr>world := w\<rparr>\<rparr>))))
       (\<lambda>(res, b'). if res \<noteq> 0 then Some (Inl Abort) else Some (Inr b'))"

definition bg_run ::
  "bool \<Rightarrow> 'w env \<Rightarrow> 'w criu \<Rightarrow> ('w bg \<Rightarrow> (int \<times> 'w bg) result option) \<Rightarrow> string \<Rightarrow> string \<Rightarrow>
   (addr \<Rightarrow> 'w bg \<Rightarrow> (int \<times> 'w bg) result option) \<Rightarrow> (psm_sgarray \<Rightarrow> 'w bg \<Rightarrow> 'w bg result option) \<Rightarrow> bool \<Rightarrow>
   'w bg \<Rightarrow> 'w bg \<Rightarrow> bool" where
  "bg_run dedup E C start pmem_path criu_service_path consume_func consume_sga use_sga b b' \<longleftrightarrow>
     (\<exists>b1 tl_off. bg_run_init E C start pmem_path criu_service_path b = Some (Inr b1) \<and>
        run_consumer dedup E C (if use_sga then sga_consume bg_mem consume_sga else consume_func) b1 tl_off b')"

end
