(* ===== verification/Undo_Tail.thy ===== *)
theory Undo_Tail
  imports Undo_Crash Psm_Log
begin

text \<open>
  One round of the background process at the level of the two logs: an epoch of the application, its
  commit, and the write of the tail of the operation log, which lies outside the undo log and outside the
  memory that is tracked. The lemmas here extend the invariant of the commit to the tail word.
\<close>

section \<open>Writing a word after the commit record\<close>

lemma committing_mono:
  assumes "committing B A m0 F D m1 w es P" and "F \<subseteq> F'" and "D' \<subseteq> D"
  shows "committing B A m0 F' D' m1 w es P"
proof -
  have "saved m0 F' es" using assms(1,2) by (auto simp: committing_def saved_def)
  moreover have "\<forall>m \<in> set (pv P (line x)). m x = m1 x" if "\<not> in_log B x" "x \<in> D'" for x
    using assms(1) that subsetD [OF assms(3)] unfolding committing_def by blast
  moreover have "\<forall>m \<in> set (pv P (line x)). m x = m0 x \<or> undo_block x \<in> addrs es" if "\<not> in_log B x" "x \<notin> F'" for x
    using assms(1) that subsetD [OF assms(2)] unfolding committing_def by blast
  ultimately show ?thesis using assms(1) unfolding committing_def by blast
qed

lemma committing_store_off:
  assumes c: "committing B A m0 F D m1 w es P" and off: "off_log B a (length bs)"
    and W: "\<And>x. unat (x - a) < length bs \<Longrightarrow> x \<in> F \<and> x \<notin> D"
  shows "committing B A m0 F D m1 w es (pm_step (Store a bs) P)"
proof -
  let ?P = "pm_step (Store a bs) P" and ?m = "wr a bs (cur P)"
  note cur = committing_current [OF c]
  have e: "ent B ?m j = ent B (cur P) j" if "j < UNDO_NUM_ENTRIES" for j
    by (rule ent_wr_off_log [OF cur(1) that off])
  have byte: "?m x = cur P x" if "x \<in> D \<or> x \<notin> F" for x
    using W [of x] that by (intro wr_out) (metis not_le)
  have "wf_pm ?P" using c by (intro wf_pm_step) (simp add: committing_def)
  moreover have "\<forall>m \<in> set (pv ?P (eline B j)). ent B m j = es ! j" if "j < length es" for j
    using that c cur(2) cur(3) [OF that] e [of j] by (simp add: committing_def)
  moreover have "\<forall>m \<in> set (pv ?P (eline B (length es))). entry_addr (ent B m (length es)) = 0 \<and>
        commit_tail (ent B m (length es)) \<in> {0, w}"
    using c cur(2,4,5) e [of "length es"] by (simp add: committing_def)
  moreover have "\<forall>m \<in> set (pv ?P (eline B j)). is_null (ent B m j)" if "length es < j" "j < UNDO_NUM_ENTRIES" for j
    using that c cur(6) [OF that] e [of j] by (simp add: committing_def)
  moreover have "\<forall>m \<in> set (pv ?P (line x)). m x = m1 x" if "\<not> in_log B x" "x \<in> D" for x
    using that c cur(7) [OF that] byte [of x] by (simp add: committing_def)
  moreover have "\<forall>m \<in> set (pv ?P (line x)). m x = m0 x \<or> undo_block x \<in> addrs es" if "\<not> in_log B x" "x \<notin> F" for x
    using that c cur(8) [OF that] byte [of x] by (auto simp: committing_def)
  ultimately show ?thesis using c unfolding committing_def by blast
qed

lemma committed_steps:
  assumes f: "committed B w n P" and "wf_pm P" and "log_base_ok B" and "n < UNDO_NUM_ENTRIES"
  shows "off_log B a (length bs) \<Longrightarrow> committed B w n (pm_step (Store a bs) P)"
    and "committed B w n (pmem_flush a P)" and "committed B w n (pmem_drain P)"
proof -
  have s: "cur P \<in> set (pv P l)" "set (fv P l) \<subseteq> set (pv P l)" for l using assms(2) by (auto simp: wf_pm_def)
  show "committed B w n (pmem_flush a P)" using f by (simp add: committed_def pmem_flush_def)
  show "committed B w n (pmem_drain P)" using f s by (auto simp: committed_def pmem_drain_def)
  show "committed B w n (pm_step (Store a bs) P)" if "off_log B a (length bs)"
    using f s(1) ent_wr_off_log [OF assms(3,4) that] by (simp add: committed_def)
qed

text \<open>The state from the commit record on, while a word outside the log may be in flight.\<close>

definition tail_phase ::
  "addr \<Rightarrow> addr set \<Rightarrow> mem \<Rightarrow> addr set \<Rightarrow> addr set \<Rightarrow> mem \<Rightarrow> u64 \<Rightarrow> undo_log_entry list \<Rightarrow> pmem \<Rightarrow> bool" where
  "tail_phase B A m0 F D m1 w es P \<longleftrightarrow> committing B A m0 F D m1 w es P \<and> committed B w (length es) P"

lemma tail_phase_steps:
  assumes "tail_phase B A m0 F D m1 w es P"
  shows "off_log B a (length bs) \<Longrightarrow> (\<And>x. unat (x - a) < length bs \<Longrightarrow> x \<in> F \<and> x \<notin> D) \<Longrightarrow>
      tail_phase B A m0 F D m1 w es (pm_step (Store a bs) P)"
    and "tail_phase B A m0 F D m1 w es (pmem_flush a P)" and "tail_phase B A m0 F D m1 w es (pmem_drain P)"
proof -
  have c: "committing B A m0 F D m1 w es P" and f: "committed B w (length es) P"
    using assms by (auto simp: tail_phase_def)
  have p: "wf_pm P" "log_base_ok B" "length es < UNDO_NUM_ENTRIES" using c by (auto simp: committing_def)
  note s = committed_steps [OF f p]
  show "tail_phase B A m0 F D m1 w es (pmem_flush a P)" "tail_phase B A m0 F D m1 w es (pmem_drain P)"
    using committing_flush [OF c] committing_fence [OF c] s(2,3) by (auto simp: tail_phase_def)
  show "tail_phase B A m0 F D m1 w es (pm_step (Store a bs) P)"
    if "off_log B a (length bs)" "\<And>x. unat (x - a) < length bs \<Longrightarrow> x \<in> F \<and> x \<notin> D"
    using committing_store_off [OF c that] s(1) [OF that(1)] by (auto simp: tail_phase_def)
qed

lemma persist_word_phase:
  assumes t: "tail_phase B A m0 F D m1 w es P" and off: "off_log B a 8" and al: "unat a mod 64 = 0"
  shows "safe_run (tail_phase B A m0 (F \<union> word_at a) (D - word_at a) m1 w es) P (persist_word a v P)"
    and "tail_phase B A m0 (F \<union> word_at a) (D \<union> word_at a) (wr a (le_bytes 8 v) m1) w es (persist_word a v P)"
proof -
  let ?bs = "le_bytes 8 v" and ?m1 = "wr a (le_bytes 8 v) m1"
  let ?I = "tail_phase B A m0 (F \<union> word_at a) (D - word_at a) m1 w es"
  define P1 where "P1 = pm_step (Store a ?bs) P"
  have len: "length ?bs = 8" by (simp del: le_bytes.simps)
  have i0: "?I P" using t committing_mono unfolding tail_phase_def by blast
  have i1: "?I P1" unfolding P1_def using off len by (intro tail_phase_steps(1) [OF i0]) auto
  note i2 = tail_phase_steps(2) [OF i1, of a]
  note i3 = tail_phase_steps(3) [OF i2]
  have "safe_run ?I P P1" using i0 i1 unfolding P1_def by (rule safe_run_step)
  also have "safe_run ?I P1 (pmem_flush a P1)" using i1 i2 unfolding pmem_flush_def by (rule safe_run_step)
  also have "safe_run ?I (pmem_flush a P1) (pmem_drain (pmem_flush a P1))"
    using i2 i3 unfolding pmem_drain_def by (rule safe_run_step)
  finally have sr: "safe_run ?I P (pmem_drain (pmem_flush a P1))" .
  have pw: "persist_word a v P = pmem_drain (pmem_flush a P1)" by (simp add: persist_word_def store_u64_def P1_def)
  show "safe_run ?I P (persist_word a v P)" unfolding pw by (rule sr)
  have c: "committing B A m0 (F \<union> word_at a) (D - word_at a) m1 w es (persist_word a v P)"
    and f: "committed B w (length es) (persist_word a v P)" using i3 by (auto simp: pw tail_phase_def)
  have "m x = ?m1 x" if x: "\<not> in_log B x" "x \<in> D \<union> word_at a" "m \<in> set (pv (persist_word a v P) (line x))" for m x
  proof (cases "x \<in> word_at a")
    case True
    then have "line x = line a" using line_window [OF al, of x] by simp
    then have "m = wr a ?bs (cur P)" using x(3) by (simp add: pw P1_def pmem_drain_def pmem_flush_def)
    then show ?thesis using True len by (simp add: wr_def del: le_bytes.simps)
  next
    case False
    then have "m x = m1 x" using x c unfolding committing_def by blast
    then show ?thesis using False len by (simp add: wr_def del: le_bytes.simps)
  qed
  then have "committing B A m0 (F \<union> word_at a) (D \<union> word_at a) ?m1 w es (persist_word a v P)"
    using c unfolding committing_def by blast
  then show "tail_phase B A m0 (F \<union> word_at a) (D \<union> word_at a) ?m1 w es (persist_word a v P)"
    using f by (simp add: tail_phase_def)
qed

section \<open>One round\<close>

text \<open>
  Restarting after a power failure, with the tail that the background process goes on from: the
  one of the commit record, or else the word in the image (\<open>instrument_args.recovered_tail\<close>).
\<close>

definition recovered_tail_of :: "addr \<Rightarrow> mem \<Rightarrow> (int \<times> undo_log \<times> 'm) result option \<Rightarrow> u64 option" where
  "recovered_tail_of a img r =
     (case r of
        Some (Inr (tn, _)) \<Rightarrow> Some (if tn \<noteq> - 1 then word_of_int tn else load_u64 img a)
      | _ \<Rightarrow> None)"

text \<open>A word that no operation of the application touches.\<close>

definition word_apart :: "addr \<Rightarrow> addr set \<Rightarrow> addr set \<Rightarrow> addr \<Rightarrow> bool" where
  "word_apart B A F a \<longleftrightarrow> unat a mod 64 = 0 \<and> off_log B a 8 \<and>
     (\<forall>x. unat (x - a) < 8 \<longrightarrow> undo_block x \<notin> A \<and> x \<notin> F)"

lemma load_u64_cong: "(\<And>x. unat (x - a) < 8 \<Longrightarrow> m x = m' x) \<Longrightarrow> load_u64 m a = load_u64 m' a"
  unfolding load_u64_def by (intro arg_cong [where f = le_word] rd_cong) (simp add: unat_of_nat_small)

lemma recovering_word:
  assumes "recovering B A m0 F J es (boot img)" and "word_apart B A F a"
  shows "load_u64 img a = load_u64 m0 a"
proof (rule load_u64_cong)
  fix x
  assume x: "unat (x - a) < 8"
  then have "\<not> in_log B x" "x \<notin> F" "undo_block x \<notin> A" using assms(2) by (auto simp: word_apart_def off_log_def)
  moreover from this have "undo_block x \<notin> addrs es" using assms(1) by (auto simp: recovering_def good_entry_def)
  ultimately show "img x = m0 x" using assms(1) unfolding recovering_def by fastforce
qed

lemma rolled_forward_mono:
  "rolled_forward B m D tn mgr r \<Longrightarrow> D' \<subseteq> D \<Longrightarrow> rolled_forward B m D' tn mgr r"
  unfolding rolled_forward_def by blast

text \<open>The two outcomes of a restart, each with its tail.\<close>

definition all_or_nothing ::
  "addr \<Rightarrow> addr \<Rightarrow> mem \<Rightarrow> addr set \<Rightarrow> mem \<Rightarrow> addr set \<Rightarrow> u64 \<Rightarrow> 'm \<Rightarrow> 'm \<Rightarrow> mem \<Rightarrow> (int \<times> undo_log \<times> 'm) result option \<Rightarrow> bool" where
  "all_or_nothing B a m0 F m1 D nt mgr1 mgr2 img r \<longleftrightarrow>
     rolled_back B m0 F mgr1 r \<and> recovered_tail_of a img r = Some (load_u64 m0 a) \<or>
     rolled_forward B m1 D (uint nt) mgr2 r \<and> recovered_tail_of a img r = Some nt"

lemma all_or_nothing_cong:
  "all_or_nothing B a m0 F m D nt mgr1 mgr2 img r \<Longrightarrow> (\<And>x. \<not> in_log B x \<Longrightarrow> m x = m' x) \<Longrightarrow>
   all_or_nothing B a m0 F m' D nt mgr1 mgr2 img r"
  using rolled_forward_cong [of B m D "uint nt" mgr2 r m'] by (auto simp: all_or_nothing_def)

lemma rolled_back_outcome:
  assumes "recovering B A m0 F J es (boot img)" and "word_apart B A F a"
    and "rolled_back B m0 F mgr1 r"
  shows "all_or_nothing B a m0 F m1 D nt mgr1 mgr2 img r"
  using assms(3) recovering_word [OF assms(1,2)]
  by (auto simp: all_or_nothing_def rolled_back_def recovered_tail_of_def)

lemma rolled_forward_outcome:
  assumes "rolled_forward B m1 D' (uint nt) mgr2 r" and "D \<subseteq> D'"
  shows "all_or_nothing B a m0 F m1 D nt mgr1 mgr2 img r"
proof -
  have "uint nt \<noteq> - 1" using uint_ge_0 [of nt] by linarith
  then have "recovered_tail_of a img r = Some nt"
    using assms(1) by (auto simp: rolled_forward_def recovered_tail_of_def)
  then show ?thesis using rolled_forward_mono [OF assms] by (simp add: all_or_nothing_def)
qed

text \<open>
  From the start of the epoch to the end of the write of the tail: \<open>u\<close> is the log before, \<open>u'\<close> after
  the application and \<open>u''\<close> after the commit. At every step one of three invariants holds; at the end
  the third one, over the memory with the new tail.
\<close>

definition round_inv ::
  "addr \<Rightarrow> addr set \<Rightarrow> mem \<Rightarrow> addr set \<Rightarrow> addr set \<Rightarrow> addr \<Rightarrow> u64 \<Rightarrow> undo_log_entry list \<Rightarrow> mem \<Rightarrow> pmem \<Rightarrow> bool" where
  "round_inv B A m0 F D a nt es m1 Q \<longleftrightarrow>
     crash_safe B A m0 F Q \<or> committing B A m0 F D m1 (word_of_int (uint nt + 1)) es Q \<or>
     tail_phase B A m0 (F \<union> word_at a) (D - word_at a) m1 (word_of_int (uint nt + 1)) es Q"

definition round_run ::
  "addr \<Rightarrow> addr set \<Rightarrow> mem \<Rightarrow> addr set \<Rightarrow> addr set \<Rightarrow> addr \<Rightarrow> u64 \<Rightarrow> undo_log \<Rightarrow> undo_log \<Rightarrow> undo_log \<Rightarrow> bool" where
  "round_run B A m0 F D a nt u u' u'' \<longleftrightarrow>
     (\<exists>es. safe_run (round_inv B A m0 F D a nt es (cur (ul_mem u'))) (ul_mem u) (persist_word a nt (ul_mem u'')) \<and>
        tail_phase B A m0 (F \<union> word_at a) (D \<union> word_at a) (wr a (le_bytes 8 nt) (cur (ul_mem u')))
          (word_of_int (uint nt + 1)) es (persist_word a nt (ul_mem u'')) \<and>
        ul_log u'' = B \<and> ul_len u'' = Suc (length es)) \<and>
     (\<forall>x. \<not> in_log B x \<longrightarrow> x \<notin> F \<longrightarrow> undo_block x \<notin> A \<longrightarrow> cur (ul_mem u') x = m0 x)"

lemma epoch_round:
  fixes a S nt skip
  assumes st: "log_state dedup B A m0 F 0 [] ul" and fr: "fresh_ok (fresh_regions ul)" and sub: "unprotected S ops \<subseteq> F"
    and ops: "\<forall>p \<in> set ops. op_ok B S p" "tracked A skip (fresh_regions ul) ops"
    and room: "Suc (sum_list (map op_blocks ops)) < UNDO_NUM_ENTRIES"
    and wa: "word_apart B A F a"
  defines "D \<equiv> - F \<union> ranges_set (fold fresh_after ops (fresh_regions ul))"
  obtains u' flag' u'' where
    "run_app dedup skip ops (ul, flag) = Some (Inr (u', flag'))" "undo_log_commit (uint nt) u' = Some (Inr u'')"
    "\<And>x. \<not> in_log B x \<Longrightarrow> cur (ul_mem u') x = app_effect ops (cur (ul_mem ul)) x"
    "round_run B A m0 F D a nt ul u' u''"
proof -
  let ?w = "word_of_int (uint nt + 1) :: u64"
  have off: "off_log B a 8" and al: "unat a mod 64 = 0" using wa by (auto simp: word_apart_def)
  have st0: "log_state dedup B A m0 F (length ([] :: undo_log_entry list)) [] ul" using st by simp
  obtain es u' flag' where r: "run_app dedup skip ops (ul, flag) = Some (Inr (u', flag'))"
    "log_state dedup B A m0 F (length es) es u'" "length es \<le> sum_list (map op_blocks ops)"
    "fresh_regions u' = fold fresh_after ops (fresh_regions ul)" "safe_run (crash_safe B A m0 F) (ul_mem ul) (ul_mem u')"
    "\<And>x. \<not> in_log B x \<Longrightarrow> cur (ul_mem u') x = app_effect ops (cur (ul_mem ul)) x"
    using run_app_correct [OF st0 ops _ sub] room by fastforce
  let ?m1 = "cur (ul_mem u')" and ?I = "round_inv B A m0 F D a nt es (cur (ul_mem u'))"
  have fr': "fresh_ok (fresh_regions u')" unfolding r(4) by (rule fresh_ok_fold [OF fr ops(1)])
  have "Suc (length es) < UNDO_NUM_ENTRIES" using r(3) room by simp
  from undo_log_commit_correct [OF r(2) fr' this, of "uint nt", unfolded r(4), folded D_def]
  obtain u'' where c: "undo_log_commit (uint nt) u' = Some (Inr u'')"
    "safe_run (\<lambda>Q. crash_safe B A m0 F Q \<or> committing B A m0 F D ?m1 ?w es Q) (ul_mem u') (ul_mem u'')"
    "committing B A m0 F D ?m1 ?w es (ul_mem u'')" "committed B ?w (length es) (ul_mem u'')"
    "ul_log u'' = B" "ul_len u'' = Suc (length es)" by blast
  have t: "tail_phase B A m0 F D ?m1 ?w es (ul_mem u'')" using c(3,4) by (simp add: tail_phase_def)
  have "safe_run ?I (ul_mem ul) (ul_mem u')" using r(5) by (rule safe_run_mono) (simp add: round_inv_def)
  also have "safe_run ?I (ul_mem u') (ul_mem u'')" using c(2) by (rule safe_run_mono) (auto simp: round_inv_def)
  also have "safe_run ?I (ul_mem u'') (persist_word a nt (ul_mem u''))"
    using persist_word_phase(1) [OF t off al] by (rule safe_run_mono) (simp add: round_inv_def)
  finally have sr: "safe_run ?I (ul_mem ul) (persist_word a nt (ul_mem u''))" .
  have "cur (ul_mem u') x = m0 x" if "\<not> in_log B x" "x \<notin> F" "undo_block x \<notin> A" for x
    using committing_current(8) [OF c(3) that(1,2)] committing_current(7) [OF c(3) that(1)] that(2,3) c(3)
    by (auto simp: committing_def good_entry_def D_def)
  then have "round_run B A m0 F D a nt ul u' u''"
    unfolding round_run_def using sr persist_word_phase(2) [OF t off al] c(5,6) by blast
  with that r(1,6) c(1) show thesis by blast
qed

text \<open>A failure anywhere in the round.\<close>

lemma round_inv_outcome:
  fixes nt :: u64
  assumes inv: "round_inv B A m0 F D a nt es m1 Q"
    and img: "crash_image Q img" and wa: "word_apart B A F a" and nt: "uint nt < 2 ^ 31" and hm: "dedup \<longrightarrow> hm < 0xFFFFFFFF"
    and mgr: "mrm_recover mops (mrm_clear_new_region_table mops mgr) = Some (Inr mgr1)"
      "\<forall>a \<in> A. mrm_does_manage mops mgr1 a"
      "mrm_recover mops (mrm_commit_new_region_table mops mgr) = Some (Inr mgr2)"
  shows "all_or_nothing B a m0 F m1 (D - word_at a) nt mgr1 mgr2 img (restart dedup B hm h0 mops mgr img)"
proof -
  let ?r = "restart dedup B hm h0 mops mgr img" and ?w = "word_of_int (uint nt + 1) :: u64"
  consider "crash_safe B A m0 F Q" | "committing B A m0 F D m1 ?w es Q"
    | "tail_phase B A m0 (F \<union> word_at a) (D - word_at a) m1 ?w es Q" using inv unfolding round_inv_def by blast
  then show ?thesis
  proof cases
    case 1
    then obtain J es where r: "recovering B A m0 F J es (boot img)" using crash_safe_image [OF _ img] by blast
    show ?thesis by (rule rolled_back_outcome [OF r wa recovering_restart [OF r hm mgr(1,2)]])
  next
    case 2
    show ?thesis
    proof (cases "commit_tail (ent B img (length es)) = 0")
      case True
      note r = committing_not_yet [OF 2 img True]
      show ?thesis by (rule rolled_back_outcome [OF r wa recovering_restart [OF r hm mgr(1,2)]])
    next
      case False
      then have "commit_tail (ent B img (length es)) = ?w" using committing_image(3) [OF 2 img] by simp
      then have "rolled_forward B m1 D (uint nt) mgr2 ?r"
        using committed_restart [OF 2 img _ refl uint_ge_0 nt hm mgr(3)] unfolding rolled_forward_def by blast
      then show ?thesis by (rule rolled_forward_outcome) simp
    qed
  next
    case 3
    then have "rolled_forward B m1 (D - word_at a) (uint nt) mgr2 ?r"
      using committing_restart(2) [OF _ img refl uint_ge_0 nt hm mgr] unfolding tail_phase_def by blast
    then show ?thesis by (rule rolled_forward_outcome) simp
  qed
qed

lemma round_run_crash:
  assumes "round_run B A m0 F D a nt u u' u''" and "crash_during (ul_mem u) (persist_word a nt (ul_mem u'')) img"
    and m1: "\<And>x. \<not> in_log B x \<Longrightarrow> cur (ul_mem u') x = m1 x"
    and h: "word_apart B A F a" "uint nt < 2 ^ 31" "dedup \<longrightarrow> hm < 0xFFFFFFFF"
      "mrm_recover mops (mrm_clear_new_region_table mops mgr) = Some (Inr mgr1)" "\<forall>a \<in> A. mrm_does_manage mops mgr1 a"
      "mrm_recover mops (mrm_commit_new_region_table mops mgr) = Some (Inr mgr2)"
  shows "all_or_nothing B a m0 F m1 (D - word_at a) nt mgr1 mgr2 img (restart dedup B hm h0 mops mgr img)"
proof -
  obtain es where "safe_run (round_inv B A m0 F D a nt es (cur (ul_mem u'))) (ul_mem u) (persist_word a nt (ul_mem u''))"
    using assms(1) unfolding round_run_def by blast
  then obtain Q where "round_inv B A m0 F D a nt es (cur (ul_mem u')) Q" "crash_image Q img"
    using assms(2) by (rule safe_run_crash)
  from all_or_nothing_cong [OF round_inv_outcome [OF this h] m1] show ?thesis .
qed

text \<open>The cleanup after the round.\<close>

lemma round_run_cleanup:
  assumes r: "round_run B A m0 F D a nt u u' u''" and m1: "\<And>x. \<not> in_log B x \<Longrightarrow> cur (ul_mem u') x = m1 x"
    and nt: "uint nt < 2 ^ 31" and u4: "u4 = u''\<lparr>ul_mem := persist_word a nt (ul_mem u'')\<rparr>"
  shows "undo_log_post_commit_cleanup dedup u4 = Inr (undo_log_clear dedup u4)"
    and "log_state dedup B A' (wr a (le_bytes 8 nt) m1) (- (D \<union> word_at a)) 0 [] (undo_log_clear dedup u4)"
proof -
  obtain es where t: "tail_phase B A m0 (F \<union> word_at a) (D \<union> word_at a) (wr a (le_bytes 8 nt) (cur (ul_mem u')))
      (word_of_int (uint nt + 1)) es (persist_word a nt (ul_mem u''))" "ul_log u'' = B" "ul_len u'' = Suc (length es)"
    using r unfolding round_run_def by blast
  have m: "ul_mem u4 = persist_word a nt (ul_mem u'')" "ul_log u4 = B" "ul_len u4 = Suc (length es)"
    using t(2,3) by (simp_all add: u4)
  have pos: "(0 :: u64) < word_of_int (uint nt + 1)" using tail_roundtrip(1) [of "uint nt"] nt by simp
  note c = t(1) [unfolded tail_phase_def, folded m(1)]
  note cl = cleanup_ready [OF conjunct1 [OF c] conjunct2 [OF c] pos m(2,3)]
  show "undo_log_post_commit_cleanup dedup u4 = Inr (undo_log_clear dedup u4)" by (rule cl(1))
  show "log_state dedup B A' (wr a (le_bytes 8 nt) m1) (- (D \<union> word_at a)) 0 [] (undo_log_clear dedup u4)"
    using cl(2) by (rule log_state_cong) (use m1 in \<open>simp add: wr_def\<close>)
qed

end
