(* ===== verification/Background_Props.thy ===== *)
theory Background_Props
  imports Background Undo_Tail
begin

text \<open>
  The background process, its guarantee: a round of \<open>bg_consume\<close> in undo mode executes one command
  exactly once as far as a restart can tell. The application is a parameter: a function that gives, for
  the memory and the address of an entry, the length of the entry and the stores and mappings that it makes.
\<close>

section \<open>The application under instrumentation\<close>

definition app_handler ::
  "bool \<Rightarrow> bool \<Rightarrow> (mem \<Rightarrow> addr \<Rightarrow> nat \<times> app_op list) \<Rightarrow> addr \<Rightarrow> 'w bg \<Rightarrow> (int \<times> 'w bg) result option" where
  "app_handler dedup skip prog a b =
     (let s = instr_of b; (n, ops) = prog (bg_mem b) a in
      bind_ro (run_app dedup skip ops (ul s, should_commit s)) (\<lambda>(ul', flag).
        Some (Inr (int n, set_mem (ul_mem ul') (b\<lparr>instr_of := s\<lparr>ul := ul', should_commit := flag\<rparr>\<rparr>)))))"

text \<open>The operation log lies outside the undo log and outside the memory the application writes.\<close>

definition log_apart :: "addr \<Rightarrow> addr set \<Rightarrow> addr set \<Rightarrow> addr \<Rightarrow> bool" where
  "log_apart B A F b \<longleftrightarrow> (\<forall>x. unat (x - b) < 128 + RING \<longrightarrow> \<not> in_log B x \<and> undo_block x \<notin> A \<and> x \<notin> F)"

text \<open>
  Between two rounds: the undo log is empty over the durable memory \<open>m0\<close>, in which the operation
  log holds the entries \<open>qs\<close> between the tail and the head.
\<close>

definition bg_ready ::
  "bool \<Rightarrow> addr \<Rightarrow> addr set \<Rightarrow> addr set \<Rightarrow> mem \<Rightarrow> byte list list \<Rightarrow> u64 \<Rightarrow> u64 \<Rightarrow> 'w bg \<Rightarrow> bool" where
  "bg_ready dedup B A F m0 qs hd_off tl_off b \<longleftrightarrow>
     mode (psm_of b) = PSM_MODE_UNDO \<and> psm_mem (psm_of b) = ul_mem (ul (instr_of b)) \<and>
     log_state dedup B A m0 F 0 [] (ul (instr_of b)) \<and> fresh_ok (fresh_regions (ul (instr_of b))) \<and>
     base_ok (log_base (psm_of b)) \<and> log_apart B A F (log_base (psm_of b)) \<and>
     load_u64 m0 (tail_at (log_base (psm_of b))) = tl_off \<and>
     (\<exists>t h. chain m0 (buf_at (log_base (psm_of b))) t qs h \<and> t mod 64 = 0 \<and> h < t + RING \<and>
        tl_off = of_nat (t mod RING) \<and> hd_off = of_nat (h mod RING))"

lemma bg_readyI:
  assumes "mode (psm_of b) = PSM_MODE_UNDO" and "psm_mem (psm_of b) = ul_mem u" and "ul (instr_of b) = u"
    and "log_base (psm_of b) = lb" and "log_state dedup B A m0 F 0 [] u" and "fresh_ok (fresh_regions u)"
    and "base_ok lb" and "log_apart B A F lb" and "load_u64 m0 (tail_at lb) = tl_off"
    and "chain m0 (buf_at lb) t qs h" and "t mod 64 = 0" and "h < t + RING"
    and "tl_off = of_nat (t mod RING)" and "hd_off = of_nat (h mod RING)"
  shows "bg_ready dedup B A F m0 qs hd_off tl_off b"
  unfolding bg_ready_def by (intro conjI exI [of _ t] exI [of _ h]) (simp_all add: assms)

section \<open>Lemmas\<close>

lemma ul_mem_same [simp]: "u\<lparr>ul_mem := ul_mem u\<rparr> = u"
  by (cases u) simp

lemma ring_word:
  assumes "k < RING"
  shows "to_int (of_nat k) = int k" and "uint (of_nat k :: u64) = int k"
proof -
  show "uint (of_nat k :: u64) = int k" using assms by (simp add: uint_nat unat_of_nat_small)
  show "to_int (of_nat k) = int k" using assms to_int_of [of "int k"] by (simp add: int32_def)
qed

lemma bg_spin_waits:
  assumes "\<And>j. j < k \<Longrightarrow> heads (i + j) = tl_off"
    and "consume bg_mem f (buf_at (log_base (psm_of b))) (heads (i + k)) tl_off b = Some (Inr (nt, b'))" and "to_int nt \<noteq> - 1"
  shows "bg_spin f heads i tl_off b = Some (Inr (to_int nt, b'))"
  using assms
proof (induction k arbitrary: i)
  case 0
  then show ?case by (subst bg_spin.simps) simp
next
  case (Suc k)
  have "heads i = tl_off" using Suc.prems(1) [of 0] by simp
  then have "consume bg_mem f (buf_at (log_base (psm_of b))) (heads i) tl_off b = Some (Inr (- 1, b))"
    by (subst consume.simps) simp
  moreover have "to_int (- 1) = - 1" using to_int_of [of "- 1"] by simp
  moreover have "bg_spin f heads (Suc i) tl_off b = Some (Inr (to_int nt, b'))"
    using Suc.prems(1) [of "Suc j" for j] Suc.prems(2,3) by (intro Suc.IH) (simp_all del: consume.simps)
  ultimately show ?case by (subst bg_spin.simps) simp
qed

lemma log_apart_ring:
  assumes "log_apart B A F b" and "base_ok b" and "p < RING"
  shows "\<not> in_log B (buf_at b + of_nat p)" "undo_block (buf_at b + of_nat p) \<notin> A" "buf_at b + of_nat p \<notin> F"
proof -
  have "unat (buf_at b + of_nat p - b) = 128 + p"
    using assms(3) unat_of_nat_small [of "128 + p"] by (simp add: add.assoc)
  then show "\<not> in_log B (buf_at b + of_nat p)" "undo_block (buf_at b + of_nat p) \<notin> A" "buf_at b + of_nat p \<notin> F"
    using assms(1,3) by (auto simp: log_apart_def)
qed

lemma log_apart_tail: "log_apart B A F b \<Longrightarrow> base_ok b \<Longrightarrow> word_apart B A F (tail_at b)"
  unfolding word_apart_def
proof (intro conjI allI impI)
  assume a: "log_apart B A F b" and b: "base_ok b"
  show "unat (tail_at b) mod 64 = 0"
    using b unat_add_of_nat [of b 64] by (simp add: base_ok_def mod_add_eq [symmetric])
  have w: "unat (x - b) < 128 + RING" if "unat (x - tail_at b) < 8" for x
    using window_split [of 64 8 x b] that by simp
  then show "off_log B (tail_at b) 8" using a by (simp add: off_log_def log_apart_def)
  show "undo_block x \<notin> A" "x \<notin> F" if "unat (x - tail_at b) < 8" for x
    using a w [OF that] by (simp_all add: log_apart_def)
qed

text \<open>Before the round the durable memory is the memory, outside the logs and what \<open>F\<close> excludes.\<close>

lemma log_state_current:
  assumes "log_state dedup B A m0 F 0 [] u" and "\<not> in_log B x" and "x \<notin> F"
  shows "cur (ul_mem u) x = m0 x"
  using assms log_inv_current(2) [of B A m0 F 0 0 "[]" "ul_mem u" x] by (simp add: log_state_def)

text \<open>The commit of a round.\<close>

lemma bg_commit_undo:
  assumes "mode (psm_of b) = PSM_MODE_UNDO" and "undo_log_commit (to_int nt) (ul (instr_of b)) = Some (Inr u)"
    and "region_table_modified (instr_of b) \<Longrightarrow>
      \<exists>w'. persist_new_region_table E (mrm (instr_of b), world (instr_of b)) = Inr (SUCCESS, w')"
  shows "\<exists>w'. bg_commit E C nt b = Some (Inr (set_mem (ul_mem u) (b\<lparr>instr_of := (instr_of b)\<lparr>world := w', ul := u\<rparr>\<rparr>)))"
proof (cases "region_table_modified (instr_of b)")
  case True
  then show ?thesis using assms by (auto simp: bg_commit_def instrument_commit_def)
next
  case False
  have "(instr_of b)\<lparr>ul := u\<rparr> = (instr_of b)\<lparr>world := world (instr_of b), ul := u\<rparr>" by (cases "instr_of b") simp
  with False show ?thesis using assms(1,2) by (auto simp: bg_commit_def instrument_commit_def intro!: exI [of _ "world (instr_of b)"])
qed

text \<open>
  The round up to \<open>update_tail\<close>, for an application that ran through and an undo log that
  committed: \<open>b4\<close> differs from \<open>b\<close> in the memory, the logs and the world only.
\<close>

lemma bg_execute_run:
  assumes undo: "mode (psm_of b) = PSM_MODE_UNDO"
    and spin: "bg_spin f heads 0 tl_off b = Some (Inr (to_int nt, b1))" and nt: "word_of_int (to_int nt) = nt"
    and b1: "b1 = set_mem (ul_mem u') (b\<lparr>instr_of := (instr_of b)\<lparr>ul := u', should_commit := flag\<rparr>\<rparr>)"
    and com: "undo_log_commit (to_int nt) u' = Some (Inr u'')"
    and reg: "region_table_modified (instr_of b) \<Longrightarrow>
      \<exists>w'. persist_new_region_table E (mrm (instr_of b), world (instr_of b)) = Inr (SUCCESS, w')"
  shows "\<exists>b4. bg_execute E C f heads tl_off b = Some (Inr (nt, b4)) \<and> mode (psm_of b4) = PSM_MODE_UNDO \<and>
     log_base (psm_of b4) = log_base (psm_of b) \<and> psm_mem (psm_of b4) = persist_word (tail_at (log_base (psm_of b))) nt (ul_mem u'') \<and>
     ul (instr_of b4) = u''\<lparr>ul_mem := persist_word (tail_at (log_base (psm_of b))) nt (ul_mem u'')\<rparr>"
proof -
  let ?b2 = "b1\<lparr>instr_of := (instr_of b1)\<lparr>should_commit := False\<rparr>\<rparr>"
  have i: "ul (instr_of ?b2) = u'" "mrm (instr_of ?b2) = mrm (instr_of b)" "world (instr_of ?b2) = world (instr_of b)"
    "region_table_modified (instr_of ?b2) = region_table_modified (instr_of b)" "mode (psm_of ?b2) = PSM_MODE_UNDO"
    "log_base (psm_of ?b2) = log_base (psm_of b)"
    using undo by (simp_all add: b1 set_mem_def)
  obtain w' where c: "bg_commit E C nt ?b2 =
      Some (Inr (set_mem (ul_mem u'') (?b2\<lparr>instr_of := (instr_of ?b2)\<lparr>world := w', ul := u''\<rparr>\<rparr>)))"
    using bg_commit_undo [OF i(5), of nt u'' E C] i com reg by auto
  let ?b3 = "set_mem (ul_mem u'') (?b2\<lparr>instr_of := (instr_of ?b2)\<lparr>world := w', ul := u''\<rparr>\<rparr>)"
  have "bg_execute E C f heads tl_off b = Some (Inr (nt, bg_update_tail nt ?b3))"
    by (simp add: bg_execute_def spin nt c)
  then show ?thesis
    using undo by (intro exI [of _ "bg_update_tail nt ?b3"]) (simp add: bg_update_tail_def update_tail_def set_mem_def b1)
qed

lemma bg_cleanup_run:
  assumes "mode (psm_of b) = PSM_MODE_UNDO" and "undo_log_post_commit_cleanup dedup (ul (instr_of b)) = Inr u"
  shows "\<exists>b5. bg_cleanup dedup E b = Inr b5 \<and> mode (psm_of b5) = PSM_MODE_UNDO \<and> log_base (psm_of b5) = log_base (psm_of b) \<and>
     psm_mem (psm_of b5) = ul_mem u \<and> ul (instr_of b5) = u \<and> \<not> region_table_modified (instr_of b5)"
  using assms by (auto simp: bg_cleanup_def instrument_cleanup_def Let_def set_mem_def)

text \<open>The entry is found, also when its end of the buffer was discarded, and the application runs on it.\<close>

lemma bg_spin_entry:
  assumes ready: "bg_ready dedup B A F m0 qs0 hd_off tl_off b"
    and ch: "chain m0 (buf_at (log_base (psm_of b))) t (e # qs) h" and th: "t mod 64 = 0" "h < t + RING"
    and off: "tl_off = of_nat (t mod RING)" "hd_off = of_nat (h mod RING)"
    and heads: "\<forall>j < k. heads j = tl_off" "heads k = hd_off"
    and prog: "\<forall>a. rd (bg_mem b) a (length e) = e \<longrightarrow> prog (bg_mem b) a = (length e, ops)"
    and run: "run_app dedup skip ops (ul (instr_of b), should_commit (instr_of b)) = Some (Inr (u', flag))"
  shows "bg_spin (app_handler dedup skip prog) heads 0 tl_off b =
      Some (Inr (int ((t + span t e) mod RING), set_mem (ul_mem u') (b\<lparr>instr_of := (instr_of b)\<lparr>ul := u', should_commit := flag\<rparr>\<rparr>)))"
proof -
  let ?lb = "log_base (psm_of b)" and ?f = "app_handler dedup skip prog :: addr \<Rightarrow> 'a bg \<Rightarrow> _"
  define b1 where "b1 = set_mem (ul_mem u') (b\<lparr>instr_of := (instr_of b)\<lparr>ul := u', should_commit := flag\<rparr>\<rparr>)"
  have st: "log_state dedup B A m0 F 0 [] (ul (instr_of b))" and bok: "base_ok ?lb"
    and ap: "log_apart B A F ?lb" and mem: "psm_mem (psm_of b) = ul_mem (ul (instr_of b))"
    using ready by (simp_all add: bg_ready_def del: chain.simps)
  have same: "bg_mem b (buf_at ?lb + of_nat (i mod RING)) = m0 (buf_at ?lb + of_nat (i mod RING))" for i
    using log_apart_ring [OF ap bok, of "i mod RING"] log_state_current [OF st] by (simp add: mem)
  have ch': "chain (bg_mem b) (buf_at ?lb) t (e # qs) h" using ch same by (rule chain_frame)
  let ?a = "buf_at ?lb + of_nat ((t + pad t e) mod RING)" and ?n = "(t + span t e) mod RING"
  have "rd (bg_mem b) ?a (length e) = e" using ch' by (simp add: stored_at_def)
  with prog have "prog (bg_mem b) ?a = (length e, ops)" by blast
  with run have f: "?f ?a b = Some (Inr (int (length e), b1))" by (simp add: app_handler_def b1_def)
  have c: "consume bg_mem ?f (buf_at ?lb) (heads (0 + k)) tl_off b = Some (Inr (of_nat ?n, b1))"
    using consume_entry [where mem_of = bg_mem and s = b and f = ?f, OF ch' bok th f] heads(2) off by simp
  have n: "to_int (of_nat ?n) = int ?n" by (rule ring_word) simp
  have hs: "heads (0 + j) = tl_off" if "j < k" for j using heads(1) that by simp
  have "bg_spin ?f heads 0 tl_off b = Some (Inr (to_int (of_nat ?n), b1))"
    by (rule bg_spin_waits [where i = 0 and k = k and heads = heads, OF hs c]) (simp_all add: n)
  then show ?thesis unfolding n b1_def .
qed

text \<open>The cleanup leaves a state from which the next round starts.\<close>

lemma round_ready:
  assumes r: "round_run B A m0 F (- F \<union> fresh) (tail_at lb) nt u u' u''" and m1: "\<And>x. \<not> in_log B x \<Longrightarrow> cur (ul_mem u') x = m1 x"
    and nt: "uint nt < 2 ^ 31" and b4: "mode (psm_of b4) = PSM_MODE_UNDO" "log_base (psm_of b4) = lb"
      "ul (instr_of b4) = u''\<lparr>ul_mem := persist_word (tail_at lb) nt (ul_mem u'')\<rparr>"
    and bok: "base_ok lb" and ap: "log_apart B A F lb"
    and ch: "chain m0 (buf_at lb) t qs h" and th: "t mod 64 = 0" "h < t + RING"
    and off: "hd_off = of_nat (h mod RING)" "nt = of_nat (t mod RING)"
  shows "\<exists>b5. bg_cleanup dedup E b4 = Inr b5 \<and> bg_ready dedup B A (F - fresh) (wr (tail_at lb) (le_bytes 8 nt) m1) qs hd_off nt b5 \<and>
     log_base (psm_of b5) = lb \<and> fresh_regions (ul (instr_of b5)) = [] \<and> \<not> region_table_modified (instr_of b5)"
proof -
  let ?m = "wr (tail_at lb) (le_bytes 8 nt) m1" and ?u = "undo_log_clear dedup (ul (instr_of b4))"
  note c = round_run_cleanup(1) [OF r m1 nt b4(3), where dedup = dedup]
    round_run_cleanup(2) [OF r m1 nt b4(3), where dedup = dedup and A' = A]
  obtain b5 where b5: "bg_cleanup dedup E b4 = Inr b5" "mode (psm_of b5) = PSM_MODE_UNDO" "log_base (psm_of b5) = lb"
    "psm_mem (psm_of b5) = ul_mem ?u" "ul (instr_of b5) = ?u" "\<not> region_table_modified (instr_of b5)"
    using bg_cleanup_run [OF b4(1) c(1), of E] b4(2) by metis
  have "bg_ready dedup B A (F - fresh) ?m qs hd_off nt b5"
  proof (rule bg_readyI [OF b5(2,4,5,3)])
    have "- (- F \<union> fresh \<union> word_at (tail_at lb)) = F - fresh"
      using log_apart_tail [OF ap bok] by (auto simp: word_apart_def)
    with c(2) show "log_state dedup B A ?m (F - fresh) 0 [] ?u" by metis
    have "m1 x = m0 x" if "\<not> in_log B x" "x \<notin> F" "undo_block x \<notin> A" for x
      using r m1 [OF that(1)] that unfolding round_run_def by metis
    then show "chain ?m (buf_at lb) t qs h"
      using wr_field_buf [OF bok, of 64 "le_bytes 8 nt" "i mod RING" m1 for i] log_apart_ring [OF ap bok, of "i mod RING" for i]
      by (intro chain_frame [OF ch]) (simp del: le_bytes.simps)
    show "load_u64 ?m (tail_at lb) = nt" by (rule load_store_u64)
  qed (use bok ap ch th off in \<open>auto simp: log_apart_def undo_log_clear_def ranges_clear_def\<close>)
  moreover have "fresh_regions (ul (instr_of b5)) = []" by (simp add: b5(5) undo_log_clear_def ranges_clear_def)
  ultimately show ?thesis using b5(1,3,6) by blast
qed

text \<open>
  One round over any set \<open>F\<close> of addresses that need not be restored. It leaves the log empty, with no fresh
  region and no change of the region table pending.
\<close>

lemma command_round:
  assumes ready: "bg_ready dedup B A F m0 (e # qs) hd_off tl_off b"
    and heads: "\<forall>j < k. heads j = tl_off" "heads k = hd_off"
    and prog: "\<forall>a. rd (bg_mem b) a (length e) = e \<longrightarrow> prog (bg_mem b) a = (length e, ops)"
    and sub: "unprotected S ops \<subseteq> F"
    and ops: "\<forall>p \<in> set ops. op_ok B S p" "tracked A skip (fresh_regions (ul (instr_of b))) ops"
    and room: "Suc (sum_list (map op_blocks ops)) < UNDO_NUM_ENTRIES"
    and reg: "region_table_modified (instr_of b) \<longrightarrow>
      (\<exists>w'. persist_new_region_table E (mrm (instr_of b), world (instr_of b)) = Inr (SUCCESS, w'))"
    and hm: "dedup \<longrightarrow> hm < 0xFFFFFFFF"
    and mgr: "mrm_recover mops (mrm_clear_new_region_table mops mgr) = Some (Inr mgr1)"
      "\<forall>a \<in> A. mrm_does_manage mops mgr1 a"
      "mrm_recover mops (mrm_commit_new_region_table mops mgr) = Some (Inr mgr2)"
  defines "a \<equiv> tail_at (log_base (psm_of b))" and "m1 \<equiv> app_effect ops (bg_mem b)"
    and "fresh \<equiv> ranges_set (fold fresh_after ops (fresh_regions (ul (instr_of b))))"
  shows "\<exists>nt b4 b5. bg_execute E C (app_handler dedup skip prog) heads tl_off b = Some (Inr (nt, b4)) \<and>
     (\<forall>img. crash_during (psm_mem (psm_of b)) (psm_mem (psm_of b4)) img \<longrightarrow>
        all_or_nothing B a m0 F m1 ((- F \<union> fresh) - word_at a) nt mgr1 mgr2 img (restart dedup B hm h0 mops mgr img)) \<and>
     bg_consume dedup E C (app_handler dedup skip prog) heads tl_off b = Some (Inr (nt, b5)) \<and>
     bg_ready dedup B A (F - fresh) (wr a (le_bytes 8 nt) m1) qs hd_off nt b5 \<and>
     log_base (psm_of b5) = log_base (psm_of b) \<and> fresh_regions (ul (instr_of b5)) = [] \<and> \<not> region_table_modified (instr_of b5)"
proof -
  let ?lb = "log_base (psm_of b)" and ?u = "ul (instr_of b)" and ?f = "app_handler dedup skip prog :: addr \<Rightarrow> 'a bg \<Rightarrow> _"
  have undo: "mode (psm_of b) = PSM_MODE_UNDO" and mem: "psm_mem (psm_of b) = ul_mem ?u"
    and st: "log_state dedup B A m0 F 0 [] ?u" and fr: "fresh_ok (fresh_regions ?u)" and bok: "base_ok ?lb"
    and ap: "log_apart B A F ?lb"
    using ready by (auto simp: bg_ready_def)
  note wa = log_apart_tail [OF ap bok, folded a_def]
  obtain t h where ch: "chain m0 (buf_at ?lb) t (e # qs) h" and th: "t mod 64 = 0" "h < t + RING"
    and off: "tl_off = of_nat (t mod RING)" "hd_off = of_nat (h mod RING)"
    using ready unfolding bg_ready_def by metis
  define nt :: u64 where "nt = of_nat ((t + span t e) mod RING)"
  have nt: "to_int nt = uint nt" "uint nt = int ((t + span t e) mod RING)"
    using ring_word [of "(t + span t e) mod RING"] by (simp_all add: nt_def)
  obtain u' flag' u'' where r: "run_app dedup skip ops (?u, should_commit (instr_of b)) = Some (Inr (u', flag'))"
    "undo_log_commit (uint nt) u' = Some (Inr u'')"
    "\<And>x. \<not> in_log B x \<Longrightarrow> cur (ul_mem u') x = app_effect ops (cur (ul_mem ?u)) x"
    "round_run B A m0 F (- F \<union> fresh) a nt ?u u' u''"
    by (rule epoch_round [OF st fr sub ops room wa, where flag = "should_commit (instr_of b)" and nt = nt, folded fresh_def]) (rule that)
  have m1: "\<And>x. \<not> in_log B x \<Longrightarrow> cur (ul_mem u') x = m1 x" using r(3) by (simp add: m1_def mem)
  have small: "uint nt < 2 ^ 31" unfolding nt(2) by simp
  let ?b1 = "set_mem (ul_mem u') (b\<lparr>instr_of := (instr_of b)\<lparr>ul := u', should_commit := flag'\<rparr>\<rparr>)"
  have spin: "bg_spin ?f heads 0 tl_off b = Some (Inr (to_int nt, ?b1))"
    unfolding nt by (rule bg_spin_entry [where heads = heads and k = k and prog = prog, OF ready ch th off heads prog r(1)])
  have wnt: "word_of_int (to_int nt) = nt" by (simp add: nt(1))
  have com: "undo_log_commit (to_int nt) u' = Some (Inr u'')" using r(2) by (simp add: nt(1))
  obtain b4 where b4: "bg_execute E C ?f heads tl_off b = Some (Inr (nt, b4))" "mode (psm_of b4) = PSM_MODE_UNDO"
    "log_base (psm_of b4) = ?lb" "psm_mem (psm_of b4) = persist_word a nt (ul_mem u'')"
    "ul (instr_of b4) = u''\<lparr>ul_mem := persist_word a nt (ul_mem u'')\<rparr>"
    using bg_execute_run [OF undo spin wnt refl com, of E C, folded a_def] reg by blast
  have crash: "all_or_nothing B a m0 F m1 (- F \<union> fresh - word_at a) nt mgr1 mgr2 img (restart dedup B hm h0 mops mgr img)"
    if "crash_during (psm_mem (psm_of b)) (psm_mem (psm_of b4)) img" for img
    by (rule round_run_crash [OF r(4) that [unfolded mem b4(4)] m1 wa small hm mgr])
  have q: "chain m0 (buf_at ?lb) (t + span t e) qs h" "h < t + span t e + RING" using ch th(2) by simp_all
  obtain b5 where "bg_cleanup dedup E b4 = Inr b5" "bg_ready dedup B A (F - fresh) (wr a (le_bytes 8 nt) m1) qs hd_off nt b5"
    "log_base (psm_of b5) = ?lb" "fresh_regions (ul (instr_of b5)) = []" "\<not> region_table_modified (instr_of b5)"
    using round_ready [OF r(4) [unfolded a_def] m1 small b4(2,3,5) [unfolded a_def] bok ap q(1) span_64 [OF th(1)] q(2) off(2) nt_def,
        of dedup E, folded a_def] by blast
  moreover from this have "bg_consume dedup E C ?f heads tl_off b = Some (Inr (nt, b5))" by (simp add: bg_consume_def b4(1))
  ultimately show ?thesis using b4(1) crash by blast
qed

text \<open>
  C2. A command is executed exactly once. Take a state between two rounds with the command \<open>e\<close> at the
  tail of the operation log, an application that makes any sequence of instrumented stores and mappings
  on it, and a head that becomes visible after any number of loads. Then the round returns
  (waiting for the head included); wherever the power fails between its start and the end of
  \<open>update_tail\<close>, a restart finds either the memory before the command together with the old
  tail, so the command will be executed again, or the whole effect of the command together with
  the new tail, so it will not; and after the cleanup the next round can start, with the rest of
  the queue and the effect of the command durable.
\<close>

theorem command_executed_once:
  assumes ready: "bg_ready dedup B A (unprotected S ops) m0 (e # qs) hd_off tl_off b"
    and heads: "\<forall>j < k. heads j = tl_off" "heads k = hd_off"
    and prog: "\<forall>a. rd (bg_mem b) a (length e) = e \<longrightarrow> prog (bg_mem b) a = (length e, ops)"
    and ops: "\<forall>p \<in> set ops. op_ok B S p" "tracked A skip (fresh_regions (ul (instr_of b))) ops"
    and room: "Suc (sum_list (map op_blocks ops)) < UNDO_NUM_ENTRIES"
    and reg: "region_table_modified (instr_of b) \<longrightarrow>
      (\<exists>w'. persist_new_region_table E (mrm (instr_of b), world (instr_of b)) = Inr (SUCCESS, w'))"
    and hm: "dedup \<longrightarrow> hm < 0xFFFFFFFF"
    and mgr: "mrm_recover mops (mrm_clear_new_region_table mops mgr) = Some (Inr mgr1)"
      "\<forall>a \<in> A. mrm_does_manage mops mgr1 a"
      "mrm_recover mops (mrm_commit_new_region_table mops mgr) = Some (Inr mgr2)"
  defines "a \<equiv> tail_at (log_base (psm_of b))" and "F \<equiv> unprotected S ops" and "m1 \<equiv> app_effect ops (bg_mem b)"
    and "fresh \<equiv> ranges_set (fold fresh_after ops (fresh_regions (ul (instr_of b))))"
  shows "\<exists>nt b4 b5. bg_execute E C (app_handler dedup skip prog) heads tl_off b = Some (Inr (nt, b4)) \<and>
     (\<forall>img. crash_during (psm_mem (psm_of b)) (psm_mem (psm_of b4)) img \<longrightarrow>
        all_or_nothing B a m0 F m1 ((- F \<union> fresh) - word_at a) nt mgr1 mgr2 img (restart dedup B hm h0 mops mgr img)) \<and>
     bg_consume dedup E C (app_handler dedup skip prog) heads tl_off b = Some (Inr (nt, b5)) \<and>
     bg_ready dedup B A (F - fresh) (wr a (le_bytes 8 nt) m1) qs hd_off nt b5"
  unfolding a_def F_def m1_def fresh_def
  using command_round [where k = k and heads = heads and prog = prog, OF ready heads prog subset_refl ops room reg hm mgr] by blast

text \<open>A command of one byte, for which the application stores three bytes.\<close>

abbreviation one_command :: mem where
  "one_command \<equiv> (\<lambda>_. 0)(0x50000080 := 1)"

abbreviation one_store :: "app_op list" where
  "one_store \<equiv> [AppStore 0x40000000 [1, 2, 3] 0x7000000000000100]"

abbreviation one_env :: "unit env" where
  "one_env \<equiv> \<lparr>kern = zero_kernel, rnd = (\<lambda>w. (7, w)), padding = (\<lambda>_. [0, 0, 0, 0])\<rparr>"

definition one_bg :: "unit bg" where
  "one_bg = \<lparr>
     psm_of = \<lparr>log_base = 0x50000000, mode = PSM_MODE_UNDO, head = 64, tail = 0, local_head = 64, local_tail = 0,
       psm_mem = boot one_command\<rparr>,
     instr_of = \<lparr>last_sysnum = - 1, last_addr = 0, last_size = 0, ul = recovered_log 65536 0 (\<lambda>_. 0) one_command,
       mrm = \<lparr>pmem_dirfd = 3, regions = [], rs = []\<rparr>, region_table_modified = False, should_commit = False, world = ()\<rparr>,
     chkpt_of = \<lparr>imgs_dir = [], service_path = [], log_path = [], seq = 0\<rparr>, recovered = True, recovered_tail = 0\<rparr>"

lemma one_bg_simps [simp]:
  "mode (psm_of one_bg) = PSM_MODE_UNDO" "psm_mem (psm_of one_bg) = boot one_command" "log_base (psm_of one_bg) = 0x50000000"
  "ul (instr_of one_bg) = recovered_log 65536 0 (\<lambda>_. 0) one_command" "region_table_modified (instr_of one_bg) = False"
  by (simp_all add: one_bg_def)

lemma one_bg_ready:
  "bg_ready False 65536 {x. x < 0x48000000} (unprotected 0x7000000000000000 one_store) one_command [[1]] 64 0 one_bg"
proof (rule bg_readyI [where t = 0 and h = 64])
  show "log_state False 65536 {x. x < 0x48000000} one_command (unprotected 0x7000000000000000 one_store) 0 []
      (recovered_log 65536 0 (\<lambda>_. 0) one_command)"
    by (rule log_state_boot [OF demo_log]) (auto simp: in_log_def UNDO_NUM_ENTRIES_def)
  show "log_apart 65536 {x. x < 0x48000000} (unprotected 0x7000000000000000 one_store) 0x50000000"
    unfolding log_apart_def in_log_nat [OF demo_log]
  proof (intro allI impI)
    fix x :: u64
    assume "unat (x - 0x50000000) < 128 + RING"
    then have x: "unat x < 0x50000000 + 128 + RING" "0x50000000 \<le> unat x"
      using window_iff [of "0x50000000" "128 + RING" x] by simp_all
    have "41943040 \<le> unat x div 32" using div_le_mono [OF x(2), of 32] by simp
    with x show "\<not> (unat (65536 :: u64) \<le> unat x \<and> unat x < unat (65536 :: u64) + 64 * UNDO_NUM_ENTRIES) \<and>
        undo_block x \<notin> {x. x < 0x48000000} \<and> x \<notin> unprotected 0x7000000000000000 one_store"
      by (simp add: UNDO_NUM_ENTRIES_def unprotected_def word_less_nat_alt word_le_nat_alt unat_undo_block)
  qed
  show "load_u64 one_command (tail_at 0x50000000) = 0"
    by (simp add: load_u64_def rd_def upt_rec)
  show "chain one_command (buf_at 0x50000000) 0 [[1]] 64"
    by (simp add: entry_ok_def round64_def pad_def span_def stored_at_def rd_def)
qed (simp_all add: base_ok_def)

theorem command_executed_once_witness:
  "\<exists>nt b5. bg_consume False one_env demo_criu (app_handler False True (\<lambda>_ _. (1, one_store))) (\<lambda>_. 64) 0 one_bg = Some (Inr (nt, b5)) \<and>
     bg_ready False 65536 {x. x < 0x48000000} (unprotected 0x7000000000000000 one_store)
       (wr 0x50000040 (le_bytes 8 nt) (app_effect one_store one_command)) [] 64 nt b5"
proof -
  have "\<forall>p \<in> set one_store. op_ok 65536 0x7000000000000000 p"
    using demo_ops_ok(1) by simp
  moreover have "tracked {x. x < 0x48000000} True (fresh_regions (ul (instr_of one_bg))) one_store"
  proof -
    have "undo_block x < 0x48000000" if "unat (x - 0x40000000) < 3" for x
      using that window_iff [of "0x40000000" 3 x] by (auto simp: word_less_nat_alt unat_undo_block)
    then show ?thesis by (simp add: store_tracked_def)
  qed
  moreover have "Suc (sum_list (map op_blocks one_store)) < UNDO_NUM_ENTRIES"
    by (simp add: blocks_of_def UNDO_NUM_ENTRIES_def)
  ultimately show ?thesis
    using command_executed_once [OF one_bg_ready, where k = 0 and heads = "\<lambda>_. 64" and prog = "\<lambda>_ _. (1, one_store)" and skip = True
        and E = one_env and C = demo_criu and hm = 0 and mops = demo_mops and mgr = "()"]
    by (simp del: le_bytes.simps) blast
qed

end
