(* ===== verification/Crash_Images.thy ===== *)
theory Crash_Images
  imports Psm_Log
begin

text \<open>
  The memories a power failure may leave, as images of what each cache line may contain. The images of a run are
  those of its start outside the addresses that the run writes, both before and after the next
  fence; a word that is written, flushed and fenced is old or new during that and new afterwards.
\<close>

section \<open>Images\<close>

text \<open>Memories made of one of the contents that each line may have.\<close>

definition image_of :: "(u64 \<Rightarrow> mem list) \<Rightarrow> mem \<Rightarrow> bool" where
  "image_of V img \<longleftrightarrow> (\<forall>l. \<exists>m \<in> set (V l). \<forall>a. line a = l \<longrightarrow> img a = m a)"

lemma crash_image_pv: "crash_image P = image_of (pv P)"
  by (simp add: fun_eq_iff crash_image_def image_of_def)

lemma crash_drain: "crash_image (pmem_drain P) = image_of (fv P)"
  by (simp add: crash_image_pv pmem_drain_def) (simp add: image_of_def fun_eq_iff)

lemma image_mono: "image_of V img \<Longrightarrow> (\<And>l. set (V l) \<subseteq> set (V' l)) \<Longrightarrow> image_of V' img"
  unfolding image_of_def by blast

lemma drained_image: "wf_pm P \<Longrightarrow> image_of (fv P) img \<Longrightarrow> image_of (pv P) img"
  by (rule image_mono) (auto simp: wf_pm_def)

text \<open>A line may have any of its contents while the others have the current one.\<close>

lemma image_single:
  assumes "\<And>l. m0 \<in> set (V l)" and "m \<in> set (V l)"
  shows "image_of V (\<lambda>x. if line x = l then m x else m0 x)"
  unfolding image_of_def
proof
  fix k
  show "\<exists>m' \<in> set (V k). \<forall>a. line a = k \<longrightarrow> (if line a = l then m a else m0 a) = m' a"
    using assms by (cases "k = l") auto
qed

text \<open>When every line may have one more content, an image differs from an old one where that content does.\<close>

lemma image_extend:
  assumes img: "image_of V' img" and V: "\<And>l. set (V' l) \<subseteq> insert m1 (set (V l))" and m0: "\<And>l. m0 \<in> set (V l)"
    and diff: "\<And>x. x \<notin> W \<Longrightarrow> m1 x = m0 x"
  shows "\<exists>img0. image_of V img0 \<and> (\<forall>x. x \<notin> W \<longrightarrow> img x = img0 x)"
proof -
  obtain pick where pick: "\<And>l. pick l \<in> set (V' l)" "\<And>l a. line a = l \<Longrightarrow> img a = pick l a"
    using img unfolding image_of_def by metis
  define old where "old l = (if pick l \<in> set (V l) then pick l else m0)" for l
  have "image_of V (\<lambda>x. old (line x) x)"
    unfolding image_of_def old_def using m0 by auto
  moreover have "img x = old (line x) x" if "x \<notin> W" for x
    using pick(1) [of "line x"] pick(2) [of x] V [of "line x"] diff [OF that] by (auto simp: old_def)
  ultimately show ?thesis by blast
qed

fun writes_in :: "addr set \<Rightarrow> pevent \<Rightarrow> bool" where
  "writes_in W (Store a bs) \<longleftrightarrow> (\<forall>x. unat (x - a) < length bs \<longrightarrow> x \<in> W)"
| "writes_in W (NTStore a bs) \<longleftrightarrow> (\<forall>x. unat (x - a) < length bs \<longrightarrow> x \<in> W)"
| "writes_in W (Flush a) \<longleftrightarrow> True"
| "writes_in W Fence \<longleftrightarrow> True"

lemma writes_in_mono: "writes_in W e \<Longrightarrow> W \<subseteq> W' \<Longrightarrow> writes_in W' e"
  by (cases e) auto

lemma step_images:
  assumes wf: "wf_pm P" and e: "writes_in W e" and V: "V = pv \<or> V = fv" and img: "image_of (V (pm_step e P)) img"
  shows "\<exists>img0. image_of (V P) img0 \<and> (\<forall>x. x \<notin> W \<longrightarrow> img x = img0 x)"
proof (rule image_extend [OF img])
  have c: "cur P \<in> set (pv P l)" "cur P \<in> set (fv P l)" "set (fv P l) \<subseteq> set (pv P l)" for l using wf by (auto simp: wf_pm_def)
  show "cur P \<in> set (V P l)" for l using c V by auto
  show "cur (pm_step e P) x = cur P x" if "x \<notin> W" for x using e that by (cases e) (auto simp: wr_def)
  show "set (V (pm_step e P) l) \<subseteq> insert (cur (pm_step e P)) (set (V P l))" for l
    using subsetD [OF c(3) [of l]] c(2) [of l] V by (cases e) (auto split: if_splits)
qed

lemma run_images:
  assumes "wf_pm P" and "\<forall>e \<in> set es. writes_in W e" and "V = pv \<or> V = fv" and "image_of (V (pm_run es P)) img"
  shows "\<exists>img0. image_of (V P) img0 \<and> (\<forall>x. x \<notin> W \<longrightarrow> img x = img0 x)"
  using assms
proof (induction es arbitrary: P)
  case (Cons e es)
  have "wf_pm (pm_step e P)" using Cons.prems(1) by (rule wf_pm_step)
  then obtain img0 where "image_of (V (pm_step e P)) img0" "\<forall>x. x \<notin> W \<longrightarrow> img x = img0 x"
    using Cons.IH [of "pm_step e P"] Cons.prems by fastforce
  moreover from this obtain img1 where "image_of (V P) img1" "\<forall>x. x \<notin> W \<longrightarrow> img0 x = img1 x"
    using step_images [OF Cons.prems(1) _ Cons.prems(3)] Cons.prems(2) by (metis list.set_intros(1))
  ultimately show ?case by force
qed auto

lemma crash_during_run:
  assumes "wf_pm P" and "\<forall>e \<in> set es. writes_in W e" and "crash_during P (pm_run es P) img"
  shows "\<exists>img0. crash_image P img0 \<and> (\<forall>x. x \<notin> W \<longrightarrow> img x = img0 x)"
proof -
  obtain k where "crash_image (pm_run (take k es) P) img" using assms(3) by (auto simp: crash_during_def)
  moreover have "\<forall>e \<in> set (take k es). writes_in W e" using assms(2) by (meson in_set_takeD)
  ultimately show ?thesis using run_images [OF assms(1), where V = pv] unfolding crash_image_pv by blast
qed

lemma crash_during_split:
  assumes "crash_during P (pm_run (es @ fs) P) img"
  shows "crash_during P (pm_run es P) img \<or> crash_during (pm_run es P) (pm_run fs (pm_run es P)) img"
proof -
  obtain k where k: "crash_image (pm_run (take k (es @ fs)) P) img" using assms by (auto simp: crash_during_def)
  show ?thesis
  proof (cases "k \<le> length es")
    case True
    with k have "crash_during P (pm_run es P) img" unfolding crash_during_def by (intro exI [of _ k]) simp
    then show ?thesis ..
  next
    case False
    with k have "crash_during (pm_run es P) (pm_run fs (pm_run es P)) img"
      unfolding crash_during_def by (intro exI [of _ "k - length es"]) simp
    then show ?thesis ..
  qed
qed

section \<open>Writing the head or the tail\<close>

lemma persist_word_run: "persist_word a v P = pm_run [Store a (le_bytes 8 v), Flush a, Fence] P"
  by (simp add: persist_word_def pmem_drain_def pmem_flush_def store_u64_def del: le_bytes.simps)

lemma fv_persist_word: "fv (persist_word a v P) = pv (persist_word a v P)"
  by (simp add: persist_word_run fun_eq_iff del: le_bytes.simps)

lemma load_line:
  assumes "unat a mod 64 = 0" and "\<And>x. line x = line a \<Longrightarrow> m x = m' x"
  shows "load_u64 m a = load_u64 m' a"
  using rd_line_cong [of a 0 8 m m'] assms by (simp add: load_u64_def)

lemma persist_word_images:
  assumes wf: "wf_pm P" and al: "unat a mod 64 = 0"
  shows "image_of (pv (persist_word a v P)) img \<Longrightarrow>
      load_u64 img a = v \<and> (\<exists>img0. image_of (fv P) img0 \<and> (\<forall>x. x \<notin> word_at a \<longrightarrow> img x = img0 x))"
    and "crash_during P (persist_word a v P) img \<Longrightarrow>
      (\<exists>img0. image_of (pv P) img0 \<and> (\<forall>x. x \<notin> word_at a \<longrightarrow> img x = img0 x)) \<and>
      (load_u64 img a = v \<or> (\<exists>img0. image_of (pv P) img0 \<and> load_u64 img a = load_u64 img0 a))"
proof -
  let ?es = "[Store a (le_bytes 8 v), Flush a, Fence]" and ?m = "wr a (le_bytes 8 v) (cur P)"
  have es: "\<forall>e \<in> set ?es. writes_in (word_at a) e" by (simp del: le_bytes.simps)
  have new: "load_u64 img a = v" if "\<And>x. line x = line a \<Longrightarrow> img x = ?m x"
    using load_line [OF al that] by (simp only: load_store_u64)
  show "load_u64 img a = v \<and> (\<exists>img0. image_of (fv P) img0 \<and> (\<forall>x. x \<notin> word_at a \<longrightarrow> img x = img0 x))"
    if i: "image_of (pv (persist_word a v P)) img"
  proof
    have "pv (persist_word a v P) (line a) = [?m]" by (simp add: persist_word_run del: le_bytes.simps)
    with i have "\<forall>x. line x = line a \<longrightarrow> img x = ?m x"
      unfolding image_of_def by (metis empty_iff insert_iff list.set(1,2))
    then show "load_u64 img a = v" using new by blast
    show "\<exists>img0. image_of (fv P) img0 \<and> (\<forall>x. x \<notin> word_at a \<longrightarrow> img x = img0 x)"
      using run_images [OF wf es, of fv img] i [folded fv_persist_word] unfolding persist_word_run by blast
  qed
  show "(\<exists>img0. image_of (pv P) img0 \<and> (\<forall>x. x \<notin> word_at a \<longrightarrow> img x = img0 x)) \<and>
      (load_u64 img a = v \<or> (\<exists>img0. image_of (pv P) img0 \<and> load_u64 img a = load_u64 img0 a))"
    if c: "crash_during P (persist_word a v P) img"
  proof
    show "\<exists>img0. image_of (pv P) img0 \<and> (\<forall>x. x \<notin> word_at a \<longrightarrow> img x = img0 x)"
      using crash_during_run [OF wf es c [unfolded persist_word_run]] unfolding crash_image_pv .
    have cp: "cur P \<in> set (pv P l)" "set (fv P l) \<subseteq> set (pv P l)" for l using wf by (auto simp: wf_pm_def)
    obtain k where k: "crash_image (pm_run (take k ?es) P) img" using c by (auto simp: persist_word_run crash_during_def)
    then obtain m where m: "m \<in> set (pv (pm_run (take k ?es) P) (line a))" "\<forall>x. line x = line a \<longrightarrow> img x = m x"
      by (auto simp: crash_image_def)
    have "m = ?m \<or> m \<in> set (pv P (line a))"
      using m(1) by (cases k; cases "k - 1"; cases "k - 2") (auto simp: take_Cons' simp del: le_bytes.simps split: if_splits)
    then show "load_u64 img a = v \<or> (\<exists>img0. image_of (pv P) img0 \<and> load_u64 img a = load_u64 img0 a)"
    proof
      assume "m = ?m"
      then show ?thesis using m(2) new by blast
    next
      assume "m \<in> set (pv P (line a))"
      then have "image_of (pv P) (\<lambda>x. if line x = line a then m x else cur P x)" using cp(1) by (intro image_single) auto
      moreover have "load_u64 img a = load_u64 (\<lambda>x. if line x = line a then m x else cur P x) a"
        by (rule load_line [OF al]) (use m(2) in simp)
      ultimately show ?thesis by blast
    qed
  qed
qed

end
