(* ===== verification/Psm_Durable.thy ===== *)
theory Psm_Durable
  imports Psm_Props Crash_Images
begin

text \<open>
  The operation log and power failures. \<open>log_durable\<close> extends the invariant of the ring to every memory that a
  failure may leave: the published head and tail are durable, and so are all entries between
  them; the entries that \<open>psm_push\<close> has written but \<open>psm_commit\<close> has not published become durable with
  the next fence. The operations keep it, and a failure in the middle of one leaves the queue
  before or the queue after it.
\<close>

section \<open>What a memory holds\<close>

definition log_image :: "addr \<Rightarrow> nat \<Rightarrow> byte list list \<Rightarrow> nat \<Rightarrow> mem \<Rightarrow> bool" where
  "log_image b t qs h img \<longleftrightarrow> load_u64 img b = of_nat (h mod RING) \<and> load_u64 img (tail_at b) = of_nat (t mod RING) \<and>
     chain img (buf_at b) t qs h"

definition holds_log :: "mem \<Rightarrow> addr \<Rightarrow> byte list list \<Rightarrow> bool" where
  "holds_log img b qs \<longleftrightarrow> (\<exists>t h. t mod 64 = 0 \<and> h < t + RING \<and> log_image b t qs h img)"

lemma holds_logI: "t mod 64 = 0 \<Longrightarrow> h < t + RING \<Longrightarrow> log_image b t qs h img \<Longrightarrow> holds_log img b qs"
  unfolding holds_log_def by (intro exI [of _ t] exI [of _ h] conjI)

text \<open>\<open>flushed\<close>: the pending entries were written by \<open>psm_push\<close>, so that a fence makes them durable.\<close>

definition log_durable :: "bool \<Rightarrow> psm \<Rightarrow> byte list list \<Rightarrow> byte list list \<Rightarrow> bool" where
  "log_durable flushed s qs ps \<longleftrightarrow> base_ok (log_base s) \<and> wf_pm (psm_mem s) \<and>
     (\<exists>lt t h l. counters lt t h l s \<and>
        (\<forall>img. image_of (pv (psm_mem s)) img \<longrightarrow> log_image (log_base s) t qs h img) \<and>
        chain (cur (psm_mem s)) (buf_at (log_base s)) h ps l \<and>
        (flushed \<longrightarrow> (\<forall>img. image_of (fv (psm_mem s)) img \<longrightarrow> chain img (buf_at (log_base s)) h ps l)))"

lemma log_durableI:
  assumes "base_ok (log_base s)" and "wf_pm (psm_mem s)" and "counters lt t h l s"
    and "\<And>img. image_of (pv (psm_mem s)) img \<Longrightarrow> log_image (log_base s) t qs h img"
    and "\<And>img. image_of (fv (psm_mem s)) img \<Longrightarrow> chain img (buf_at (log_base s)) h ps l"
  shows "log_durable flushed s qs ps"
proof -
  have "image_of (fv (psm_mem s)) (cur (psm_mem s))" using assms(2) by (auto simp: image_of_def wf_pm_def)
  with assms(5) have "chain (cur (psm_mem s)) (buf_at (log_base s)) h ps l" by blast
  with assms show ?thesis unfolding log_durable_def by blast
qed

lemma log_durable_ring: "log_durable flushed s qs ps \<Longrightarrow> ring_rep s qs ps"
proof -
  assume d: "log_durable flushed s qs ps"
  then have "image_of (pv (psm_mem s)) (cur (psm_mem s))" by (auto simp: log_durable_def image_of_def wf_pm_def)
  with d show "ring_rep s qs ps" unfolding log_durable_def ring_rep_def log_image_def by blast
qed

lemma log_durable_crash:
  assumes "log_durable flushed s qs ps" and "crash_image (psm_mem s) img"
  shows "holds_log img (log_base s) qs"
proof -
  obtain lt t h l where "counters lt t h l s" "log_image (log_base s) t qs h img"
    using assms unfolding log_durable_def crash_image_pv by blast
  then show ?thesis by (intro holds_logI [of t h]) (auto simp: counters_def)
qed

section \<open>Addresses\<close>

definition ring_window :: "addr \<Rightarrow> nat \<Rightarrow> nat \<Rightarrow> addr set" where
  "ring_window b v w = {buf_at b + of_nat (i mod RING) | i. v \<le> i \<and> i < w}"

lemma window_mono: "v \<le> v' \<Longrightarrow> ring_window b v' w \<subseteq> ring_window b v w"
  unfolding ring_window_def using le_trans by blast

lemma ring_offset: "p < RING \<Longrightarrow> unat (buf_at b + of_nat p - b) = 128 + p"
proof -
  assume "p < RING"
  then have "unat (b + of_nat (128 + p) - b) = 128 + p" by (simp add: unat_of_nat_small del: of_nat_add)
  then show ?thesis by (simp add: add.assoc)
qed

lemma window_header: "x \<in> ring_window b v w \<Longrightarrow> 128 \<le> unat (x - b)"
  unfolding ring_window_def using ring_offset [of "i mod RING" b for i] by auto

lemma window_apart:
  assumes "i < v" and "w \<le> i + RING"
  shows "buf_at b + of_nat (i mod RING) \<notin> ring_window b v w"
proof
  assume "buf_at b + of_nat (i mod RING) \<in> ring_window b v w"
  then obtain j where j: "v \<le> j" "j < w" "(of_nat (i mod RING) :: u64) = of_nat (j mod RING)" by (auto simp: ring_window_def)
  then have "i mod RING = j mod RING" by (metis unat_mod_ring)
  moreover have "i mod RING \<noteq> j mod RING" using assms j by (intro ring_apart) auto
  ultimately show False by simp
qed

lemma word_header: "x \<in> word_at (b + of_nat k) \<Longrightarrow> k + 8 \<le> 128 \<Longrightarrow> unat (x - b) < 128"
  using unat_window_shift [of k x b] by (auto split: if_splits)

lemma word_ring: "k + 8 \<le> 128 \<Longrightarrow> p < RING \<Longrightarrow> buf_at b + of_nat p \<notin> word_at (b + of_nat k)"
  using word_header [of "buf_at b + of_nat p" b k] ring_offset [of p b] by auto

lemma load_frame:
  assumes "k + 8 \<le> 128" and "\<And>x. unat (x - b) < 128 \<Longrightarrow> m x = m' x"
  shows "load_u64 m (b + of_nat k) = load_u64 m' (b + of_nat k)"
proof -
  have "rd m (b + of_nat k) 8 = rd m' (b + of_nat k) 8"
  proof (rule rd_cong)
    fix i :: nat
    assume "i < 8"
    then have "unat (b + of_nat (k + i) - b) < 128" using assms(1) by (simp add: unat_of_nat_small del: of_nat_add)
    then show "m (b + of_nat k + of_nat i) = m' (b + of_nat k + of_nat i)" using assms(2) by (simp add: add.assoc)
  qed
  then show ?thesis by (simp add: load_u64_def)
qed

lemma chain_off_window:
  assumes "chain m0 (buf_at b) v es w" and "\<forall>x. x \<notin> W \<longrightarrow> m x = m0 x" and "W \<subseteq> ring_window b w' u" and "w \<le> w'" and "u \<le> v + RING"
  shows "chain m (buf_at b) v es w"
  by (rule chain_frame [OF assms(1)]) (use assms(2-) window_apart [of _ w' u b] in force)

lemma log_image_off_window:
  assumes "log_image b t qs h m0" and "\<forall>x. x \<notin> W \<longrightarrow> m x = m0 x" and "W \<subseteq> ring_window b w' u" and "h \<le> w'" and "u \<le> t + RING"
  shows "log_image b t qs h m"
proof -
  have "m x = m0 x" if "unat (x - b) < 128" for x using assms(2,3) window_header [of x b w' u] that by force
  from load_frame [of 0 b m m0, OF _ this] load_frame [of 64 b m m0, OF _ this]
  have "load_u64 m b = load_u64 m0 b" "load_u64 m (tail_at b) = load_u64 m0 (tail_at b)" by simp_all
  then show ?thesis using assms(1) chain_off_window [OF _ assms(2-5)] by (simp add: log_image_def)
qed

section \<open>Pushing\<close>

text \<open>
  \<open>pmem_memcpy_nodrain\<close> as libpmem documents it: it writes the destination only, and the next
  fence makes the copy durable.
\<close>

definition copies_nodrain :: "(addr \<Rightarrow> byte list \<Rightarrow> pmem \<Rightarrow> pmem) \<Rightarrow> bool" where
  "copies_nodrain mc \<longleftrightarrow> (\<forall>d bs P. wf_pm P \<longrightarrow> length bs < RING \<longrightarrow>
     cur (mc d bs P) = wr d bs (cur P) \<and>
     (\<exists>es. mc d bs P = pm_run es P \<and> (\<forall>e \<in> set es. writes_in {x. unat (x - d) < length bs} e)) \<and>
     (\<forall>img. image_of (fv (mc d bs P)) img \<longrightarrow> rd img d (length bs) = bs))"

lemma copies_nodrain_copies: "copies_nodrain mc \<Longrightarrow> copies mc"
  unfolding copies_nodrain_def copies_def by (metis wf_pm_run)

text \<open>The stores of a push lie in the part of the ring that the entry and its padding take.\<close>

lemma pushed_window:
  assumes e: "entry_ok e"
  shows "{x. unat (x - (buf_at b + of_nat ((l + pad l e) mod RING))) < length e} \<subseteq> ring_window b (l + pad l e) (l + span l e)"
proof
  fix x
  let ?d = "buf_at b + of_nat ((l + pad l e) mod RING)"
  assume "x \<in> {x. unat (x - ?d) < length e}"
  define k where "k = unat (x - ?d)"
  then have k: "k < length e" "x = ?d + of_nat k" using \<open>x \<in> _\<close> by simp_all
  have len: "length e \<le> round64 (length e)" by (rule round64_bounds)
  have "(l + pad l e) mod RING + k < RING" using pad_place [OF e, of l] k(1) len by linarith
  then have "(l + pad l e + k) mod RING = (l + pad l e) mod RING + k" by (metis mod_add_left_eq mod_less)
  then have "x = buf_at b + of_nat ((l + pad l e + k) mod RING)" using k(2) by (simp add: add.assoc)
  moreover have "l + pad l e + k < l + span l e" using k(1) len by (simp add: span_def)
  ultimately show "x \<in> ring_window b (l + pad l e) (l + span l e)" unfolding ring_window_def by force
qed

lemma pad_mem_run:
  assumes e: "entry_ok e" and wf: "wf_pm (psm_mem s)"
  obtains es where "pad_mem l e s = pm_run es (psm_mem s)"
    and "\<forall>ev \<in> set es. writes_in (ring_window (log_base s) l (l + span l e)) ev"
    and "\<And>img. image_of (fv (pad_mem l e s)) img \<Longrightarrow> pad l e \<noteq> 0 \<Longrightarrow> img (buf_at (log_base s) + of_nat (l mod RING)) = 0"
proof (cases "pad l e = 0")
  case True
  then show thesis by (intro that [of "[]"]) (simp_all add: pad_mem_def)
next
  case False
  let ?a = "buf_at (log_base s) + of_nat (l mod RING)"
  have w: "?a \<in> ring_window (log_base s) l (l + span l e)" using span_pos [OF e, of l] unfolding ring_window_def by force
  have run: "pad_mem l e s = pm_run [Store ?a [0], Flush ?a] (psm_mem s)"
    using False by (simp add: pad_mem_def pmem_flush_invalidate_def)
  show thesis
  proof (rule that [OF run])
    show "\<forall>ev \<in> set [Store ?a [0], Flush ?a]. writes_in (ring_window (log_base s) l (l + span l e)) ev"
      using w by (auto simp: unat_0_iff)
    show "img ?a = 0" if "image_of (fv (pad_mem l e s)) img" for img
      using that unfolding image_of_def run by (drule_tac spec [of _ "line ?a"]) (auto simp: wr_single)
  qed
qed

lemma psm_push_durable:
  assumes d: "log_durable flushed s qs ps" and e: "entry_ok e" and mc: "copies_nodrain mc"
    and r: "psm_push mc (\<lambda>_. tail s) e s = Some res"
  shows "\<exists>s'. res = Inr s' \<and> log_base s' = log_base s \<and> (flushed \<longrightarrow> log_durable True s' qs (ps @ [e])) \<and>
    (\<forall>img. crash_during (psm_mem s) (psm_mem s') img \<longrightarrow> holds_log img (log_base s) qs)"
proof -
  let ?b = "log_base s" and ?P = "psm_mem s"
  obtain lt t h l where b: "base_ok ?b" and wf: "wf_pm ?P" and c: "counters lt t h l s"
    and im: "\<And>img. image_of (pv ?P) img \<Longrightarrow> log_image ?b t qs h img"
    and fl: "\<And>img. flushed \<Longrightarrow> image_of (fv ?P) img \<Longrightarrow> chain img (buf_at ?b) h ps l"
    using d unfolding log_durable_def by metis
  define dst where "dst = buf_at ?b + of_nat ((l + pad l e) mod RING)"
  define P' where "P' = mc dst e (pad_mem l e s)"
  obtain u where res: "res = Inr (s\<lparr>local_tail := of_nat (u mod RING), local_head := of_nat ((l + span l e) mod RING), psm_mem := P'\<rparr>)"
    and u: "u \<le> t" and fit: "l + span l e < u + RING"
    and c': "counters u t h (l + span l e) (s\<lparr>local_tail := of_nat (u mod RING), local_head := of_nat ((l + span l e) mod RING), psm_mem := P'\<rparr>)"
    by (rule psm_push_shape [OF c b e r]) (simp add: P'_def dst_def)
  let ?W = "ring_window ?b l (l + span l e)" and ?D = "{x. unat (x - dst) < length e}"
  have hl: "t \<le> h" "h \<le> l" "t mod 64 = 0" "h < t + RING" using c by (auto simp: counters_def)
  have len: "length e < RING" using round64_bounds(1) [of "length e"] e by (simp add: entry_ok_def)
  obtain es where es: "pad_mem l e s = pm_run es ?P" "\<forall>ev \<in> set es. writes_in ?W ev"
    "\<And>img. image_of (fv (pad_mem l e s)) img \<Longrightarrow> pad l e \<noteq> 0 \<Longrightarrow> img (buf_at ?b + of_nat (l mod RING)) = 0"
    using pad_mem_run [OF e wf, of l] by metis
  have wf1: "wf_pm (pad_mem l e s)" unfolding es(1) by (rule wf_pm_run [OF wf])
  obtain fs where fs: "P' = pm_run fs (pad_mem l e s)" "\<forall>ev \<in> set fs. writes_in ?D ev"
    and new: "\<And>img. image_of (fv P') img \<Longrightarrow> rd img dst (length e) = e"
    using mc wf1 len unfolding copies_nodrain_def P'_def by blast
  have D: "?D \<subseteq> ring_window ?b (l + pad l e) (l + span l e)" "?D \<subseteq> ?W"
    unfolding dst_def using pushed_window [OF e, of ?b l] window_mono [of l "l + pad l e" ?b "l + span l e"] by auto
  have all: "P' = pm_run (es @ fs) ?P" "\<forall>ev \<in> set (es @ fs). writes_in ?W ev"
    using fs es D(2) writes_in_mono by auto
  have wf': "wf_pm P'" unfolding all(1) by (rule wf_pm_run [OF wf])
  have keep: "log_image ?b t qs h img" if "image_of (pv ?P) img0" "\<forall>x. x \<notin> ?W \<longrightarrow> img x = img0 x" for img0 img
    by (rule log_image_off_window [OF im [OF that(1)] that(2) subset_refl]) (use hl fit u in auto)
  have crash: "holds_log img ?b qs" if cd: "crash_during ?P P' img" for img
  proof -
    obtain img0 where "image_of (pv ?P) img0" "\<forall>x. x \<notin> ?W \<longrightarrow> img x = img0 x"
      using crash_during_run [OF wf all(2), of img] cd unfolding all(1) crash_image_pv by blast
    then show ?thesis by (rule holds_logI [OF hl(3,4) keep])
  qed
  let ?s = "s\<lparr>local_tail := of_nat (u mod RING), local_head := of_nat ((l + span l e) mod RING), psm_mem := P'\<rparr>"
  have "log_durable True ?s qs (ps @ [e])" if flushed
  proof (rule log_durableI [OF _ _ c'])
    show "log_image (log_base ?s) t qs h img" if "image_of (pv (psm_mem ?s)) img" for img
      using run_images [OF wf all(2), of pv img] that keep by (auto simp: all(1))
    show "chain img (buf_at (log_base ?s)) h (ps @ [e]) (l + span l e)" if i: "image_of (fv (psm_mem ?s)) img" for img
    proof -
      have i': "image_of (fv P') img" using i by simp
      obtain img0 where "image_of (fv ?P) img0" "\<forall>x. x \<notin> ?W \<longrightarrow> img x = img0 x"
        using run_images [OF wf all(2), of fv img] i' by (auto simp: all(1))
      then have "chain img (buf_at ?b) h ps l"
        by (intro chain_off_window [OF fl [OF \<open>flushed\<close>] _ subset_refl]) (use hl fit u in auto)
      moreover obtain img1 where "image_of (fv (pad_mem l e s)) img1" "\<forall>x. x \<notin> ?D \<longrightarrow> img x = img1 x"
        using run_images [OF wf1 fs(2), of fv img] i' by (auto simp: fs(1))
      then have "img (buf_at ?b + of_nat (l mod RING)) = 0" if "pad l e \<noteq> 0"
        using es(3) [OF _ that] window_apart [of l "l + pad l e" "l + span l e" ?b] D(1) that hl fit u by force
      moreover have "stored_at img (buf_at ?b) ((l + pad l e) mod RING) e"
        using new [OF i'] pad_place [OF e] by (simp add: stored_at_def dst_def)
      ultimately show ?thesis using e by (auto simp: chain_append)
    qed
  qed (use b wf' in simp_all)
  with res crash show ?thesis by simp
qed

section \<open>Committing\<close>

lemma pv_flushes: "pv (pm_run (flushes b i n) P) = pv P"
  by (induction n arbitrary: i P) (simp_all add: fun_eq_iff)

lemma writes_in_flushes: "\<forall>e \<in> set (flushes b i n). writes_in W e"
  by (induction n arbitrary: i) auto

text \<open>Once flushed, a line stays so while nothing is stored.\<close>

lemma fv_flushes_kept: "fv P l = [cur P] \<Longrightarrow> fv (pm_run (flushes b i n) P) l = [cur P]"
  by (induction n arbitrary: i P) auto

lemma fv_flushes: "j < n \<Longrightarrow> fv (pm_run (flushes b i n) P) (line (b + of_nat ((i + j * 64) mod RING))) = [cur P]"
proof (induction n arbitrary: i j P)
  case (Suc n)
  show ?case
  proof (cases j)
    case 0
    then show ?thesis using fv_flushes_kept [of "pm_step (Flush (b + of_nat (i mod RING))) P"] by simp
  next
    case (Suc j')
    with Suc.IH [of j' "i + 64"] Suc.prems show ?thesis by (simp add: add.assoc)
  qed
qed simp

lemma flushed_window:
  assumes b: "base_ok b" and h: "h mod 64 = 0" and i: "h \<le> i" "i < h + n * 64"
    and img: "image_of (fv (pm_run (flushes (buf_at b) h n) P)) img"
  shows "img (buf_at b + of_nat (i mod RING)) = cur P (buf_at b + of_nat (i mod RING))"
proof -
  define j where "j = (i - h) div 64"
  define r where "r = (i - h) mod 64"
  have jr: "i = h + j * 64 + r" "r < 64" "j < n"
    using i by (simp_all add: j_def r_def less_mult_imp_div_less)
  let ?v = "(h + j * 64) mod RING"
  have v: "(h + j * 64) mod 64 = 0" using h by simp
  note v64 = v mod_ring_64 [OF v]
  then obtain q where "?v = 64 * q" by auto
  moreover from this have "q < 16384" using mod_less_divisor [of RING "h + j * 64"] by simp
  ultimately have "?v + r < RING" using jr(2) by linarith
  then have "i mod RING = ?v + r" unfolding jr(1) by (metis mod_add_left_eq mod_less)
  then have a: "buf_at b + of_nat (i mod RING) = buf_at b + of_nat ?v + of_nat r" by (simp add: add.assoc)
  have "unat (buf_at b + of_nat ?v + of_nat r - (buf_at b + of_nat ?v)) < 64" using jr(2) by (simp add: unat_of_nat_small)
  then have "line (buf_at b + of_nat (i mod RING)) = line (buf_at b + of_nat ?v)"
    unfolding a using line_window [OF buf_aligned [OF b v64(1)]] by blast
  with fv_flushes [OF jr(3), of "buf_at b" h P] img show ?thesis unfolding image_of_def by (metis empty_iff insert_iff list.set(1,2))
qed

text \<open>A word of the header is apart from the other one and from the buffer.\<close>

lemma word_frame:
  assumes "k \<in> {0, 64}" and "\<forall>x. x \<notin> word_at (b + of_nat k) \<longrightarrow> m x = m0 x"
  shows "chain m0 (buf_at b) v es w \<Longrightarrow> chain m (buf_at b) v es w"
    and "j \<in> {0, 64} \<Longrightarrow> j \<noteq> k \<Longrightarrow> load_u64 m (b + of_nat j) = load_u64 m0 (b + of_nat j)"
proof -
  have k: "k + 8 \<le> 128" using assms(1) by auto
  show "chain m (buf_at b) v es w" if "chain m0 (buf_at b) v es w"
    by (rule chain_frame [OF that]) (use assms(2) word_ring [OF k] in simp)
  show "load_u64 m (b + of_nat j) = load_u64 m0 (b + of_nat j)" if j: "j \<in> {0, 64}" "j \<noteq> k"
  proof -
    have "b + of_nat j + of_nat i \<notin> word_at (b + of_nat k)" if "i < 8" for i
    proof -
      have "unat (b + of_nat (j + i) - b) = j + i" using j(1) \<open>i < 8\<close> by (auto simp: unat_of_nat_small simp del: of_nat_add)
      then have "unat (b + of_nat j + of_nat i - b) = j + i" by (simp add: add.assoc)
      then show ?thesis using unat_window_shift [of k "b + of_nat j + of_nat i" b] j assms(1) \<open>i < 8\<close> by (auto split: if_splits)
    qed
    then have "rd m (b + of_nat j) 8 = rd m0 (b + of_nat j) 8" using assms(2) by (intro rd_cong) blast
    then show ?thesis by (simp add: load_u64_def)
  qed
qed

lemma psm_commit_mem:
  assumes c: "counters lt t h l s" and b: "base_ok (log_base s)" and ne: "local_head s \<noteq> head s"
  obtains es where "psm_commit push_only s = Some (Inr (update_head (local_head s) (s\<lparr>psm_mem := pm_run (es @ [Fence]) (psm_mem s)\<rparr>)))"
    and "\<forall>e \<in> set es. writes_in {} e" and "pv (pm_run es (psm_mem s)) = pv (psm_mem s)"
    and "\<And>img i. \<not> push_only \<Longrightarrow> image_of (fv (pm_run es (psm_mem s))) img \<Longrightarrow> h \<le> i \<Longrightarrow> i < l \<Longrightarrow>
      img (buf_at (log_base s) + of_nat (i mod RING)) = cur (psm_mem s) (buf_at (log_base s) + of_nat (i mod RING))"
proof (cases push_only)
  case True
  show thesis
    by (rule that [of "[]"]) (use True ne in \<open>simp_all add: psm_commit_def pmem_drain_def\<close>)
next
  case False
  have "64 dvd l - h" and hl: "h \<le> l" "l < h + RING" using c by (auto simp: counters_def mod_eq_0_iff_dvd intro!: dvd_diff_nat)
  then obtain n where "l - h = 64 * n" by (auto elim: dvdE)
  then have n: "l = h + n * 64" "n * 64 < RING" using hl by auto
  have h64: "h mod 64 = 0" and hs: "head s = of_nat (h mod RING)" "local_head s = of_nat (l mod RING)"
    using c by (auto simp: counters_def)
  have cf: "commit_flush (buf_at (log_base s)) (head s) (local_head s) (psm_mem s) =
      Some (Inr (pm_run (flushes (buf_at (log_base s)) h n) (psm_mem s)))"
    unfolding hs n(1) by (rule commit_flush_returns [OF b h64 n(2)])
  show thesis
  proof (rule that [OF _ writes_in_flushes pv_flushes])
    show "psm_commit push_only s = Some (Inr (update_head (local_head s)
        (s\<lparr>psm_mem := pm_run (flushes (buf_at (log_base s)) h n @ [Fence]) (psm_mem s)\<rparr>)))"
      using False ne cf by (simp add: psm_commit_def pmem_drain_def)
  qed (use flushed_window [OF b h64] n(1) in blast)
qed

text \<open>An empty commit.\<close>

lemma commit_nothing:
  assumes d: "log_durable flushed s qs ps" and eq: "local_head s = head s"
  shows "ps = [] \<and> log_durable True s qs []"
proof -
  obtain lt t h l where b: "base_ok (log_base s)" "wf_pm (psm_mem s)" and c: "counters lt t h l s"
    and im: "\<And>img. image_of (pv (psm_mem s)) img \<Longrightarrow> log_image (log_base s) t qs h img"
    and p: "chain (cur (psm_mem s)) (buf_at (log_base s)) h ps l"
    using d unfolding log_durable_def by metis
  have "(of_nat (l mod RING) :: u64) = of_nat (h mod RING)" using eq c unfolding counters_def by metis
  then have "l mod RING = h mod RING" by (metis unat_mod_ring)
  moreover have "h \<le> l" "l < h + RING" using c by (auto simp: counters_def)
  ultimately have "h = l" using ring_apart [of h l] by (metis le_neq_implies_less)
  moreover from this have "ps = []" using p chain_less by blast
  ultimately show ?thesis using log_durableI [OF b c im] by simp
qed

text \<open>The memory at the fence of a commit: the pending entries are durable, the head is still the old one.\<close>

lemma commit_drained:
  assumes b: "base_ok (log_base s)" and wf: "wf_pm (psm_mem s)"
    and im: "\<And>img. image_of (pv (psm_mem s)) img \<Longrightarrow> log_image (log_base s) t qs h img"
    and p: "chain (cur (psm_mem s)) (buf_at (log_base s)) h ps l"
    and fl: "\<And>img. push_only \<Longrightarrow> image_of (fv (psm_mem s)) img \<Longrightarrow> chain img (buf_at (log_base s)) h ps l"
    and es: "\<forall>e \<in> set es. writes_in {} e" "pv (pm_run es (psm_mem s)) = pv (psm_mem s)"
    and win: "\<And>img i. \<not> push_only \<Longrightarrow> image_of (fv (pm_run es (psm_mem s))) img \<Longrightarrow> h \<le> i \<Longrightarrow> i < l \<Longrightarrow>
      img (buf_at (log_base s) + of_nat (i mod RING)) = cur (psm_mem s) (buf_at (log_base s) + of_nat (i mod RING))"
    and img: "image_of (fv (pm_run es (psm_mem s))) img"
  shows "log_image (log_base s) t qs h img \<and> chain img (buf_at (log_base s)) t (qs @ ps) l"
proof -
  have "image_of (pv (psm_mem s)) img" using drained_image [OF wf_pm_run [OF wf] img] es(2) by simp
  then have "log_image (log_base s) t qs h img" by (rule im)
  moreover have "chain img (buf_at (log_base s)) h ps l"
  proof (cases push_only)
    case True
    obtain img0 where "image_of (fv (psm_mem s)) img0" "\<forall>x. x \<notin> {} \<longrightarrow> img x = img0 x"
      using run_images [OF wf es(1), of fv img] img by auto
    then have "img = img0" "image_of (fv (psm_mem s)) img0" by auto
    with fl [OF True] show ?thesis by simp
  next
    case False
    show ?thesis by (rule chain_frame [OF p win [OF False img]])
  qed
  ultimately show ?thesis unfolding log_image_def chain_append by blast
qed

text \<open>Publishing the head or the tail: the other word and the entries stay.\<close>

lemma header_write:
  assumes b: "base_ok b" and k: "k \<in> {0, 64}" "j \<in> {0, 64}" "j \<noteq> k" and wf: "wf_pm P"
  shows "image_of (pv (persist_word (b + of_nat k) v P)) img \<Longrightarrow> load_u64 img (b + of_nat k) = v \<and>
      (\<exists>img0. image_of (fv P) img0 \<and> load_u64 img (b + of_nat j) = load_u64 img0 (b + of_nat j) \<and>
         (\<forall>u es w. chain img0 (buf_at b) u es w \<longrightarrow> chain img (buf_at b) u es w))"
    and "crash_during P (persist_word (b + of_nat k) v P) img \<Longrightarrow>
      (load_u64 img (b + of_nat k) = v \<or> (\<exists>img0. image_of (pv P) img0 \<and> load_u64 img (b + of_nat k) = load_u64 img0 (b + of_nat k))) \<and>
      (\<exists>img0. image_of (pv P) img0 \<and> load_u64 img (b + of_nat j) = load_u64 img0 (b + of_nat j) \<and>
         (\<forall>u es w. chain img0 (buf_at b) u es w \<longrightarrow> chain img (buf_at b) u es w))"
proof -
  have al: "unat (b + of_nat k) mod 64 = 0"
  proof -
    have "unat b + k < 18446744073709551616" using b k(1) by (auto simp: base_ok_def)
    then have "unat (b + of_nat k) = unat b + k" by (rule unat_add_of_nat)
    then show ?thesis using b k(1) by (auto simp: base_ok_def)
  qed
  have fr: "load_u64 img (b + of_nat j) = load_u64 img0 (b + of_nat j) \<and>
      (\<forall>u es w. chain img0 (buf_at b) u es w \<longrightarrow> chain img (buf_at b) u es w)"
    if "\<forall>x. x \<notin> word_at (b + of_nat k) \<longrightarrow> img x = img0 x" for img0
    using word_frame(1) [OF k(1) that] word_frame(2) [OF k(1) that k(2,3)] by blast
  show "load_u64 img (b + of_nat k) = v \<and>
      (\<exists>img0. image_of (fv P) img0 \<and> load_u64 img (b + of_nat j) = load_u64 img0 (b + of_nat j) \<and>
         (\<forall>u es w. chain img0 (buf_at b) u es w \<longrightarrow> chain img (buf_at b) u es w))"
    if "image_of (pv (persist_word (b + of_nat k) v P)) img"
    using persist_word_images(1) [OF wf al that] fr by blast
  show "(load_u64 img (b + of_nat k) = v \<or> (\<exists>img0. image_of (pv P) img0 \<and> load_u64 img (b + of_nat k) = load_u64 img0 (b + of_nat k))) \<and>
      (\<exists>img0. image_of (pv P) img0 \<and> load_u64 img (b + of_nat j) = load_u64 img0 (b + of_nat j) \<and>
         (\<forall>u es w. chain img0 (buf_at b) u es w \<longrightarrow> chain img (buf_at b) u es w))"
    if "crash_during P (persist_word (b + of_nat k) v P) img"
    using persist_word_images(2) [OF wf al that] fr by blast
qed

lemma publish_head:
  assumes b: "base_ok b" and wf: "wf_pm P"
    and im: "\<And>img. image_of (pv P) img \<Longrightarrow> log_image b t qs h img \<and> chain img (buf_at b) t (qs @ ps) l"
  shows "image_of (pv (persist_word b (of_nat (l mod RING)) P)) img \<Longrightarrow> log_image b t (qs @ ps) l img"
    and "crash_during P (persist_word b (of_nat (l mod RING)) P) img \<Longrightarrow> log_image b t qs h img \<or> log_image b t (qs @ ps) l img"
proof -
  note h = header_write [OF b _ _ _ wf, of 0 64, simplified]
  show "log_image b t (qs @ ps) l img" if "image_of (pv (persist_word b (of_nat (l mod RING)) P)) img"
    using h(1) [OF that] im drained_image [OF wf] unfolding log_image_def by metis
  show "log_image b t qs h img \<or> log_image b t (qs @ ps) l img" if "crash_during P (persist_word b (of_nat (l mod RING)) P) img"
    using h(2) [OF that] im unfolding log_image_def by metis
qed

lemma publish_tail:
  assumes b: "base_ok b" and wf: "wf_pm P"
    and im: "\<And>img. image_of (pv P) img \<Longrightarrow> log_image b t qs h img \<and> chain img (buf_at b) t' qs' h"
  shows "image_of (pv (persist_word (tail_at b) (of_nat (t' mod RING)) P)) img \<Longrightarrow> log_image b t' qs' h img"
    and "crash_during P (persist_word (tail_at b) (of_nat (t' mod RING)) P) img \<Longrightarrow> log_image b t qs h img \<or> log_image b t' qs' h img"
proof -
  note h = header_write [OF b _ _ _ wf, of 64 0, simplified]
  show "log_image b t' qs' h img" if "image_of (pv (persist_word (tail_at b) (of_nat (t' mod RING)) P)) img"
    using h(1) [OF that] im drained_image [OF wf] unfolding log_image_def by metis
  show "log_image b t qs h img \<or> log_image b t' qs' h img" if "crash_during P (persist_word (tail_at b) (of_nat (t' mod RING)) P) img"
    using h(2) [OF that] im unfolding log_image_def by metis
qed

lemma psm_commit_durable:
  assumes d: "log_durable flushed s qs ps" and po: "push_only \<longrightarrow> flushed"
  shows "\<exists>s'. psm_commit push_only s = Some (Inr s') \<and> log_base s' = log_base s \<and> log_durable True s' (qs @ ps) [] \<and>
    (\<forall>img. crash_during (psm_mem s) (psm_mem s') img \<longrightarrow> holds_log img (log_base s) qs \<or> holds_log img (log_base s) (qs @ ps))"
proof (cases "local_head s = head s")
  case True
  with d have "ps = []" "log_durable True s qs []" using commit_nothing by blast+
  moreover have "holds_log img (log_base s) qs" if "crash_during (psm_mem s) (psm_mem s) img" for img
    using that by (intro log_durable_crash [OF d]) (simp add: crash_during_def)
  ultimately show ?thesis using True by (simp add: psm_commit_def)
next
  case False
  let ?b = "log_base s" and ?P = "psm_mem s"
  obtain lt t h l where b: "base_ok ?b" and wf: "wf_pm ?P" and c: "counters lt t h l s"
    and im: "\<And>img. image_of (pv ?P) img \<Longrightarrow> log_image ?b t qs h img" and p: "chain (cur ?P) (buf_at ?b) h ps l"
    and fl: "\<And>img. push_only \<Longrightarrow> image_of (fv ?P) img \<Longrightarrow> chain img (buf_at ?b) h ps l"
    using d po unfolding log_durable_def by metis
  obtain es where r: "psm_commit push_only s = Some (Inr (update_head (local_head s) (s\<lparr>psm_mem := pm_run (es @ [Fence]) ?P\<rparr>)))"
    and es: "\<forall>e \<in> set es. writes_in {} e" "pv (pm_run es ?P) = pv ?P"
    and win: "\<And>img i. \<not> push_only \<Longrightarrow> image_of (fv (pm_run es ?P)) img \<Longrightarrow> h \<le> i \<Longrightarrow> i < l \<Longrightarrow>
      img (buf_at ?b + of_nat (i mod RING)) = cur ?P (buf_at ?b + of_nat (i mod RING))"
    by (rule psm_commit_mem [OF c b False, of push_only]) blast
  have hv: "local_head s = of_nat (l mod RING)" and th: "t mod 64 = 0" "h < t + RING" "l < t + RING" using c by (auto simp: counters_def)
  define P3 where "P3 = pm_run (es @ [Fence]) ?P"
  define s' where "s' = update_head (local_head s) (s\<lparr>psm_mem := P3\<rparr>)"
  have s': "psm_mem s' = persist_word ?b (of_nat (l mod RING)) P3" "log_base s' = ?b" by (simp_all add: s'_def update_head_def hv)
  have wf3: "wf_pm P3" unfolding P3_def by (rule wf_pm_run [OF wf])
  have v3: "pv P3 = fv (pm_run es ?P)" by (simp add: P3_def fun_eq_iff)
  have dr: "log_image ?b t qs h img \<and> chain img (buf_at ?b) t (qs @ ps) l" if i: "image_of (pv P3) img" for img
    by (rule commit_drained [where push_only = push_only, OF b wf _ p _ es _ i [unfolded v3]]) (rule im fl win; assumption)+
  have "counters lt t l l s'" using c by (auto simp: counters_def s'_def update_head_def)
  then have "log_durable True s' (qs @ ps) []"
    by (intro log_durableI [where s = s']) (use b wf3 publish_head(1) [OF b wf3 dr] in \<open>simp_all add: s' wf_persist_word\<close>)
  moreover have "holds_log img ?b qs \<or> holds_log img ?b (qs @ ps)" if cd: "crash_during ?P (psm_mem s') img" for img
  proof -
    have w: "\<forall>e \<in> set (es @ [Fence]). writes_in {} e" using es(1) by simp
    consider "crash_during ?P P3 img" | "crash_during P3 (psm_mem s') img"
      using crash_during_split [OF cd [unfolded s'(1) persist_word_run P3_def, folded pm_run_append]]
      unfolding s'(1) persist_word_run P3_def by blast
    then show ?thesis
    proof cases
      case 1
      then obtain img0 where "image_of (pv ?P) img0" "\<forall>x. x \<notin> {} \<longrightarrow> img x = img0 x"
        using crash_during_run [OF wf w, of img] unfolding P3_def crash_image_pv by blast
      then have "image_of (pv ?P) img" by (simp add: image_of_def)
      then show ?thesis using holds_logI [OF th(1,2) im] by blast
    next
      case 2
      with publish_head(2) [OF b wf3 dr] s'(1) have "log_image ?b t qs h img \<or> log_image ?b t (qs @ ps) l img" by simp
      then show ?thesis using holds_logI [OF th(1,3)] holds_logI [OF th(1,2)] by blast
    qed
  qed
  ultimately show ?thesis using r s'(2) by (simp add: s'_def P3_def)
qed

section \<open>Consuming\<close>

lemma ring_take_durable:
  assumes mf: "message_format parse E" and d: "log_durable True s qs ps" and E: "set qs \<subseteq> E" and tk: "ring_take parse e s s'"
  shows "\<exists>qs'. qs = e # qs' \<and> log_durable True s' qs' ps \<and>
    (\<forall>img. crash_during (psm_mem s) (psm_mem s') img \<longrightarrow> holds_log img (log_base s) qs \<or> holds_log img (log_base s) qs')"
proof -
  let ?b = "log_base s" and ?P = "psm_mem s"
  obtain lt t h l where b: "base_ok ?b" and wf: "wf_pm ?P" and c: "counters lt t h l s"
    and im: "\<And>img. image_of (pv ?P) img \<Longrightarrow> log_image ?b t qs h img"
    and fl: "\<And>img. image_of (fv ?P) img \<Longrightarrow> chain img (buf_at ?b) h ps l"
    using d unfolding log_durable_def by metis
  have "image_of (pv ?P) (cur ?P)" using wf by (auto simp: wf_pm_def image_of_def)
  then have q: "chain (cur ?P) (buf_at ?b) t qs h" using im by (simp add: log_image_def)
  define t' where "t' = t + span t e"
  obtain qs' where qs: "qs = e # qs'" and s': "s' = update_tail (of_nat (t' mod RING)) s"
    using ring_take_shape [OF mf c q b E tk] by (auto simp: t'_def)
  have q': "chain m (buf_at ?b) t' qs' h" if "chain m (buf_at ?b) t qs h" for m using that qs by (simp add: t'_def)
  have im': "log_image ?b t qs h img \<and> chain img (buf_at ?b) t' qs' h" if "image_of (pv ?P) img" for img
    using im [OF that] q' by (simp add: log_image_def)
  have mem: "psm_mem s' = persist_word (tail_at ?b) (of_nat (t' mod RING)) ?P" "log_base s' = ?b" by (simp_all add: s' update_tail_def)
  note h = header_write [OF b _ _ _ wf, of 64 0, simplified]
  have c': "counters lt t' h l s'" unfolding s' t'_def by (rule counters_take [OF c]) (use chain_le [OF q' [OF q]] in \<open>simp add: t'_def\<close>)
  then have th: "t mod 64 = 0" "h < t + RING" "t' mod 64 = 0" "h < t' + RING" using c by (auto simp: counters_def)
  have "log_durable True s' qs' ps"
  proof (rule log_durableI [OF _ _ c'])
    show "log_image (log_base s') t' qs' h img" if "image_of (pv (psm_mem s')) img" for img
      using publish_tail(1) [OF b wf im'] that by (simp add: mem)
    show "chain img (buf_at (log_base s')) h ps l" if "image_of (fv (psm_mem s')) img" for img
      using h(1) that fl unfolding mem fv_persist_word by blast
  qed (use b wf in \<open>simp_all add: mem wf_persist_word\<close>)
  moreover have "holds_log img ?b qs \<or> holds_log img ?b qs'" if cd: "crash_during ?P (psm_mem s') img" for img
  proof -
    have "log_image ?b t qs h img \<or> log_image ?b t' qs' h img" using publish_tail(2) [OF b wf im'] cd by (simp add: mem)
    then show ?thesis using holds_logI [OF th(1,2)] holds_logI [OF th(3,4)] by blast
  qed
  ultimately show ?thesis using qs by blast
qed

section \<open>The log as a whole\<close>

text \<open>
  The durable log is a FIFO, too. The producer pushes with a copy routine that keeps its
  contract; both kinds of commit are allowed.
\<close>

definition durable_state :: "byte list set \<Rightarrow> psm \<Rightarrow> byte list list \<Rightarrow> byte list list \<Rightarrow> bool" where
  "durable_state E s qs ps \<longleftrightarrow> log_durable True s qs ps \<and> set qs \<union> set ps \<subseteq> E"

definition durable_push :: "byte list set \<Rightarrow> byte list \<Rightarrow> psm \<Rightarrow> psm \<Rightarrow> bool" where
  "durable_push E e s s' \<longleftrightarrow> e \<in> E \<and> (\<exists>mc. copies_nodrain mc \<and> psm_push mc (\<lambda>_. tail s) e s = Some (Inr s'))"

lemma durable_steps:
  assumes mf: "message_format parse E" and st: "durable_state E s qs ps"
  shows "durable_push E e s s' \<Longrightarrow> durable_state E s' qs (ps @ [e]) \<and>
      (\<forall>img. crash_during (psm_mem s) (psm_mem s') img \<longrightarrow> holds_log img (log_base s) qs)"
    and "ring_publish s s' \<Longrightarrow> durable_state E s' (qs @ ps) [] \<and>
      (\<forall>img. crash_during (psm_mem s) (psm_mem s') img \<longrightarrow> holds_log img (log_base s) qs \<or> holds_log img (log_base s) (qs @ ps))"
    and "ring_take parse e s s' \<Longrightarrow> \<exists>qs'. qs = e # qs' \<and> durable_state E s' qs' ps \<and>
      (\<forall>img. crash_during (psm_mem s) (psm_mem s') img \<longrightarrow> holds_log img (log_base s) qs \<or> holds_log img (log_base s) qs')"
proof -
  have d: "log_durable True s qs ps" and E: "set qs \<subseteq> E" "set ps \<subseteq> E" using st by (auto simp: durable_state_def)
  show "durable_state E s' qs (ps @ [e]) \<and> (\<forall>img. crash_during (psm_mem s) (psm_mem s') img \<longrightarrow> holds_log img (log_base s) qs)"
    if "durable_push E e s s'"
    using that psm_push_durable [OF d] message_format.message_ok [OF mf] E unfolding durable_push_def durable_state_def by fastforce
  show "durable_state E s' (qs @ ps) [] \<and>
      (\<forall>img. crash_during (psm_mem s) (psm_mem s') img \<longrightarrow> holds_log img (log_base s) qs \<or> holds_log img (log_base s) (qs @ ps))"
    if p: "ring_publish s s'"
  proof -
    obtain po where "psm_commit po s = Some (Inr s')" using p by (auto simp: ring_publish_def)
    with psm_commit_durable [OF d, of po] E show ?thesis by (auto simp: durable_state_def)
  qed
  show "\<exists>qs'. qs = e # qs' \<and> durable_state E s' qs' ps \<and>
      (\<forall>img. crash_during (psm_mem s) (psm_mem s') img \<longrightarrow> holds_log img (log_base s) qs \<or> holds_log img (log_base s) qs')"
    if "ring_take parse e s s'"
    using ring_take_durable [OF mf d E(1) that] E by (auto simp: durable_state_def)
qed

context message_format
begin

lemma durable_fifo_log: "fifo_log (durable_state messages) (durable_push messages) ring_publish (ring_take parse)"
  using durable_steps [OF message_format_axioms] by unfold_locales blast+

end

sublocale message_format \<subseteq> durable: fifo_log "durable_state messages" "durable_push messages" ring_publish "ring_take parse"
  by (rule durable_fifo_log)

text \<open>
  C3. Committed commands survive. Take any interleaving of pushes, commits (with or without
  \<open>push_only\<close>) and consumptions on an empty durable log, and a power failure anywhere in
  one further operation. The memory it leaves holds, between the durable tail and the durable
  head and byte by byte, exactly the entries that were committed and not consumed; only if
  the operation is a commit may all pending entries be there as well, and only if it is
  a consumption may the entry it took be gone. A batch is never published in part.
\<close>

theorem psm_log_survives:
  assumes "message_format parse E" and "durable_state E s0 [] []"
    and "fifo_run (durable_push E) ring_publish (ring_take parse) s0 ins outs s"
    and "durable_push E e s s' \<or> ring_publish s s' \<or> ring_take parse e s s'"
    and "crash_during (psm_mem s) (psm_mem s') img"
  shows "\<exists>qs ps q. ins = outs @ qs @ ps \<and> ring_state E s qs ps \<and> holds_log img (log_base s) q \<and>
    (q = qs \<or> ring_publish s s' \<and> q = qs @ ps \<or> ring_take parse e s s' \<and> qs = e # q)"
proof -
  obtain qs ps where r: "durable_state E s qs ps" "ins = outs @ qs @ ps"
    using fifo_log.run_fifo [OF message_format.durable_fifo_log [OF assms(1)] assms(3,2)] by blast
  have st: "ring_state E s qs ps"
    using r(1) log_durable_ring [of True s qs ps] by (simp add: durable_state_def ring_state_def) (simp add: log_durable_def)
  note d = durable_steps [OF assms(1) r(1)]
  show ?thesis using assms(4)
  proof (elim disjE)
    assume "durable_push E e s s'"
    with d(1) assms(5) have "holds_log img (log_base s) qs" by blast
    with r(2) st show ?thesis by blast
  next
    assume p: "ring_publish s s'"
    with d(2) assms(5) have "holds_log img (log_base s) qs \<or> holds_log img (log_base s) (qs @ ps)" by blast
    with p r(2) st show ?thesis by blast
  next
    assume t: "ring_take parse e s s'"
    with d(3) assms(5) obtain qs' where "qs = e # qs'" "holds_log img (log_base s) qs \<or> holds_log img (log_base s) qs'" by blast
    with t r(2) st show ?thesis by blast
  qed
qed

text \<open>A copy with non-temporal stores keeps the contract of \<open>pmem_memcpy_nodrain\<close>.\<close>

abbreviation nt_copy :: "addr \<Rightarrow> byte list \<Rightarrow> pmem \<Rightarrow> pmem" where
  "nt_copy d bs P \<equiv> pm_step (NTStore d bs) P"

lemma nt_copies: "copies_nodrain nt_copy"
  unfolding copies_nodrain_def
proof (intro allI impI conjI)
  fix d :: addr and bs :: "byte list" and P img
  assume wf: "wf_pm P" and len: "length bs < RING"
  show "cur (nt_copy d bs P) = wr d bs (cur P)" by simp
  show "\<exists>es. nt_copy d bs P = pm_run es P \<and> (\<forall>e \<in> set es. writes_in {x. unat (x - d) < length bs} e)"
    by (rule exI [of _ "[NTStore d bs]"]) simp
  assume img: "image_of (fv (nt_copy d bs P)) img"
  have "img (d + of_nat i) = wr d bs (cur P) (d + of_nat i)" if "i < length bs" for i
  proof -
    have "line (d + of_nat i) \<in> set (lines_of d (length bs))" using that by (auto simp: lines_of_def)
    then have "fv (nt_copy d bs P) (line (d + of_nat i)) = [wr d bs (cur P)]" by simp
    with img show ?thesis unfolding image_of_def by (metis empty_iff insert_iff list.set(1,2))
  qed
  then have "rd img d (length bs) = rd (wr d bs (cur P)) d (length bs)" by (rule rd_cong)
  also have "\<dots> = bs" using len by (intro rd_wr_same) simp
  finally show "rd img d (length bs) = bs" .
qed

lemma demo_psm_durable: "durable_state E demo_psm [] []"
proof -
  have c: "counters 0 0 0 0 demo_psm" by (simp add: counters_def)
  have z: "log_image 0x100000 0 [] 0 (\<lambda>_. 0)" by (simp add: log_image_def load_u64_def rd_def upt_rec)
  have "img = (\<lambda>_. 0)" if "image_of (pv (boot (\<lambda>_. 0))) img" for img using that by (auto simp: image_of_def)
  with z have "log_durable True demo_psm [] []" by (intro log_durableI [OF _ _ c]) (auto simp: base_ok_def)
  then show ?thesis by (simp add: durable_state_def)
qed

lemma demo_durable_push: "\<exists>s1. durable_push sga_messages (sga_encode [[1]]) demo_psm s1"
proof -
  have c: "counters 0 0 0 0 demo_psm" and b: "base_ok (log_base demo_psm)" by (simp_all add: counters_def base_ok_def)
  have ok: "entry_ok (sga_encode [[1]])" by (rule sga.message_ok [OF demo_message])
  have "0 + span 0 (sga_encode [[1]]) < 0 + RING" by (simp add: span_def pad_def sga_encode_def round64_def)
  then obtain res where res: "psm_push nt_copy (\<lambda>_. tail demo_psm) (sga_encode [[1]]) demo_psm = Some res"
    using psm_push_returns [OF c b ok] by blast
  with psm_push_durable [OF _ ok nt_copies, of True demo_psm "[]" "[]"] demo_psm_durable obtain s1 where "res = Inr s1"
    unfolding durable_state_def by blast
  with res demo_message nt_copies show ?thesis unfolding durable_push_def by blast
qed

theorem psm_log_survives_witness:
  "\<exists>s s' q. durable_push sga_messages (sga_encode [[1]]) demo_psm s \<and> ring_publish s s' \<and>
     crash_during (psm_mem s) (psm_mem s') (cur (psm_mem s)) \<and> holds_log (cur (psm_mem s)) (log_base s) q \<and>
     q \<in> {[], [sga_encode [[1]]]}"
proof -
  let ?e = "sga_encode [[1]]"
  obtain s where p: "durable_push sga_messages ?e demo_psm s" using demo_durable_push by blast
  have d: "durable_state sga_messages s [] [?e]"
    using durable_steps(1) [OF sga.message_format_axioms demo_psm_durable p] by simp
  then have "log_durable True s [] [?e]" by (simp add: durable_state_def)
  then obtain s' where "psm_commit True s = Some (Inr s')" using psm_commit_durable [of True s "[]" "[?e]" True] by blast
  then have pub: "ring_publish s s'" by (auto simp: ring_publish_def)
  have "wf_pm (psm_mem s)" using d by (simp add: durable_state_def log_durable_def)
  then have cr: "crash_during (psm_mem s) (psm_mem s') (cur (psm_mem s))"
    unfolding crash_during_def by (intro exI [of _ 0]) (simp add: crash_image_cur)
  have run: "fifo_run (durable_push sga_messages) ring_publish (ring_take sga_len) demo_psm ([] @ [?e]) [] s"
    using p by (intro fifo_run.push [of _ _ _ demo_psm "[]" "[]" demo_psm] fifo_run.start)
  from psm_log_survives [OF sga.message_format_axioms demo_psm_durable run _ cr, of ?e] pub
  obtain qs ps q where "[?e] = qs @ ps" "holds_log (cur (psm_mem s)) (log_base s) q" "q = qs \<or> q = qs @ ps \<or> qs = ?e # q"
    by auto
  then have "q \<in> {[], [?e]}" "holds_log (cur (psm_mem s)) (log_base s) q" by (auto simp: Cons_eq_append_conv)
  with p pub cr show ?thesis by blast
qed

end
