(* ===== verification/Client.thy ===== *)
theory Client
  imports Background
begin

text \<open>
  The start of the instrumentation client in the background process: \<open>dr_client_main\<close> and
  \<open>event_exit\<close> of \<^verbatim>\<open>src/src/undo/instrument.cc\<close>, with \<open>map_undo_log\<close> and \<open>undo_log_exit\<close> of
  \<^verbatim>\<open>undo_log.h\<close>. At a restart the client recovers the memory, sends the regions and the
  tail to the foreground and waits for its answer. The handlers it registers with DynamoRIO are the
  functions of the theory Instrument; DynamoRIO's own initialisation is a list of results.
\<close>

section \<open>The undo log file\<close>

definition undo_log_size :: u64 where
  "undo_log_size = of_nat (CACHE_LINE_SIZE_B * UNDO_NUM_ENTRIES)"

definition map_undo_log :: "'w env \<Rightarrow> string \<Rightarrow> 'w \<Rightarrow> (addr \<times> 'w) result" where
  "map_undo_log E pmem_path w =
     (let (dirfd, w1) = my_open (kern E) pmem_path O_DIRECTORY 0 w in
      dr_assert (dirfd \<ge> 0) ''open pmem directory failed''
        (let (fd, w2) = my_openat (kern E) dirfd ''undo_log'' (or O_CREAT O_RDWR) 438 w1 in
         dr_assert (fd \<ge> 0) ''open undo log file failed''
           (let (ret, w3) = my_close (kern E) dirfd w2 in
            dr_assert (ret \<ge> 0) ''close pmem directory failed''
              (let (t, w4) = my_ftruncate (kern E) fd (uint undo_log_size) w3 in
               dr_assert (\<not> t < 0) ''truncate undo log file failed''
                 (let (addr, w5) = my_mmap (kern E) 0 undo_log_size RW (or MAP_SHARED_VALIDATE MAP_SYNC) fd 0 w4 in
                  dr_assert (addr \<noteq> MAP_FAILED) ''mmap undo log failed''
                    (let (c, w6) = my_close (kern E) fd w5 in
                     dr_assert (\<not> c < 0) ''close undo log file failed'' (Inr (addr, w6))))))))"

definition undo_log_exit :: "'w env \<Rightarrow> undo_log \<Rightarrow> 'w \<Rightarrow> 'w" where
  "undo_log_exit E u w = snd (my_munmap (kern E) (ul_log u) undo_log_size w)"

section \<open>Recovery\<close>

text \<open>The region manager as \<open>undo_log_recover\<close> uses it; results other than assertions are ignored there.\<close>

definition mrm_ops_of :: "'w env \<Rightarrow> (mem_region_manager \<times> 'w) mrm_ops" where
  "mrm_ops_of E = \<lparr>
     mrm_commit_new_region_table = (\<lambda>s. (fst s, snd (commit_new_region_table E s))),
     mrm_clear_new_region_table = (\<lambda>s. (fst s, snd (clear_new_region_table E s))),
     mrm_recover = recover E,
     mrm_does_manage = (\<lambda>s. does_manage (fst s))\<rparr>"

text \<open>
  The first part of \<open>dr_client_main\<close>: construct the manager, open the undo log, and recover from
  both or else move the address space into files. \<open>P\<close> is the persistent memory, \<open>M\<close> the memory
  map of the process; the result has the recovered tail.
\<close>

definition client_recover ::
  "bool \<Rightarrow> 'w env \<Rightarrow> dr_memory \<Rightarrow> string \<Rightarrow> u64 \<Rightarrow> addr_table \<Rightarrow> pmem \<Rightarrow> bool \<Rightarrow> int \<Rightarrow> 'w \<Rightarrow>
   (int \<times> undo_log \<times> mem_region_manager \<times> 'w) result option" where
  "client_recover dedup E M pmem_path hash_mem hash0 P recovered_flag tail0 w =
     bind_ro (Some (mem_region_manager_init E pmem_path w)) (\<lambda>(m, w1).
     bind_ro (Some (map_undo_log E pmem_path w1)) (\<lambda>(log, w2).
     bind_ro (undo_log_init dedup log hash_mem hash0 recovered_flag P) (\<lambda>u.
       if recovered_flag
       then bind_ro (undo_log_recover dedup (mrm_ops_of E) u (m, w2)) (\<lambda>(t, u', m', w').
              Some (Inr (if t \<noteq> - 1 then t else tail0, u', m', w')))
       else bind_ro (init_address_space E M (m, w2)) (\<lambda>(m', w'). Some (Inr (tail0, u, m', w'))))))"

section \<open>The handshake with the foreground\<close>

text \<open>The two pipes of \<open>instrument_args\<close>: background to foreground and back.\<close>

record recovery_fds =
  btf_read :: int
  btf_write :: int
  ftb_read :: int
  ftb_write :: int

definition send_tail :: "'w env \<Rightarrow> int \<Rightarrow> int \<Rightarrow> 'w \<Rightarrow> 'w result" where
  "send_tail E fd t w =
     dr_assert (t \<ge> 0) ''recovered_tail >= 0''
       (let (n, w1) = my_write (kern E) fd (Buf (le_bytes 4 (word_of_int t :: u32))) 4 w; written = to_int (word_of_int n)
        in dr_assert (written \<ge> 0) ''written >= 0'' (dr_assert (written = 4) ''written == sizeof(recovered_tail)'' (Inr w1)))"

definition client_send :: "'w env \<Rightarrow> recovery_fds \<Rightarrow> int \<Rightarrow> mem_region_manager \<times> 'w \<Rightarrow> 'w result" where
  "client_send E p t s =
     (case s of (m, w) \<Rightarrow>
      let (c1, w1) = my_close (kern E) (btf_read p) w in
      dr_assert (\<not> c1 \<noteq> 0) ''closing read end of btf pipe failed''
        (let (c2, w2) = my_close (kern E) (ftb_write p) w1 in
         dr_assert (\<not> c2 \<noteq> 0) ''closing write end of ftb pipe failed''
           (bind_result (send_regions E (btf_write p) (m, w2)) (\<lambda>w3.
            bind_result (send_tail E (btf_write p) t w3) (\<lambda>w4.
              let (c3, w5) = my_close (kern E) (btf_write p) w4 in
              dr_assert (\<not> c3 \<noteq> 0) ''closing write end of btf pipe failed'' (Inr w5))))))"

definition client_await :: "'w env \<Rightarrow> recovery_fds \<Rightarrow> 'w \<Rightarrow> 'w result" where
  "client_await E p w =
     (case my_read (kern E) (ftb_read p) (Out 1) 1 w of ((n, _), w1) \<Rightarrow>
      dr_assert (\<not> n < 1) ''waiting for foreground failed''
        (let (c, w2) = my_close (kern E) (ftb_read p) w1 in
         dr_assert (\<not> c \<noteq> 0) ''closing read end of ftb pipe failed'' (Inr w2)))"

section \<open>\<open>dr_client_main\<close> and \<open>event_exit\<close>\<close>

text \<open>
  \<open>registered\<close> has the results of DynamoRIO's initialisation and registration calls, in order; each
  is asserted.
\<close>

definition dr_client_main ::
  "bool \<Rightarrow> 'w env \<Rightarrow> dr_memory \<Rightarrow> string \<Rightarrow> u64 \<Rightarrow> addr_table \<Rightarrow> recovery_fds \<Rightarrow> bool list \<Rightarrow> 'w bg \<Rightarrow> (int \<times> 'w bg) result option" where
  "dr_client_main dedup E M pmem_path hash_mem hash0 p registered b =
     bind_ro (client_recover dedup E M pmem_path hash_mem hash0 (psm_mem (psm_of b)) (recovered b) (recovered_tail b)
                (world (instr_of b))) (\<lambda>(t, u, m, w).
     bind_ro (Some (if recovered b then bind_result (client_send E p t (m, w)) (client_await E p) else Inr w)) (\<lambda>w'.
       if \<not> list_all id registered then Some (Inl (Assertion ''false''))
       else Some (Inr (0, set_mem (ul_mem u) (b\<lparr>recovered_tail := t, instr_of := (instr_of b)\<lparr>ul := u, mrm := m, world := w'\<rparr>\<rparr>)))))"

definition event_exit :: "'w env \<Rightarrow> 'w bg \<Rightarrow> 'w bg" where
  "event_exit E b = b\<lparr>instr_of := (instr_of b)\<lparr>world := undo_log_exit E (ul (instr_of b)) (world (instr_of b))\<rparr>\<rparr>"

end
