(* ===== verification/Foreground.thy ===== *)
theory Foreground
  imports Client
begin

text \<open>
  The foreground process at start and at recovery: \<open>psm_init\<close> of \<^verbatim>\<open>src/src/fg.cc\<close> and
  \<open>undo_recover_foreground\<close> of \<^verbatim>\<open>src/src/undo/undo_fg.cc\<close>. \<open>setjmp\<close> splits \<open>psm_init\<close>: the part behind it
  runs once after the part before it and again, on the restored state, after a restart;
  \<open>jumped\<close> tells which. \<open>pmem_map_file\<close> (libpmem) and \<open>fork\<close> are parameters; both
  processes run the part behind \<open>fork\<close>, each with its own result of it. Log output and the clock
  are left out.
\<close>

section \<open>Configuration and state\<close>

record 's psm_config =
  use_sga :: bool
  pin_core :: int
  consume_func :: "(addr \<Rightarrow> 's \<Rightarrow> (int \<times> 's) result option) option"
  cfg_mode :: psm_mode
  cfg_pmem_path :: string
  cfg_criu_service_path :: string
  cfg_imgs_dir :: string
  cfg_service_path :: string
  cfg_log_path :: "string option"

record 'w libs =
  lib_kernel :: "'w kernel"
  pmem_map_file :: "string \<Rightarrow> u64 \<Rightarrow> 'w \<Rightarrow> (addr \<times> bool \<times> int) \<times> 'w"
  fork :: "'w \<Rightarrow> (int \<times> int) \<times> 'w"

record 'w fg =
  fg_psm :: psm
  fg_chkpt :: "chkpt_state option"
  fg_recovered :: bool
  fg_fds :: recovery_fds
  fg_world :: 'w

datatype init_outcome = Returned int | RunsBackground

abbreviation (input) SYS_pipe :: int where "SYS_pipe \<equiv> 22"
abbreviation (input) SYS_sched_setaffinity :: int where "SYS_sched_setaffinity \<equiv> 203"
abbreviation (input) MAP_SHARED :: int where "MAP_SHARED \<equiv> 1"

text \<open>\<open>mmap\<close> of libc returns \<open>MAP_FAILED\<close> on an error; \<open>pipe\<close> fills two descriptors.\<close>

definition libc_mmap :: "'w kernel \<Rightarrow> u64 \<Rightarrow> u64 \<Rightarrow> int \<Rightarrow> int \<Rightarrow> int \<Rightarrow> int \<Rightarrow> 'w \<Rightarrow> (u64 \<times> int) \<times> 'w" where
  "libc_mmap k a n prot flags fd off w =
     (case syscall k SYS_mmap [Num a, Num n, num prot, num flags, num fd, num off] w of ((r, _), w') \<Rightarrow>
        if - 4095 \<le> sint r \<and> sint r < 0 then ((MAP_FAILED, - sint r), w') else ((r, 0), w'))"

definition libc_pipe :: "'w kernel \<Rightarrow> 'w \<Rightarrow> (int \<times> int \<times> int \<times> int) \<times> 'w" where
  "libc_pipe k w =
     (case libc_call k SYS_pipe [Out 8] w of ((r, e, out), w') \<Rightarrow>
        ((r, e, sint (le_word (take 4 out) :: u32), sint (le_word (drop 4 out) :: u32)), w'))"

section \<open>Pinning\<close>

text \<open>\<open>CPU_SET\<close> on a set of 1024 CPUs; a number beyond it sets no bit.\<close>

definition cpu_mask :: "int \<Rightarrow> byte list" where
  "cpu_mask i = map (\<lambda>j. if j = nat i div 8 then 2 ^ (nat i mod 8) else 0) [0..<128]"

definition pin_thread_to_core :: "'w kernel \<Rightarrow> int \<Rightarrow> 'w \<Rightarrow> (int \<times> 'w) result" where
  "pin_thread_to_core k i w =
     (if \<not> i \<ge> 0 then Inl (Assertion ''id >= 0'')
      else case libc_call k SYS_sched_setaffinity [num 0, Num 128, Buf (cpu_mask i)] w of ((r, e, _), w') \<Rightarrow>
        if r \<noteq> 0 then Inr (e, w') else Inr (0, w'))"

section \<open>Recovery of the foreground\<close>

text \<open>\<open>p_tail\<close> is what \<open>*p_tail\<close> holds before; the result is an error number or the new \<open>*p_tail\<close>.\<close>

definition undo_recover_foreground ::
  "'w kernel \<Rightarrow> string \<Rightarrow> recovery_fds \<Rightarrow> bool \<Rightarrow> int \<Rightarrow> 'w \<Rightarrow> (int + int \<times> 'w) option" where
  "undo_recover_foreground k pmem_path p recovered_flag p_tail w =
     (if \<not> recovered_flag then Some (Inr (p_tail, w))
      else case libc_close k (btf_write p) w of ((c1, e1), w1) \<Rightarrow>
        if c1 \<noteq> 0 then Some (Inl e1)
        else case libc_close k (ftb_read p) w1 of ((c2, e2), w2) \<Rightarrow>
          if c2 \<noteq> 0 then Some (Inl e2)
          else (case map_recovered_regions k pmem_path (btf_read p) w2 of
            None \<Rightarrow> None
          | Some (Inl ret) \<Rightarrow> Some (Inl ret)
          | Some (Inr w3) \<Rightarrow>
              (case libc_read k (btf_read p) 4 w3 of ((nread, e3, bs), w4) \<Rightarrow>
               if nread < 0 then Some (Inl e3)
               else if nread < 4 then Some (Inl EINVAL)
               else let recovered_tail = sint (le_word bs :: u32) in
               case libc_close k (btf_read p) w4 of ((c3, e4), w5) \<Rightarrow>
               if c3 \<noteq> 0 then Some (Inl e4)
               else case libc_write k (ftb_write p) [0] w5 of ((nwritten, e5), w6) \<Rightarrow>
               if nwritten < 0 then Some (Inl e5)
               else if nwritten < 1 then Some (Inl EINVAL)
               else case libc_close k (ftb_write p) w6 of ((c4, e6), w7) \<Rightarrow>
               if c4 \<noteq> 0 then Some (Inl e6)
               else if recovered_tail \<noteq> - 1
               then if recovered_tail < 0 then Some (Inl EINVAL) else Some (Inr (recovered_tail, w7))
               else Some (Inr (p_tail, w7)))))"

text \<open>The loop that executes the logged commands again; \<open>n\<close> counts them. \<open>tail\<close> is an \<open>int\<close> there.\<close>

partial_function (option) replay ::
  "('s \<Rightarrow> mem) \<Rightarrow> (addr \<Rightarrow> 's \<Rightarrow> (int \<times> 's) result option) \<Rightarrow> addr \<Rightarrow> u64 \<Rightarrow> int \<Rightarrow> nat \<Rightarrow> 's \<Rightarrow> (nat \<times> 's) result option" where
  "replay mem_of f b hd_off tl_off n s =
     (case consume mem_of f b hd_off (word_of_int tl_off) s of
        None \<Rightarrow> None
      | Some (Inl e) \<Rightarrow> Some (Inl e)
      | Some (Inr (nt, s')) \<Rightarrow>
          if to_int nt = - 1 then Some (Inr (n, s')) else replay mem_of f b hd_off (to_int nt) (Suc n) s')"

section \<open>\<open>psm_init\<close>\<close>

text \<open>Up to the \<open>switch\<close> on the mode; the new \<open>psm_t\<close> lies in zero pages. Results are an error number or the state.\<close>

definition psm_init_setup ::
  "'w libs \<Rightarrow> 's psm_config option \<Rightarrow> pmem \<Rightarrow> 'w \<Rightarrow>
   (int + 's psm_config \<times> (addr \<Rightarrow> 's \<Rightarrow> (int \<times> 's) result option) \<times> 'w fg) result" where
  "psm_init_setup L config P w =
     (case config of
        None \<Rightarrow> Inr (Inl EINVAL)
      | Some c \<Rightarrow>
          (case libc_mmap (lib_kernel L) 0 64 RW (or MAP_ANONYMOUS MAP_SHARED) (- 1) 0 w of ((mem, e), w1) \<Rightarrow>
           if mem = 0 then Inr (Inl e)
           else if mem = MAP_FAILED then Inl (Undefined ''new (MAP_FAILED) psm_t'')
           else case pmem_map_file L (cfg_pmem_path c @ ''/'' @ ''psm_log'') (128 + PSM_LOG_SIZE_B) w1 of ((log, is_pmem, e'), w2) \<Rightarrow>
           if log = 0 then Inr (Inl e')
           else if \<not> is_pmem then Inr (Inl ENOTSUP)
           else let s = \<lparr>fg_psm = \<lparr>log_base = log, mode = cfg_mode c, head = 0, tail = 0, local_head = 0, local_tail = 0,
                           psm_mem = psm_log_construct log P\<rparr>,
                fg_chkpt = None, fg_recovered = False,
                fg_fds = \<lparr>btf_read = 0, btf_write = 0, ftb_read = 0, ftb_write = 0\<rparr>, fg_world = w2\<rparr>
           in (case consume_func c of
             None \<Rightarrow> Inr (Inl EINVAL)
           | Some f \<Rightarrow> Inr (Inr (c, f, s)))))"

definition psm_init_mode :: "'w libs \<Rightarrow> 's psm_config \<Rightarrow> bool \<Rightarrow> 'w fg \<Rightarrow> int + 'w fg" where
  "psm_init_mode L c jumped s =
     (case cfg_mode c of
        PSM_MODE_NO_PERSIST \<Rightarrow> Inr s
      | PSM_MODE_UNDO \<Rightarrow>
          if \<not> jumped then Inr (s\<lparr>fg_recovered := False\<rparr>)
          else (case libc_pipe (lib_kernel L) (fg_world s) of ((r1, e1, fr, fw), w1) \<Rightarrow>
            if r1 \<noteq> 0 then Inl e1
            else case libc_pipe (lib_kernel L) w1 of ((r2, e2, br, bw), w2) \<Rightarrow>
            if r2 \<noteq> 0 then Inl e2
            else let q = fg_psm s; h = load_u64 (cur (psm_mem q)) (log_base q); t = load_u64 (cur (psm_mem q)) (tail_at (log_base q))
              in Inr (s\<lparr>fg_recovered := True, fg_fds := \<lparr>btf_read = br, btf_write = bw, ftb_read = fr, ftb_write = fw\<rparr>,
                        fg_psm := q\<lparr>head := h, local_head := h, tail := t, local_tail := t\<rparr>, fg_world := w2\<rparr>))
      | PSM_MODE_CHKPT \<Rightarrow> if jumped then Inr s
          else Inr (s\<lparr>fg_chkpt := Some (chkpt_state_init (cfg_imgs_dir c) (cfg_service_path c) (cfg_log_path c))\<rparr>))"

text \<open>
  From \<open>fork\<close> on, in either process; \<open>junk\<close> is the uninitialised \<open>tail\<close>. \<open>a\<close> is the state of
  the application, of which \<open>mem_of\<close> is the memory.
\<close>

definition psm_init_child :: "'w libs \<Rightarrow> 's psm_config \<Rightarrow> 'w \<Rightarrow> (init_outcome \<times> 'w) result" where
  "psm_init_child L c w =
     (if pin_core c \<noteq> - 1
      then bind_result (pin_thread_to_core (lib_kernel L) (pin_core c) w) (\<lambda>(ret, w').
             if ret \<noteq> 0 then Inr (Returned ret, w') else Inr (RunsBackground, w'))
      else Inr (RunsBackground, w))"

definition psm_init_parent ::
  "'w libs \<Rightarrow> 's psm_config \<Rightarrow> (addr \<Rightarrow> 's \<Rightarrow> (int \<times> 's) result option) \<Rightarrow> ('s \<Rightarrow> mem) \<Rightarrow> int \<Rightarrow> 'w fg \<Rightarrow> 's \<Rightarrow>
   (int \<times> 'w fg \<times> 's) result option" where
  "psm_init_parent L c f mem_of junk s a =
     (if use_sga c then Some (Inl Abort)
      else if cfg_mode c = PSM_MODE_UNDO \<and> fg_recovered s
      then (case undo_recover_foreground (lib_kernel L) (cfg_pmem_path c) (fg_fds s) (fg_recovered s) junk (fg_world s) of
              None \<Rightarrow> None
            | Some (Inl ret) \<Rightarrow> Some (Inr (ret, s, a))
            | Some (Inr (t, w')) \<Rightarrow>
                bind_ro (replay mem_of f (buf_at (log_base (fg_psm s))) (head (fg_psm s)) t 0 a)
                  (\<lambda>(n, a'). Some (Inr (0, s\<lparr>fg_world := w'\<rparr>, a'))))
      else Some (Inr (0, s, a)))"

definition psm_init_fork ::
  "'w libs \<Rightarrow> 's psm_config \<Rightarrow> (addr \<Rightarrow> 's \<Rightarrow> (int \<times> 's) result option) \<Rightarrow> ('s \<Rightarrow> mem) \<Rightarrow> int \<Rightarrow> 'w fg \<Rightarrow> 's \<Rightarrow>
   (init_outcome \<times> 'w fg \<times> 's) result option" where
  "psm_init_fork L c f mem_of junk s a =
     (case fork L (fg_world s) of ((res, e), w) \<Rightarrow>
        if res = - 1 then Some (Inr (Returned e, s\<lparr>fg_world := w\<rparr>, a))
        else if res = 0
        then Some (bind_result (psm_init_child L c w) (\<lambda>(out, w'). Inr (out, s\<lparr>fg_world := w'\<rparr>, a)))
        else bind_ro (psm_init_parent L c f mem_of junk (s\<lparr>fg_world := w\<rparr>) a)
          (\<lambda>(ret, s', a'). Some (Inr (Returned ret, s', a'))))"

definition psm_init ::
  "'w libs \<Rightarrow> 's psm_config option \<Rightarrow> ('s \<Rightarrow> mem) \<Rightarrow> int \<Rightarrow> pmem \<Rightarrow> 'w \<Rightarrow> 's \<Rightarrow> (init_outcome \<times> 'w fg option \<times> 's) result option" where
  "psm_init L config mem_of junk P w a =
     bind_ro (Some (psm_init_setup L config P w)) (\<lambda>r.
       case r of
         Inl ret \<Rightarrow> Some (Inr (Returned ret, None, a))
       | Inr (c, f, s) \<Rightarrow>
           (case psm_init_mode L c False s of
              Inl ret \<Rightarrow> Some (Inr (Returned ret, None, a))
            | Inr s1 \<Rightarrow> bind_ro (psm_init_fork L c f mem_of junk s1 a) (\<lambda>(out, s2, a'). Some (Inr (out, Some s2, a')))))"

text \<open>The second run of the part behind \<open>setjmp\<close>, on a restored state.\<close>

definition psm_init_restored ::
  "'w libs \<Rightarrow> 's psm_config \<Rightarrow> (addr \<Rightarrow> 's \<Rightarrow> (int \<times> 's) result option) \<Rightarrow> ('s \<Rightarrow> mem) \<Rightarrow> int \<Rightarrow> 'w fg \<Rightarrow> 's \<Rightarrow>
   (init_outcome \<times> 'w fg \<times> 's) result option" where
  "psm_init_restored L c f mem_of junk s a =
     (case psm_init_mode L c True s of
        Inl ret \<Rightarrow> Some (Inr (Returned ret, s, a))
      | Inr s1 \<Rightarrow> psm_init_fork L c f mem_of junk s1 a)"

end
