(* ===== verification/Foreground_Props.thy ===== *)
theory Foreground_Props
  imports Foreground Region_Foreground Background_Props Psm_Durable
begin

text \<open>
  The recovery of the foreground process: the handshake over the two pipes hands over the regions and the
  tail, and \<open>psm_init\<close> executes again exactly the commands that the operation log still holds.
\<close>

section \<open>The calls of libc\<close>

lemma libc_call_result:
  assumes "posix k view" and "libc_call k n args w = ((r, e, out), w')" and "0 \<le> r"
  obtains q where "call_ok n args (view w) (sint q) out (view w')" and "r = to_int q" and "\<not> (- 4095 \<le> sint q \<and> sint q < 0)"
proof -
  obtain q o' v where q: "syscall k n args w = ((q, o'), v)" by (metis surj_pair)
  with assms(2,3) have "\<not> (- 4095 \<le> sint q \<and> sint q < 0)" "r = to_int q" "o' = out" "v = w'"
    by (auto simp: libc_call_def split: if_splits)
  with posix_call [OF assms(1) q] that show thesis by blast
qed

lemma posix_libc_close:
  assumes "posix k view" and "libc_close k fd w = ((0, e), w')" and "int32 fd"
  shows "view w' = (view w)\<lparr>fds := (fds (view w))(fd := None)\<rparr>"
proof -
  obtain out where "libc_call k SYS_close [num fd] w = ((0, e, out), w')"
    using assms(2) by (auto simp: libc_close_def split: prod.splits)
  then obtain q where "call_ok SYS_close [num fd] (view w) (sint q) out (view w')" "0 = to_int q" "\<not> (- 4095 \<le> sint q \<and> sint q < 0)"
    using libc_call_result [OF assms(1)] by blast
  with assms(3) have "close_ok (view w) fd (sint q) (view w')" "sint q = 0" by (auto simp: call_ok_def close_ok_def)
  then show ?thesis by (auto simp: close_ok_def)
qed

lemma posix_libc_read:
  assumes "posix k view" and "libc_read k fd n w = ((r, e, bs), w')" and "int32 fd" and "fds (view w) fd = Some PipeR"
    and "int (unat n) \<le> r"
  shows "bs = take (unat n) (inbox (view w))" and "view w' = (view w)\<lparr>inbox := drop (unat n) (inbox (view w))\<rparr>"
proof -
  have r0: "0 \<le> r" using assms(5) by linarith
  obtain q where q: "call_ok SYS_read [num fd, Out (unat n), Num n] (view w) (sint q) bs (view w')" "r = to_int q"
    "\<not> (- 4095 \<le> sint q \<and> sint q < 0)"
    using libc_call_result [OF assms(1) assms(2) [unfolded libc_read_def] r0] by blast
  then have ro: "read_ok (view w) fd (unat n) (\<lambda>_ u. u) (sint q) bs (view w')" using assms(3) by (simp add: call_ok_def)
  then have s: "0 \<le> sint q" "nat (sint q) \<le> unat n" "int_range q"
    using q(3) by (auto simp: read_ok_def fails_def int_range_def nat_le_iff)
  have "unat n \<le> nat (sint q)"
    using assms(5) le_nat_iff [OF s(1), of "unat n"] unfolding q(2) to_int_exact [OF s(3)] by blast
  with s(2) have "nat (sint q) = unat n" by simp
  with ro q(3) assms(4) show "bs = take (unat n) (inbox (view w))" "view w' = (view w)\<lparr>inbox := drop (unat n) (inbox (view w))\<rparr>"
    by (auto simp: read_ok_def fails_def)
qed

lemma posix_libc_write:
  assumes "posix k view" and "libc_write k fd [b] w = ((r, e), w')" and "int32 fd" and "fds (view w) fd = Some PipeW" and "1 \<le> r"
  shows "view w' = (view w)\<lparr>outbox := outbox (view w) @ [b]\<rparr>"
proof -
  obtain out where "libc_call k SYS_write [num fd, Buf [b], Num 1] w = ((r, e, out), w')"
    using assms(2) by (auto simp: libc_write_def split: prod.splits)
  moreover have "0 \<le> r" using assms(5) by simp
  ultimately obtain q where q: "call_ok SYS_write [num fd, Buf [b], Num 1] (view w) (sint q) out (view w')" "r = to_int q"
    "\<not> (- 4095 \<le> sint q \<and> sint q < 0)"
    using libc_call_result [OF assms(1)] by blast
  then have wo: "write_ok (view w) fd [b] (sint q) (view w')" using assms(3) by (simp add: call_ok_def)
  then have "0 \<le> sint q" "nat (sint q) \<le> 1" "int_range q" using q(3) by (auto simp: write_ok_def fails_def int_range_def nat_le_iff)
  then have "sint q = 1" using q(2) assms(5) by simp
  with wo assms(4) show ?thesis by (auto simp: write_ok_def fails_def)
qed

section \<open>The handshake\<close>

definition fds_ok :: "recovery_fds \<Rightarrow> bool" where
  "fds_ok p \<longleftrightarrow> distinct [btf_read p, btf_write p, ftb_read p, ftb_write p] \<and>
     int32 (btf_read p) \<and> int32 (btf_write p) \<and> int32 (ftb_read p) \<and> int32 (ftb_write p)"

lemma send_tail_pipe:
  assumes "posix (kern E) view" and "int32 fd" and "fds (view w) fd = Some PipeW" and "send_tail E fd t w = Inr w1"
  shows "view w1 = (view w)\<lparr>outbox := outbox (view w) @ le_bytes 4 (word_of_int t :: u32)\<rparr>" and "0 \<le> t"
proof -
  let ?bs = "le_bytes 4 (word_of_int t :: u32)"
  obtain n w2 where n: "my_write (kern E) fd (Buf ?bs) 4 w = (n, w2)" by fastforce
  have wo: "write_ok (view w) fd ?bs n (view w2)" by (rule posix_write [OF assms(1) n]) (use assms(2) in simp_all)
  have ti: "to_int (word_of_int n) = n" by (rule to_int_of [OF transfer_range(1) [OF wo]])
  show "0 \<le> t" using assms(4) by (simp add: send_tail_def)
  have "n = 4" "w1 = w2" using assms(4) by (simp_all add: send_tail_def n ti)
  with wo assms(3) show "view w1 = (view w)\<lparr>outbox := outbox (view w) @ ?bs\<rparr>"
    by (auto simp: write_ok_def fails_def simp del: le_bytes.simps)
qed

lemma client_send_pipe:
  assumes px: "posix (kern E) view" and pad: "padded E" and p: "fds_ok p" and fd: "fds (view w) (btf_write p) = Some PipeW"
    and send: "client_send E p t (m, w) = Inr w1"
  shows "outbox (view w1) = outbox (view w) @ table_bytes E (regions m) @ region_bytes E sentinel @ le_bytes 4 (word_of_int t :: u32)"
    and "0 \<le> t"
proof -
  have i32: "int32 (btf_read p)" "int32 (btf_write p)" "int32 (ftb_write p)" and ne: "btf_write p \<noteq> btf_read p" "btf_write p \<noteq> ftb_write p"
    using p by (auto simp: fds_ok_def)
  obtain c1 v1 where c1: "my_close (kern E) (btf_read p) w = (c1, v1)" by fastforce
  obtain c2 v2 where c2: "my_close (kern E) (ftb_write p) v1 = (c2, v2)" by fastforce
  obtain v3 v4 where s: "c1 = 0" "c2 = 0" "send_regions E (btf_write p) (m, v2) = Inr v3" "send_tail E (btf_write p) t v3 = Inr v4"
    "(let (c3, w5) = my_close (kern E) (btf_write p) v4
      in dr_assert (\<not> c3 \<noteq> 0) ''closing write end of btf pipe failed'' (Inr w5)) = Inr w1"
    using send by (auto simp: client_send_def c1 c2 bind_result_Inr)
  obtain c3 where c3: "my_close (kern E) (btf_write p) v4 = (c3, w1)" "c3 = 0" using s(5) by (auto split: prod.splits)
  have e1: "view v1 = (view w)\<lparr>fds := (fds (view w))(btf_read p := None)\<rparr>"
    by (rule close_done [OF posix_close [OF px c1 i32(1)]]) (simp add: s)
  have e2: "view v2 = (view v1)\<lparr>fds := (fds (view v1))(ftb_write p := None)\<rparr>"
    by (rule close_done [OF posix_close [OF px c2 i32(3)]]) (simp add: s)
  have f2: "fds (view v2) (btf_write p) = Some PipeW" using fd ne by (simp add: e2 e1)
  note e3 = send_regions_pipe [OF px pad f2 i32(2) s(3)]
  have f3: "fds (view v3) (btf_write p) = Some PipeW" using f2 by (simp add: e3)
  note e4 = send_tail_pipe [OF px i32(2) f3 s(4)]
  have e5: "view w1 = (view v4)\<lparr>fds := (fds (view v4))(btf_write p := None)\<rparr>"
    by (rule close_done [OF posix_close [OF px c3(1) i32(2)]]) (simp add: c3)
  show "outbox (view w1) = outbox (view w) @ table_bytes E (regions m) @ region_bytes E sentinel @ le_bytes 4 (word_of_int t :: u32)"
    by (simp add: e5 e4(1) e3 e2 e1 del: le_bytes.simps)
  show "0 \<le> t" by (rule e4(2))
qed

text \<open>The steps behind the regions: the tail, the acknowledgement, and the closing of both pipes.\<close>

lemma recover_tail_pipe:
  assumes px: "posix k fview" and p: "fds_ok p" and t: "0 \<le> t" "int32 t"
    and fd: "fds (fview u3) (btf_read p) = Some PipeR" "fds (fview u3) (ftb_write p) = Some PipeW"
    and inb: "inbox (fview u3) = le_bytes 4 (word_of_int t :: u32)"
    and rd: "libc_read k (btf_read p) 4 u3 = ((n, e3, bs), u4)" "4 \<le> n"
    and c3: "libc_close k (btf_read p) u4 = ((0, e4), u5)"
    and wr: "libc_write k (ftb_write p) [0] u5 = ((n', e5), u6)" "1 \<le> n'"
    and c4: "libc_close k (ftb_write p) u6 = ((0, e6), u7)"
  shows "sint (le_word bs :: u32) = t \<and> inbox (fview u7) = [] \<and> outbox (fview u7) = outbox (fview u3) @ [0] \<and>
    vm (fview u7) = vm (fview u3)"
proof -
  have i32: "int32 (btf_read p)" "int32 (ftb_write p)" and ne: "ftb_write p \<noteq> btf_read p" using p by (auto simp: fds_ok_def)
  have v4: "bs = le_bytes 4 (word_of_int t :: u32)" "fview u4 = (fview u3)\<lparr>inbox := []\<rparr>"
    using posix_libc_read [OF px rd(1) i32(1) fd(1)] rd(2) inb by (simp_all del: le_bytes.simps)
  note v5 = posix_libc_close [OF px c3 i32(1)]
  have v6: "fview u6 = (fview u5)\<lparr>outbox := outbox (fview u5) @ [0]\<rparr>"
    using wr(2) fd(2) ne by (intro posix_libc_write [OF px wr(1) i32(2)]) (simp_all add: v5 v4)
  note v7 = posix_libc_close [OF px c4 i32(2)]
  have "sint (word_of_int t :: u32) = t"
    using t(2) by (simp add: int32_def signed_of_int signed_take_bit_int_eq_self)
  then show ?thesis by (simp add: v7 v6 v5 v4 del: le_bytes.simps)
qed

text \<open>\<open>undo_recover_foreground\<close> behind \<open>map_recovered_regions\<close>, when that has succeeded.\<close>

lemma recover_after_regions:
  assumes px: "posix k fview" and p: "fds_ok p" and t: "0 \<le> t" "int32 t"
    and c: "libc_close k (btf_write p) u = ((0, e1), u1)" "libc_close k (ftb_read p) u1 = ((0, e2), u2)"
    and regs: "map_recovered_regions k path (btf_read p) u2 = Some (Inr u3)"
    and fd: "fds (fview u3) (btf_read p) = Some PipeR" "fds (fview u3) (ftb_write p) = Some PipeW"
    and inb: "inbox (fview u3) = le_bytes 4 (word_of_int t :: u32)"
  shows "\<exists>res. undo_recover_foreground k path p True junk u = Some res \<and>
    (\<forall>t' u'. res = Inr (t', u') \<longrightarrow> t' = t \<and> inbox (fview u') = [] \<and> outbox (fview u') = outbox (fview u3) @ [0] \<and>
       vm (fview u') = vm (fview u3))"
proof -
  obtain n e3 bs u4 where rd: "libc_read k (btf_read p) 4 u3 = ((n, e3, bs), u4)" by (metis surj_pair)
  obtain c3 e4 u5 where c3: "libc_close k (btf_read p) u4 = ((c3, e4), u5)" by (metis surj_pair)
  obtain n' e5 u6 where wr: "libc_write k (ftb_write p) [0] u5 = ((n', e5), u6)" by (metis surj_pair)
  obtain c4 e6 u7 where c4: "libc_close k (ftb_write p) u6 = ((c4, e6), u7)" by (metis surj_pair)
  note all = undo_recover_foreground_def c regs rd c3 wr c4
  have "t' = t \<and> inbox (fview u') = [] \<and> outbox (fview u') = outbox (fview u3) @ [0] \<and> vm (fview u') = vm (fview u3)"
    if ok: "undo_recover_foreground k path p True junk u = Some (Inr (t', u'))" for t' u'
  proof -
    have g: "4 \<le> n" "c3 = 0" "1 \<le> n'" "c4 = 0" "u' = u7" "t' = (if sint (le_word bs :: u32) \<noteq> - 1 then sint (le_word bs :: u32) else junk)"
      using ok by (auto simp: all Let_def split: if_splits)
    from recover_tail_pipe [OF px p t fd inb rd g(1) c3 [unfolded g(2)] wr g(3) c4 [unfolded g(4)]] t(1) g(5,6)
    show ?thesis by simp
  qed
  moreover have "\<exists>res. undo_recover_foreground k path p True junk u = Some res" by (simp add: all Let_def)
  ultimately show ?thesis by blast
qed

lemma recover_foreground_pipe:
  assumes px: "posix k fview" and pad: "padded E" and p: "fds_ok p"
    and fd: "fds (fview u) (btf_read p) = Some PipeR" "fds (fview u) (ftb_write p) = Some PipeW"
    and m: "mgr_inv m" "\<forall>r \<in> set (regions m). user_region r" and t: "0 \<le> t" "int32 t"
    and inb: "inbox (fview u) = table_bytes E (regions m) @ region_bytes E sentinel @ le_bytes 4 (word_of_int t :: u32)"
  shows "\<exists>res. undo_recover_foreground k path p True junk u = Some res \<and>
    (\<forall>t' u'. res = Inr (t', u') \<longrightarrow> t' = t \<and> inbox (fview u') = [] \<and> outbox (fview u') = outbox (fview u) @ [0] \<and>
       (\<forall>r \<in> set (regions m). rd (vm (fview u')) (reg_base r) (unat (reg_size r)) = file_bytes (fview u) r) \<and>
       (\<forall>x. (\<forall>r \<in> set (regions m). x \<notin> region_addrs r) \<longrightarrow> vm (fview u') x = vm (fview u) x))"
proof -
  have i32: "int32 (btf_read p)" "int32 (btf_write p)" "int32 (ftb_read p)"
    and ne: "btf_read p \<noteq> btf_write p" "btf_read p \<noteq> ftb_read p" "ftb_write p \<noteq> btf_write p" "ftb_write p \<noteq> ftb_read p"
    using p by (auto simp: fds_ok_def)
  obtain c1 e1 u1 where c1: "libc_close k (btf_write p) u = ((c1, e1), u1)" by (metis surj_pair)
  obtain c2 e2 u2 where c2: "libc_close k (ftb_read p) u1 = ((c2, e2), u2)" by (metis surj_pair)
  show ?thesis
  proof (cases "c1 = 0 \<and> c2 = 0")
    case False
    then show ?thesis by (auto simp: undo_recover_foreground_def c1 c2)
  next
    case True
    then have v2: "fview u2 = (fview u)\<lparr>fds := (fds (fview u))(btf_write p := None, ftb_read p := None)\<rparr>"
      using posix_libc_close [OF px, of "btf_write p" u e1 u1] posix_libc_close [OF px, of "ftb_read p" u1 e2 u2] c1 c2 i32 by simp
    obtain res where r: "map_recovered_regions k path (btf_read p) u2 = Some res"
      "\<And>u'. res = Inr u' \<Longrightarrow> inbox (fview u') = le_bytes 4 (word_of_int t :: u32) \<and> outbox (fview u') = outbox (fview u2) \<and>
        fds (fview u') = fds (fview u2) \<and> (\<forall>r \<in> set (regions m). rd (vm (fview u')) (reg_base r) (unat (reg_size r)) = file_bytes (fview u2) r) \<and>
        (\<forall>x. (\<forall>r \<in> set (regions m). x \<notin> region_addrs r) \<longrightarrow> vm (fview u') x = vm (fview u2) x)"
      using map_recovered_regions_files [OF px pad _ i32(1) m, of u2 "le_bytes 4 (word_of_int t :: u32)" path] fd(1) ne inb
      by (auto simp: v2 simp del: le_bytes.simps)
    show ?thesis
    proof (cases res)
      case (Inl ret)
      with True r(1) show ?thesis by (simp add: undo_recover_foreground_def c1 c2)
    next
      case (Inr u3)
      note r3 = r(2) [OF Inr]
      have "fds (fview u3) (btf_read p) = Some PipeR" "fds (fview u3) (ftb_write p) = Some PipeW"
        using r3 fd ne by (simp_all add: v2 del: le_bytes.simps)
      moreover have "file_bytes (fview u2) = file_bytes (fview u)" by (simp add: file_bytes_def fun_eq_iff v2)
      ultimately show ?thesis
        using recover_after_regions [OF px p t, of u e1 u1 e2 u2 path u3 junk] c1 c2 True r(1) Inr r3 by (simp add: v2 del: le_bytes.simps) metis
    qed
  qed
qed

text \<open>
  C6. The handshake hands over the whole state. When the background process has sent its regions and
  the recovered tail (\<open>client_send\<close> of \<open>dr_client_main\<close>) and the foreground reads that pipe,
  \<open>undo_recover_foreground\<close> returns. When it succeeds, it has exactly the tail that was sent
  (also through the encoding as an \<open>int\<close>), every region of the background's table holds the bytes of
  its file in the foreground's memory, memory outside these regions is as before, the pipe is empty, and the one byte the background waits for
  has been written, once, after all of that.
\<close>

theorem recovery_handshake:
  assumes p: "fds_ok p"
    and bg: "posix (kern E) view" "padded E" "fds (view w) (btf_write p) = Some PipeW" "outbox (view w) = []"
    and m: "mgr_inv m" "\<forall>r \<in> set (regions m). user_region r" and t: "int32 t"
    and send: "client_send E p t (m, w) = Inr w1"
    and fg: "posix k fview" "fds (fview u) (btf_read p) = Some PipeR" "fds (fview u) (ftb_write p) = Some PipeW"
      "inbox (fview u) = outbox (view w1)" "outbox (fview u) = []"
  shows "\<exists>res. undo_recover_foreground k path p True junk u = Some res \<and>
    (\<forall>t' u'. res = Inr (t', u') \<longrightarrow> t' = t \<and> inbox (fview u') = [] \<and> outbox (fview u') = [0] \<and>
       (\<forall>r \<in> set (regions m). rd (vm (fview u')) (reg_base r) (unat (reg_size r)) = file_bytes (fview u) r) \<and>
       (\<forall>x. (\<forall>r \<in> set (regions m). x \<notin> region_addrs r) \<longrightarrow> vm (fview u') x = vm (fview u) x))"
proof -
  note s = client_send_pipe [OF bg(1,2) p bg(3) send]
  have "inbox (fview u) = table_bytes E (regions m) @ region_bytes E sentinel @ le_bytes 4 (word_of_int t :: u32)"
    using s(1) bg(4) fg(4) by simp
  from recover_foreground_pipe [OF fg(1) bg(2) p fg(2,3) m s(2) t this, of path junk] fg(5) show ?thesis by simp
qed

lemma sim_libc:
  assumes "int32 d"
  shows "libc_close sim_kernel d s = ((0, 0), snd (sim_close d s))"
    and "sim_read d (unat n) (\<lambda>_ u. u) s = ((r, bs), s') \<Longrightarrow> 0 \<le> r \<Longrightarrow> int32 r \<Longrightarrow> libc_read sim_kernel d n s = ((r, 0, bs), s')"
    and "sim_write d bs s = ((r, out), s') \<Longrightarrow> 0 \<le> r \<Longrightarrow> int32 r \<Longrightarrow> libc_write sim_kernel d bs s = ((r, 0), s')"
proof -
  have i: "sint (word_of_int r :: u64) = r" if "int32 r" for r
    using that by (simp add: int32_def signed_of_int signed_take_bit_int_eq_self)
  show "libc_close sim_kernel d s = ((0, 0), snd (sim_close d s))"
    using assms by (auto simp: libc_close_def libc_call_def syscall_def sim_kernel_simps sim_close_def to_int_def [of 0] split: prod.splits)
  show "sim_read d (unat n) (\<lambda>_ u. u) s = ((r, bs), s') \<Longrightarrow> 0 \<le> r \<Longrightarrow> int32 r \<Longrightarrow> libc_read sim_kernel d n s = ((r, 0, bs), s')"
    using assms i [of r] by (simp add: libc_read_def libc_call_def syscall_def sim_kernel_simps)
  show "sim_write d bs s = ((r, out), s') \<Longrightarrow> 0 \<le> r \<Longrightarrow> int32 r \<Longrightarrow> libc_write sim_kernel d bs s = ((r, 0), s')"
    using assms i [of r] by (simp add: libc_write_def libc_call_def syscall_def sim_kernel_simps)
qed

abbreviation demo_fds :: recovery_fds where
  "demo_fds \<equiv> \<lparr>btf_read = 5, btf_write = 6, ftb_read = 7, ftb_write = 8\<rparr>"

lemma demo_fds_ok: "fds_ok demo_fds"
  by (simp add: fds_ok_def)

lemma sim_client_send:
  assumes v: "fds v 6 = Some PipeW"
  shows "\<exists>w1. client_send sim_env demo_fds 64 (m, (v, 9, 0)) = Inr w1"
proof -
  let ?b = "le_bytes 4 (word_of_int 64 :: u32)"
  define v2 where "v2 = v\<lparr>fds := (fds v)(5 := None, 8 := None)\<rparr>"
  have f: "fds v2 6 = Some PipeW" using v by (simp add: v2_def)
  have c: "my_close sim_kernel 5 (v, 9, 0) = (0, (v\<lparr>fds := (fds v)(5 := None)\<rparr>, 9, 0))"
    "my_close sim_kernel 8 (v\<lparr>fds := (fds v)(5 := None)\<rparr>, 9, 0) = (0, (v2, 9, 0))"
    by (simp_all add: sim_calls sim_close_def v2_def)
  obtain v3 where s: "send_regions sim_env 6 (m, (v2, 9, 0)) = Inr (v3, 9, 0)" and f3: "fds v3 6 = Some PipeW"
    using sim_send_regions [OF f, of m "(9, 0)"] f by simp
  have "my_write sim_kernel 6 (Buf ?b) 4 (v3, 9, 0) = (4, (v3\<lparr>outbox := outbox v3 @ ?b\<rparr>, 9, 0))"
    using f3 by (simp add: sim_calls sim_write_def del: le_bytes.simps)
  then have t: "send_tail sim_env 6 64 (v3, 9, 0) = Inr (v3\<lparr>outbox := outbox v3 @ ?b\<rparr>, 9, 0)"
    by (simp add: send_tail_def to_int_def del: le_bytes.simps)
  have "\<exists>w1. my_close sim_kernel 6 w = (0, w1)" for w by (cases w) (simp add: sim_calls sim_close_def)
  then obtain w1 where "my_close sim_kernel 6 (v3\<lparr>outbox := outbox v3 @ ?b\<rparr>, 9, 0) = (0, w1)" by blast
  then have "client_send sim_env demo_fds 64 (m, (v, 9, 0)) = Inr w1" by (simp add: client_send_def c s t)
  then show ?thesis by blast
qed

text \<open>A kernel that answers \<open>pipe\<close>, too; all other calls are those of the simulated one.\<close>

definition pipe_kernel :: "sim kernel" where
  "pipe_kernel g s =
     (if g RAX = Some (Num (word_of_int SYS_pipe))
      then (case s of (v, nf, ni) \<Rightarrow>
              if nf = 7 then ((0, le_bytes 4 (7 :: u32) @ le_bytes 4 (8 :: u32)), (v, 8, ni))
              else ((0, le_bytes 4 (5 :: u32) @ le_bytes 4 (6 :: u32)), (v, 9, ni)))
      else sim_kernel g s)"

lemma pipe_kernel_calls:
  "libc_close pipe_kernel fd = libc_close sim_kernel fd" "libc_read pipe_kernel fd n = libc_read sim_kernel fd n"
  "libc_write pipe_kernel fd bs = libc_write sim_kernel fd bs" "my_open pipe_kernel path fl md = my_open sim_kernel path fl md"
  "my_close pipe_kernel fd = my_close sim_kernel fd" "my_read pipe_kernel fd buf n = my_read sim_kernel fd buf n"
proof -
  have "syscall pipe_kernel m args w = syscall sim_kernel m args w" if "(word_of_int m :: u64) \<noteq> 22" for m args w
    using that by (simp add: syscall_def pipe_kernel_def syscall_regs_def)
  then show "libc_close pipe_kernel fd = libc_close sim_kernel fd" "libc_read pipe_kernel fd n = libc_read sim_kernel fd n"
    "libc_write pipe_kernel fd bs = libc_write sim_kernel fd bs" "my_open pipe_kernel path fl md = my_open sim_kernel path fl md"
    "my_close pipe_kernel fd = my_close sim_kernel fd" "my_read pipe_kernel fd buf n = my_read sim_kernel fd buf n"
    by (simp_all add: fun_eq_iff libc_close_def libc_read_def libc_write_def libc_call_def my_open_def my_close_def my_read_def)
qed

text \<open>
  Behind \<open>map_recovered_regions\<close> the simulated calls succeed as well, from any state with the tail in the pipe.
\<close>

lemma sim_recover_tail:
  assumes k: "k \<in> {sim_kernel, pipe_kernel}" and v: "fds v = [5 \<mapsto> PipeR, 8 \<mapsto> PipeW]"
    and mr: "map_recovered_regions k path 5 (v, 9, 0) = Some (Inr (v4, s4))"
    and f4: "fds v4 = fds v" "inbox v4 = le_bytes 4 (word_of_int 64 :: u32)"
  shows "\<exists>u. undo_recover_foreground k path demo_fds True junk (v, 9, 0) = Some (Inr (64, u))"
proof -
  have same_calls: "libc_close k fd = libc_close sim_kernel fd" "libc_read k fd n = libc_read sim_kernel fd n"
    "libc_write k fd bs = libc_write sim_kernel fd bs" for fd n bs
    using k pipe_kernel_calls by auto
  let ?b = "le_bytes 4 (word_of_int 64 :: u32)"
  have same: "v\<lparr>fds := (fds v)(d := None)\<rparr> = v" if "d \<noteq> 5" "d \<noteq> 8" for d
  proof -
    have "(fds v)(d := None) = fds v" using that by (simp add: v fun_eq_iff)
    then show ?thesis by simp
  qed
  have c: "libc_close sim_kernel 6 (v, 9, 0) = ((0, 0), (v, 9, 0))" "libc_close sim_kernel 7 (v, 9, 0) = ((0, 0), (v, 9, 0))"
    using same [of 6] same [of 7] by (simp_all add: sim_libc sim_close_def v)
  have rd: "libc_read sim_kernel 5 4 (v4, s4) = ((4, 0, ?b), (v4\<lparr>inbox := []\<rparr>, s4))"
    using f4 v by (cases s4, intro sim_libc(2)) (simp_all add: sim_read_def del: le_bytes.simps)
  define v5 where "v5 = v4\<lparr>inbox := [], fds := (fds v4)(5 := None)\<rparr>"
  have c3: "libc_close sim_kernel 5 (v4\<lparr>inbox := []\<rparr>, s4) = ((0, 0), (v5, s4))"
    by (cases s4) (simp add: sim_libc sim_close_def v5_def)
  have wr: "libc_write sim_kernel 8 [0] (v5, s4) = ((1, 0), (v5\<lparr>outbox := outbox v5 @ [0]\<rparr>, s4))"
    using f4 v by (cases s4, intro sim_libc(3)) (simp_all add: sim_write_def v5_def)
  have b: "sint (le_word ?b :: u32) = 64" by (simp del: le_bytes.simps)
  have "\<exists>u. libc_close sim_kernel 8 w = ((0, 0), u)" for w by (cases w) (simp add: sim_libc sim_close_def)
  then obtain u where "libc_close sim_kernel 8 (v5\<lparr>outbox := outbox v5 @ [0]\<rparr>, s4) = ((0, 0), u)" by blast
  then have "undo_recover_foreground k path demo_fds True junk (v, 9, 0) = Some (Inr (64, u))"
    by (simp add: undo_recover_foreground_def same_calls c mr rd c3 wr b del: le_bytes.simps)
  then show ?thesis by blast
qed

lemma sim_recover:
  assumes v: "fds v = [5 \<mapsto> PipeR, 8 \<mapsto> PipeW]" and m: "mgr_inv m" "length (regions m) < 1000" "\<forall>r \<in> set (regions m). has_file v r"
    and inb: "inbox v = table_bytes sim_env (regions m) @ region_bytes sim_env sentinel @ le_bytes 4 (word_of_int 64 :: u32)"
  shows "\<exists>u. undo_recover_foreground sim_kernel path demo_fds True junk (v, 9, 0) = Some (Inr (64, u))"
proof -
  have p: "padded sim_env" by (simp add: padded_def)
  have u: "\<forall>r \<in> set (regions m). user_region r" using m(3) by (auto simp: has_file_def)
  obtain v4 s4 where mr: "map_recovered_regions sim_kernel path 5 (v, 9, 0) = Some (Inr (v4, s4))"
    using sim_map_regions [OF _ _ _ _ m(3) inb, of 5 9 path 0] v m(2) by auto
  from map_recovered_regions_files [OF sim_posix p _ _ m(1) u, of "(v, 9, 0)" 5 _ path] inb v mr
  have "fds v4 = fds v" "inbox v4 = le_bytes 4 (word_of_int 64 :: u32)" by (simp_all del: le_bytes.simps)
  then show ?thesis using sim_recover_tail [OF _ v mr] by blast
qed

lemma demo_recover:
  assumes v: "fds v = [5 \<mapsto> PipeR, 8 \<mapsto> PipeW]" "inbox v = region_bytes sim_env sentinel @ le_bytes 4 (word_of_int 64 :: u32)"
  shows "\<exists>u. undo_recover_foreground pipe_kernel path demo_fds True junk (v, 9, 0) = Some (Inr (64, u))"
proof -
  let ?b = "le_bytes 4 (word_of_int 64 :: u32)"
  define v3 where "v3 = v\<lparr>fds := (fds v)(9 \<mapsto> DirFd)\<rparr>"
  have o: "my_open pipe_kernel path O_DIRECTORY 0 (v, 9, 0) = (9, (v3, 10, 0))"
    using v(1) by (simp add: pipe_kernel_calls my_open_def syscall_def sim_kernel_simps sim_open_def new_fd_def v3_def to_int_def)
  have "my_read sim_kernel 5 (Out 24) 24 (v3, 10, 0) = ((24, region_bytes sim_env sentinel), (v3\<lparr>inbox := ?b\<rparr>, 10, 0))"
    using v by (simp add: sim_calls sim_read_def v3_def del: le_bytes.simps)
  then have l: "map_recovered_loop pipe_kernel 9 5 (v3, 10, 0) = Some (Inr (v3\<lparr>inbox := ?b\<rparr>, 10, 0))"
    by (subst map_recovered_loop.simps) (simp add: pipe_kernel_calls to_int_def sentinel_def del: le_bytes.simps)
  have "my_close pipe_kernel 9 (v3\<lparr>inbox := ?b\<rparr>, 10, 0) = (0, (v3\<lparr>inbox := ?b, fds := (fds v3)(9 := None)\<rparr>, 10, 0))"
    by (simp add: pipe_kernel_calls sim_calls sim_close_def del: le_bytes.simps)
  then have "map_recovered_regions pipe_kernel path 5 (v, 9, 0) = Some (Inr (v3\<lparr>inbox := ?b, fds := (fds v3)(9 := None)\<rparr>, 10, 0))"
    by (simp add: map_recovered_regions_def o l)
  from sim_recover_tail [OF _ v(1) this] show ?thesis by (simp add: v3_def v(1) fun_eq_iff del: le_bytes.simps)
qed

text \<open>One region of two bytes, whose file holds 5 and 6; all other memory of the foreground holds 9.\<close>

abbreviation small_region :: region where
  "small_region \<equiv> \<lparr>reg_base = 4096, reg_size = 2, reg_file_id = 1\<rparr>"

abbreviation small_mgr :: mem_region_manager where
  "small_mgr \<equiv> \<lparr>pmem_dirfd = 3, regions = [small_region], rs = [Range 4096 2]\<rparr>"

abbreviation small_fs :: fs where
  "small_fs \<equiv> demo_fs\<lparr>dirs := [[make_file_name small_region \<mapsto> 0]], contents := (\<lambda>_. [[5, 6]]),
     fds := [5 \<mapsto> PipeR, 8 \<mapsto> PipeW], vm := (\<lambda>_. 9)\<rparr>"

theorem recovery_handshake_witness:
  "\<exists>w1 u'. client_send sim_env demo_fds 64 (small_mgr, (demo_fs\<lparr>fds := [6 \<mapsto> PipeW]\<rparr>, 9, 0)) = Inr w1 \<and>
     undo_recover_foreground sim_kernel ''/pmem'' demo_fds True 0 (small_fs\<lparr>inbox := outbox (fst w1)\<rparr>, 9, 0) = Some (Inr (64, u')) \<and>
     outbox (fst u') = [0] \<and> rd (vm (fst u')) 4096 2 = [5, 6] \<and> vm (fst u') 0 = 9"
proof -
  let ?v = "demo_fs\<lparr>fds := [6 \<mapsto> PipeW]\<rparr>"
  obtain w1 where s: "client_send sim_env demo_fds 64 (small_mgr, (?v, 9, 0)) = Inr w1" using sim_client_send [of ?v small_mgr] by auto
  have "x - 4096 < 2" if "4096 \<le> x" "x < 4098" for x :: u64
    using that by (simp add: word_less_nat_alt word_le_nat_alt unat_sub)
  then have m: "mgr_inv small_mgr"
    by (auto simp: mgr_inv_def managed_def ranges_wf_def separated_def no_wrap_def region_ok_def mem_range_set
        region_addrs_def does_include_addr_def region_end_def includes_point_def)
  have f: "has_file (small_fs\<lparr>inbox := x\<rparr>) small_region" for x by (simp add: has_file_def user_region_def region_ok_def)
  then have u: "\<forall>r \<in> set (regions small_mgr). user_region r" by (simp add: has_file_def)
  let ?u = "(small_fs\<lparr>inbox := outbox (fst w1)\<rparr>, 9, 0) :: sim"
  have h: "\<exists>res. undo_recover_foreground sim_kernel ''/pmem'' demo_fds True 0 ?u = Some res \<and>
    (\<forall>t' u'. res = Inr (t', u') \<longrightarrow> t' = 64 \<and> inbox (fst u') = [] \<and> outbox (fst u') = [0] \<and>
       (\<forall>r \<in> set (regions small_mgr). rd (vm (fst u')) (reg_base r) (unat (reg_size r)) = file_bytes (fst ?u) r) \<and>
       (\<forall>x. (\<forall>r \<in> set (regions small_mgr). x \<notin> region_addrs r) \<longrightarrow> vm (fst u') x = vm (fst ?u) x))"
    by (rule recovery_handshake [OF demo_fds_ok _ _ _ _ m u _ s, where view = fst and fview = fst])
      (simp_all add: sim_posix padded_def)
  have "outbox (fst w1) = table_bytes sim_env (regions small_mgr) @ region_bytes sim_env sentinel @ le_bytes 4 (word_of_int 64 :: u32)"
    using client_send_pipe(1) [OF _ _ demo_fds_ok _ s, where view = fst] by (simp add: sim_posix padded_def del: le_bytes.simps)
  then have "\<exists>u'. undo_recover_foreground sim_kernel ''/pmem'' demo_fds True 0 ?u = Some (Inr (64, u'))"
    by (intro sim_recover [OF _ m]) (use f in \<open>simp_all del: le_bytes.simps\<close>)
  then obtain u' where r: "undo_recover_foreground sim_kernel ''/pmem'' demo_fds True 0 ?u = Some (Inr (64, u'))" by blast
  from h r have "outbox (fst u') = [0]" and "rd (vm (fst u')) 4096 2 = [5, 6]"
    and o: "\<forall>x. x \<notin> region_addrs small_region \<longrightarrow> vm (fst u') x = 9" by (cases u', simp_all add: file_bytes_def)+
  moreover have "vm (fst u') 0 = 9" by (rule o [rule_format]) (simp add: region_addrs_def does_include_addr_def)
  ultimately show ?thesis using s r by blast
qed

section \<open>Executing the pending commands again\<close>

lemma replay_step:
  assumes "consume mem_of f b hd_off (word_of_int tl_off) a = Some (Inr (of_nat k, a'))" and "k < RING"
  shows "replay mem_of f b hd_off tl_off n a = replay mem_of f b hd_off (int k) (Suc n) a'"
  by (subst replay.simps) (simp add: assms ring_word(1) [OF assms(2)] del: consume.simps)

lemma replay_chain:
  assumes b: "base_ok b"
    and frame: "\<And>e a p. p < RING \<Longrightarrow> mem_of (exec e a) (buf_at b + of_nat p) = mem_of a (buf_at b + of_nat p)"
    and f: "\<And>e a p. e \<in> E \<Longrightarrow> p < RING \<Longrightarrow> rd (mem_of a) (buf_at b + of_nat p) (length e) = e \<Longrightarrow>
      f (buf_at b + of_nat p) a = Some (Inr (int (length e), exec e a))"
    and "chain (mem_of a) (buf_at b) t qs h" and "t mod 64 = 0" and "h < t + RING" and "set qs \<subseteq> E"
  shows "replay mem_of f (buf_at b) (of_nat (h mod RING)) (int (t mod RING)) n a = Some (Inr (n + length qs, fold exec qs a))"
  using assms(4-)
proof (induction qs arbitrary: a t n)
  case Nil
  then have "consume mem_of f (buf_at b) (of_nat (h mod RING)) (word_of_int (int (t mod RING))) a = Some (Inr (- 1, a))"
    by (subst consume.simps) simp
  moreover have "to_int (- 1) = - 1" using to_int_of [of "- 1"] by simp
  ultimately show ?case by (subst replay.simps) (simp del: consume.simps)
next
  case (Cons e qs)
  let ?p = "(t + pad t e) mod RING"
  have st: "rd (mem_of a) (buf_at b + of_nat ?p) (length e) = e" using Cons.prems(1) by (simp add: stored_at_def)
  have fe: "f (buf_at b + of_nat ?p) a = Some (Inr (int (length e), exec e a))"
    using Cons.prems(4) by (intro f [OF _ _ st]) simp_all
  have c: "consume mem_of f (buf_at b) (of_nat (h mod RING)) (word_of_int (int (t mod RING))) a =
      Some (Inr (of_nat ((t + span t e) mod RING), exec e a))"
    unfolding of_int_of_nat_eq by (rule consume_entry [where mem_of = mem_of and s = a and f = f, OF Cons.prems(1) b Cons.prems(2,3) fe])
  have "chain (mem_of a) (buf_at b) (t + span t e) qs h" using Cons.prems(1) by simp
  then have "chain (mem_of (exec e a)) (buf_at b) (t + span t e) qs h" by (rule chain_frame) (rule frame, simp)
  then have "replay mem_of f (buf_at b) (of_nat (h mod RING)) (int ((t + span t e) mod RING)) (Suc n) (exec e a) =
      Some (Inr (Suc n + length qs, fold exec qs (exec e a)))"
    using Cons.prems(2-) span_64 by (intro Cons.IH) auto
  then show ?case by (subst replay_step [OF c]) simp_all
qed

lemma parent_replays:
  assumes mode: "cfg_mode c = PSM_MODE_UNDO" "\<not> use_sga c" "fg_recovered s"
    and rec: "undo_recover_foreground (lib_kernel L) (cfg_pmem_path c) (fg_fds s) True junk (fg_world s) = Some (Inr (int (t mod RING), w))"
    and log: "base_ok (log_base (fg_psm s))" "chain (mem_of a) (buf_at (log_base (fg_psm s))) t qs h" "t mod 64 = 0" "h < t + RING"
      "head (fg_psm s) = of_nat (h mod RING)"
    and frame: "\<And>e a p. p < RING \<Longrightarrow> mem_of (exec e a) (buf_at (log_base (fg_psm s)) + of_nat p) = mem_of a (buf_at (log_base (fg_psm s)) + of_nat p)"
    and handler: "\<And>e a p. e \<in> set qs \<Longrightarrow> p < RING \<Longrightarrow> rd (mem_of a) (buf_at (log_base (fg_psm s)) + of_nat p) (length e) = e \<Longrightarrow>
      f (buf_at (log_base (fg_psm s)) + of_nat p) a = Some (Inr (int (length e), exec e a))"
  shows "psm_init_parent L c f mem_of junk s a = Some (Inr (0, s\<lparr>fg_world := w\<rparr>, fold exec qs a))"
proof -
  have "replay mem_of f (buf_at (log_base (fg_psm s))) (head (fg_psm s)) (int (t mod RING)) 0 a =
      Some (Inr (0 + length qs, fold exec qs a))"
    unfolding log(5) using frame handler
    by (intro replay_chain [where mem_of = mem_of and a = a and f = f and exec = exec and E = "set qs", OF log(1) _ _ log(2-4)]) blast+
  with mode rec show ?thesis by (simp add: psm_init_parent_def)
qed

text \<open>
  C7. Recovery executes every pending command again, once and in order. \<open>psm_init\<close> runs again from \<open>setjmp\<close> on the
  restored state, takes the head from the persistent log, makes the pipes and forks. When the foreground
  has received the tail \<open>t\<close> and the log holds the commands \<open>qs\<close> from there to that head, the
  replay loop ends, the application's state is the one after all of \<open>qs\<close>, in the order in which they were
  logged, wrapped entries included, and \<open>psm_init\<close> returns 0. The application's function
  reports the length of the entry and leaves the log alone.
\<close>

theorem psm_init_replays:
  assumes mode: "cfg_mode c = PSM_MODE_UNDO" "\<not> use_sga c"
    and pipes: "psm_init_mode L c True s = Inr s1" and fork: "fork L (fg_world s1) = ((pid, err), w1)" "pid \<noteq> - 1" "pid \<noteq> 0"
    and rec: "undo_recover_foreground (lib_kernel L) (cfg_pmem_path c) (fg_fds s1) True junk w1 = Some (Inr (int (t mod RING), w))"
    and log: "log_base (fg_psm s) = b" "base_ok b" "load_u64 (cur (psm_mem (fg_psm s))) b = of_nat (h mod RING)"
      "chain (mem_of a) (buf_at b) t qs h" "t mod 64 = 0" "h < t + RING"
    and frame: "\<forall>e a p. p < RING \<longrightarrow> mem_of (exec e a) (buf_at b + of_nat p) = mem_of a (buf_at b + of_nat p)"
    and handler: "\<forall>e \<in> set qs. \<forall>a p. p < RING \<longrightarrow> rd (mem_of a) (buf_at b + of_nat p) (length e) = e \<longrightarrow>
      f (buf_at b + of_nat p) a = Some (Inr (int (length e), exec e a))"
  shows "psm_init_restored L c f mem_of junk s a = Some (Inr (Returned 0, s1\<lparr>fg_world := w\<rparr>, fold exec qs a))"
proof -
  have s1: "fg_recovered s1" "log_base (fg_psm s1) = b" "head (fg_psm s1) = of_nat (h mod RING)"
    using pipes mode(1) log(1,3) by (auto simp: psm_init_mode_def Let_def split: prod.splits if_splits)
  have "psm_init_parent L c f mem_of junk (s1\<lparr>fg_world := w1\<rparr>) a = Some (Inr (0, s1\<lparr>fg_world := w1, fg_world := w\<rparr>, fold exec qs a))"
    by (rule parent_replays [where t = t and h = h]) (use mode rec log(2-) s1 frame handler in simp_all)
  then show ?thesis using pipes fork by (simp add: psm_init_restored_def psm_init_fork_def)
qed

text \<open>One command pending at offset 64; the application counts the commands.\<close>

abbreviation one_pending :: mem where
  "one_pending \<equiv> (\<lambda>_. 0)(0x50000000 := 128, 0x50000040 := 64, 0x500000C0 := 1)"

definition demo_fg :: "sim fg" where
  "demo_fg = \<lparr>fg_psm = \<lparr>log_base = 0x50000000, mode = PSM_MODE_UNDO, head = 0, tail = 0, local_head = 0, local_tail = 0,
      psm_mem = boot one_pending\<rparr>, fg_chkpt = None, fg_recovered = False, fg_fds = \<lparr>btf_read = 0, btf_write = 0, ftb_read = 0, ftb_write = 0\<rparr>,
      fg_world = (demo_fs\<lparr>fds := [5 \<mapsto> PipeR, 8 \<mapsto> PipeW], inbox := region_bytes sim_env sentinel @ le_bytes 4 (64 :: u32)\<rparr>, 7, 0)\<rparr>"

abbreviation demo_config :: "(mem \<times> nat) psm_config" where
  "demo_config \<equiv> \<lparr>use_sga = False, pin_core = - 1, consume_func = Some (\<lambda>_ (m, k). Some (Inr (1, (m, Suc k)))), cfg_mode = PSM_MODE_UNDO,
     cfg_pmem_path = ''/pmem'', cfg_criu_service_path = [], cfg_imgs_dir = [], cfg_service_path = [], cfg_log_path = None\<rparr>"

abbreviation demo_libs :: "sim libs" where
  "demo_libs \<equiv> \<lparr>lib_kernel = sim_kernel,
     pmem_map_file = (\<lambda>_ n w. if n \<le> 0x200000 then ((0x50000000, True, 0), w) else ((0, False, 12), w)), fork = (\<lambda>w. ((1, 0), w))\<rparr>"

theorem psm_init_replays_witness:
  "\<exists>s1 w. psm_init_restored (demo_libs\<lparr>lib_kernel := pipe_kernel\<rparr>) demo_config (\<lambda>_ (m, k). Some (Inr (1, (m, Suc k)))) fst 0 demo_fg (one_pending, 0) =
     Some (Inr (Returned 0, s1\<lparr>fg_world := w\<rparr>, (one_pending, 1)))"
proof -
  let ?L = "demo_libs\<lparr>lib_kernel := pipe_kernel\<rparr>"
  let ?v = "demo_fs\<lparr>fds := [5 \<mapsto> PipeR, 8 \<mapsto> PipeW], inbox := region_bytes sim_env sentinel @ le_bytes 4 (64 :: u32)\<rparr>"
  have p: "libc_pipe pipe_kernel (v, 7, 0) = ((0, 0, 7, 8), (v, 8, 0))" "libc_pipe pipe_kernel (v, 8, 0) = ((0, 0, 5, 6), (v, 9, 0))" for v
    by (simp_all add: libc_pipe_def libc_call_def syscall_def pipe_kernel_def syscall_regs_def to_int_def del: le_bytes.simps)
  obtain s1 where s1: "psm_init_mode ?L demo_config True demo_fg = Inr s1" "fg_world s1 = (?v, 9, 0)" "fg_fds s1 = demo_fds"
    by (simp add: psm_init_mode_def demo_fg_def p Let_def)
  obtain w where r: "undo_recover_foreground pipe_kernel ''/pmem'' demo_fds True 0 (?v, 9, 0) = Some (Inr (64, w))"
    using demo_recover [of ?v "''/pmem''" 0] by (auto simp del: le_bytes.simps)
  have ch: "chain one_pending (buf_at 0x50000000) 64 [[1]] 128"
    by (simp add: entry_ok_def round64_def pad_def span_def stored_at_def rd_def)
  have hd: "load_u64 one_pending 0x50000000 = 128" by (simp add: load_u64_def rd_def upt_rec)
  have "psm_init_restored ?L demo_config (\<lambda>_ (m, k). Some (Inr (1, (m, Suc k)))) fst 0 demo_fg (one_pending, 0) =
      Some (Inr (Returned 0, s1\<lparr>fg_world := w\<rparr>, fold (\<lambda>_ (m, k). (m, Suc k)) [[1 :: byte]] (one_pending, 0)))"
    by (rule psm_init_replays [where t = 64 and h = 128 and w = w and qs = "[[1]]" and mem_of = fst and a = "(one_pending, 0)"
          and exec = "\<lambda>_ (m, k). (m, Suc k)" and f = "\<lambda>_ (m, k). Some (Inr (1, (m, Suc k)))" and b = "0x50000000" and pid = 1 and err = 0, OF _ _ s1(1)])
      (use r ch hd s1 in \<open>simp_all add: demo_fg_def base_ok_def split_beta del: chain.simps\<close>)
  then show ?thesis by (intro exI [of _ s1] exI [of _ w]) simp
qed

section \<open>The first start\<close>

lemma construct_image:
  assumes b: "base_ok b" and wf: "wf_pm P" and img: "image_of (pv (psm_log_construct b P)) img"
  shows "log_image b 0 [] 0 img"
proof -
  define m where "m = wr (b + of_nat 64) (le_bytes 8 (0 :: u64)) (wr (b + of_nat 0) (le_bytes 8 (0 :: u64)) (cur P))"
  define m' where "m' = wr (buf_at b) (replicate RING 0) m"
  have r: "unat PSM_LOG_SIZE_B = RING" by (simp add: psm_log_size)
  have "pv (psm_log_construct b P) l = [m']" if "l \<in> {line b, line (tail_at b)}" for l
    using that unfolding psm_log_construct_def r
    by (auto simp: pmem_drain_def pmem_flush_def m'_def m_def simp del: le_bytes.simps)
  then have i: "img x = m' x" if "line x \<in> {line b, line (tail_at b)}" for x
    using img that unfolding image_of_def by (metis empty_iff insert_iff list.set(1,2))
  have hd: "m' x = m x" if "unat (x - b) < 128" for x
    unfolding m'_def using that unat_window_shift [of 128 x b] by (intro wr_out) (simp only: length_replicate, simp split: if_splits)
  have al: "unat b mod 64 = 0" "unat (tail_at b) mod 64 = 0" using b unat_add_of_nat [of b 64] by (auto simp: base_ok_def)
  have "load_u64 m (b + of_nat 0) = load_u64 (wr (b + of_nat 0) (le_bytes 8 (0 :: u64)) (cur P)) (b + of_nat 0)"
    unfolding m_def by (rule word_frame(2) [where k = 64]) (auto simp: wr_def simp del: le_bytes.simps)
  also have "\<dots> = 0" by (rule load_store_u64)
  finally have "load_u64 m (b + of_nat 0) = 0" .
  moreover have "load_u64 m (b + of_nat 64) = 0" unfolding m_def by (rule load_store_u64)
  moreover have "load_u64 img b = load_u64 m' b" "load_u64 img (tail_at b) = load_u64 m' (tail_at b)"
    using i by (auto intro: load_line al)
  moreover have "load_u64 m' (b + of_nat 0) = load_u64 m (b + of_nat 0)" "load_u64 m' (b + of_nat 64) = load_u64 m (b + of_nat 64)"
    by (simp_all only: load_frame [of 0 b m' m, OF _ hd] load_frame [of 64 b m' m, OF _ hd])
  ultimately show ?thesis by (simp add: log_image_def)
qed

lemma construct_durable:
  assumes "base_ok b" and "wf_pm P"
  shows "log_durable True \<lparr>log_base = b, mode = md, head = 0, tail = 0, local_head = 0, local_tail = 0, psm_mem = psm_log_construct b P\<rparr> [] []"
    (is "log_durable True ?s [] []")
proof (rule log_durableI)
  show "counters 0 0 0 0 ?s" by (simp add: counters_def)
  show "log_image (log_base ?s) 0 [] 0 img" if "image_of (pv (psm_mem ?s)) img" for img
    using construct_image [OF assms] that by simp
  show "wf_pm (psm_mem ?s)"
    using assms(2) by (simp add: psm_log_construct_def pmem_drain_def pmem_flush_def store_u64_def wf_pm_step wf_store_bytes del: le_bytes.simps)
qed (use assms(1) in simp_all)

text \<open>\<open>pmem_map_file\<close> maps whole pages inside the address space.\<close>

definition maps_pages :: "'w libs \<Rightarrow> bool" where
  "maps_pages L \<longleftrightarrow> (\<forall>path n w a p e w'. pmem_map_file L path n w = ((a, p, e), w') \<longrightarrow> a \<noteq> 0 \<longrightarrow>
     unat a mod 4096 = 0 \<and> unat a + unat n \<le> 2 ^ 64)"

lemma setup_durable:
  assumes "psm_init_setup L config P w = Inr (Inr (c, f, s))" and "maps_pages L" and "wf_pm P"
  shows "log_durable True (fg_psm s) [] [] \<and> \<not> fg_recovered s"
proof -
  obtain mem e w1 log p e' w2 where m: "pmem_map_file L (cfg_pmem_path c @ ''/'' @ ''psm_log'') (128 + PSM_LOG_SIZE_B) w1 = ((log, p, e'), w2)"
    and "log \<noteq> 0" and s: "fg_psm s = \<lparr>log_base = log, mode = cfg_mode c, head = 0, tail = 0, local_head = 0, local_tail = 0,
      psm_mem = psm_log_construct log P\<rparr>" "\<not> fg_recovered s"
    using assms(1) by (auto simp: psm_init_setup_def Let_def split: option.splits prod.splits if_splits)
  then have l: "unat log mod 4096 = 0" "unat log + unat (128 + PSM_LOG_SIZE_B) \<le> 2 ^ 64" using assms(2) unfolding maps_pages_def by blast+
  have "unat log mod 64 = 0" using l(1) mod_mod_cancel [of 64 4096 "unat log"] by simp
  then have "base_ok log" using l(2) by (simp add: base_ok_def psm_log_size)
  with construct_durable [OF _ assms(3)] s show ?thesis by simp
qed

text \<open>
  C8. The first start leaves an empty durable log. When \<open>psm_init\<close> gets past \<open>fork\<close>, in either process and
  in every mode, the log that the foreground and the background share is the empty queue, also in every memory that a
  power failure may leave (the constructor flushes both counters and drains), and the state
  of the application is untouched. This is the state from which the log survives failures.
\<close>

theorem psm_init_starts_empty:
  assumes "psm_init L config mem_of junk P w a = Some (Inr (out, Some s, a'))" and "maps_pages L" and "wf_pm P"
  shows "durable_state E (fg_psm s) [] [] \<and> a' = a"
proof -
  obtain c f s0 where s0: "psm_init_setup L config P w = Inr (Inr (c, f, s0))"
    using assms(1) by (auto simp: psm_init_def bind_ro_def split: sum.splits)
  have d: "log_durable True (fg_psm s0) [] []" and r: "\<not> fg_recovered s0" using setup_durable [OF s0 assms(2,3)] by simp_all
  obtain s1 where s1: "psm_init_mode L c False s0 = Inr s1"
    "psm_init_fork L c f mem_of junk s1 a = Some (Inr (out, s, a'))"
    using assms(1) by (auto simp: psm_init_def s0 bind_ro_def split: sum.splits option.splits)
  have "fg_psm s1 = fg_psm s0" "\<not> fg_recovered s1"
    using s1(1) r by (auto simp: psm_init_mode_def split: psm_mode.splits)
  moreover have "fg_psm s = fg_psm s1 \<and> a' = a"
    using s1(2) \<open>\<not> fg_recovered s1\<close>
    by (auto simp: psm_init_fork_def psm_init_parent_def bind_ro_def bind_result_def split: prod.splits if_splits sum.splits option.splits)
  ultimately show ?thesis using d by (simp add: durable_state_def)
qed

theorem psm_init_starts_empty_witness:
  "\<exists>s. psm_init (demo_libs\<lparr>lib_kernel := \<lambda>_ w. ((0x600000, []), w)\<rparr>) (Some demo_config) fst 0 (boot (\<lambda>_. 0)) (demo_fs, 9, 0) (\<lambda>_. 0, 0) =
       Some (Inr (Returned 0, Some s, (\<lambda>_. 0, 0))) \<and> durable_state {} (fg_psm s) [] []"
proof -
  let ?L = "demo_libs\<lparr>lib_kernel := \<lambda>_ w. ((0x600000, []), w)\<rparr>"
  obtain s where s: "psm_init ?L (Some demo_config) fst 0 (boot (\<lambda>_. 0)) (demo_fs, 9, 0) (\<lambda>_. 0, 0) =
      Some (Inr (Returned 0, Some s, (\<lambda>_. 0, 0)))"
    by (simp add: psm_init_def psm_init_setup_def Let_def psm_init_mode_def psm_init_fork_def psm_init_parent_def libc_mmap_def syscall_def psm_log_size)
  have "maps_pages ?L" by (auto simp: maps_pages_def word_le_nat_alt split: if_splits)
  from psm_init_starts_empty [OF s this] s show ?thesis by auto
qed

end
