(* ===== verification/Consumer.thy ===== *)
theory Consumer
  imports Background_Props
begin

text \<open>
  The background process over many rounds. \<open>run_rounds\<close> unfolds the endless loop of \<open>run_consumer\<close> a
  given number of times. The theorem compares it with the specification \<open>run_commands\<close>, which executes
  the commands one after another on the memory, without logs and without failures.
\<close>

section \<open>The loop, a number of times\<close>

text \<open>\<open>heads i j\<close> is what the \<open>j\<close>-th load of the head in the \<open>i\<close>-th round returns.\<close>

fun run_rounds ::
  "bool \<Rightarrow> 'w env \<Rightarrow> 'w criu \<Rightarrow> (addr \<Rightarrow> 'w bg \<Rightarrow> (int \<times> 'w bg) result option) \<Rightarrow> (nat \<Rightarrow> nat \<Rightarrow> u64) \<Rightarrow> nat \<Rightarrow>
   u64 \<Rightarrow> 'w bg \<Rightarrow> (u64 \<times> 'w bg) result option" where
  "run_rounds dedup E C f heads 0 tl_off b = Some (Inr (tl_off, b))"
| "run_rounds dedup E C f heads (Suc n) tl_off b =
     bind_ro (run_rounds dedup E C f heads n tl_off b) (\<lambda>(tl_off', b'). bg_consume dedup E C f (heads n) tl_off' b')"

lemma run_rounds_consumer:
  "run_rounds dedup E C f heads n (tail (psm_of b0)) b0 = Some (Inr (tl_off, b)) \<Longrightarrow> run_consumer dedup E C f b0 tl_off b"
  by (induction n arbitrary: tl_off b) (auto simp: bind_ro_Inr intro: run_consumer.intros)

lemma run_rounds_heads:
  "(\<And>i. i < n \<Longrightarrow> heads i = heads' i) \<Longrightarrow> run_rounds dedup E C f heads n tl_off b = run_rounds dedup E C f heads' n tl_off b"
  by (induction n) auto

lemma consumer_run_rounds:
  assumes "run_consumer dedup E C f b0 tl_off b"
  shows "\<exists>heads n. run_rounds dedup E C f heads n (tail (psm_of b0)) b0 = Some (Inr (tl_off, b))"
  using assms
proof induction
  case start
  show ?case by (rule exI, rule exI [of _ 0]) simp
next
  case (round tl_off b hs tl_off' b')
  then obtain heads n where r: "run_rounds dedup E C f heads n (tail (psm_of b0)) b0 = Some (Inr (tl_off, b))" by blast
  define hs' where "hs' = heads(n := hs)"
  have "run_rounds dedup E C f hs' n (tail (psm_of b0)) b0 = Some (Inr (tl_off, b))"
    using r by (subst run_rounds_heads [where heads' = heads]) (simp_all add: hs'_def)
  moreover have "hs' n = hs" by (simp add: hs'_def)
  ultimately show ?case using round.hyps(2) by (intro exI [of _ hs'] exI [of _ "Suc n"]) simp
qed

section \<open>The specification\<close>

fun run_commands :: "(mem \<Rightarrow> byte list \<Rightarrow> app_op list) \<Rightarrow> byte list list \<Rightarrow> mem \<Rightarrow> mem" where
  "run_commands app [] m = m"
| "run_commands app (e # es) m = run_commands app es (app_effect (app m e) m)"

definition same_off :: "addr set \<Rightarrow> mem \<Rightarrow> mem \<Rightarrow> bool" where
  "same_off X m m' \<longleftrightarrow> (\<forall>x. x \<notin> X \<longrightarrow> m x = m' x)"

lemma same_off_trans: "same_off X m m' \<Longrightarrow> same_off X m' m'' \<Longrightarrow> same_off X m m''"
  by (simp add: same_off_def)

lemma same_off_sym: "same_off X m m' \<Longrightarrow> same_off X m' m"
  by (simp add: same_off_def)

lemma app_effect_byte: "m x = m' x \<Longrightarrow> app_effect ops m x = app_effect ops m' x"
proof (induction ops arbitrary: m m')
  case (Cons p ps)
  have "wr a bs m x = wr a bs m' x" for a bs using Cons.prems by (simp add: wr_def)
  then show ?case by (cases p) (auto intro: Cons.IH Cons.prems)
qed simp

lemma same_off_app_effect: "same_off X m m' \<Longrightarrow> same_off X (app_effect ops m) (app_effect ops m')"
  unfolding same_off_def using app_effect_byte by blast

text \<open>
  What the background process relies on of the application: \<open>app m e\<close> lists the stores and mappings of the command
  \<open>e\<close> on the memory \<open>m\<close>. What they do outside \<open>X\<close> is determined by the bytes of the command and the memory outside \<open>X\<close>; the
  handler finds them wherever the command lies and reports its length; and they satisfy, in any memory, what
  the undo log asks of an epoch. \<open>cmd\<close> says which entries are commands.
\<close>

locale application =
  fixes B :: addr and S :: u64 and A :: "addr set" and F :: "addr set" and X :: "addr set" and skip :: bool
    and cmd :: "byte list \<Rightarrow> bool" and app :: "mem \<Rightarrow> byte list \<Rightarrow> app_op list" and prog :: "mem \<Rightarrow> addr \<Rightarrow> nat \<times> app_op list"
  assumes handler: "cmd e \<Longrightarrow> rd m a (length e) = e \<Longrightarrow> prog m a = (length e, app m e)"
    and command_effect: "cmd e \<Longrightarrow> same_off X m m' \<Longrightarrow> same_off X (app_effect (app m e) m) (app_effect (app m' e) m')"
    and ops_ok: "cmd e \<Longrightarrow> \<forall>p \<in> set (app m e). op_ok B S p"
    and ops_tracked: "cmd e \<Longrightarrow> tracked A skip [] (app m e)"
    and ops_room: "cmd e \<Longrightarrow> Suc (sum_list (map op_blocks (app m e))) < UNDO_NUM_ENTRIES"
    and ops_unprotected: "cmd e \<Longrightarrow> unprotected S (app m e) \<subseteq> F"
begin

lemma commands_effect:
  "\<forall>e \<in> set es. cmd e \<Longrightarrow> same_off X m m' \<Longrightarrow> same_off X (run_commands app es m) (run_commands app es m')"
  by (induction es arbitrary: m m') (auto simp: command_effect)

end

lemma run_commands_append: "run_commands app (es @ es') m = run_commands app es' (run_commands app es m)"
  by (induction es arbitrary: m) simp_all

section \<open>Rounds in sequence\<close>

lemma log_state_mono:
  "log_state dedup B A m0 F n es u \<Longrightarrow> F \<subseteq> F' \<Longrightarrow> log_state dedup B A m0 F' n es u"
  using log_inv_mono by (auto simp: log_state_def)

lemma bg_ready_mono:
  assumes "bg_ready dedup B A F m0 qs hd_off tl_off b" and "F \<subseteq> F'" and "log_apart B A F' (log_base (psm_of b))"
  shows "bg_ready dedup B A F' m0 qs hd_off tl_off b"
  using assms log_state_mono unfolding bg_ready_def by blast

lemma bg_ready_mem:
  assumes "bg_ready dedup B A F m0 qs hd_off tl_off b"
  shows "same_off (Collect (in_log B) \<union> F) (bg_mem b) m0"
  using assms log_state_current unfolding bg_ready_def same_off_def by fastforce

text \<open>
  A restart that has the memory after the first \<open>k\<close> commands, outside the logs and what need not be
  restored, and goes on from the tail \<open>tl_off\<close>.
\<close>

definition recovered_to ::
  "addr set \<Rightarrow> addr \<Rightarrow> mem \<Rightarrow> u64 \<Rightarrow> mem \<Rightarrow> (int \<times> undo_log \<times> 'm) result option \<Rightarrow> bool" where
  "recovered_to X a m tl_off img r \<longleftrightarrow>
     (\<exists>tn u mgr. r = Some (Inr (tn, u, mgr)) \<and> (\<forall>x. x \<notin> X \<longrightarrow> durably (ul_mem u) x (m x))) \<and>
     recovered_tail_of a img r = Some tl_off"

lemma all_or_nothing_recovered:
  assumes "all_or_nothing B a m0 F m1 D nt mgr1 mgr2 img r" and "Collect (in_log B) \<union> F \<subseteq> X" and "- X \<subseteq> D"
    and "same_off X m0 m" and "same_off X m1 m'"
  shows "recovered_to X a m (load_u64 m0 a) img r \<or> recovered_to X a m' nt img r"
proof -
  have x: "\<not> in_log B x" "x \<notin> F" "x \<in> D" "m0 x = m x" "m1 x = m' x" if "x \<notin> X" for x
    using assms(2-5) that by (auto simp: same_off_def)
  show ?thesis
    using assms(1) unfolding all_or_nothing_def rolled_back_def rolled_forward_def recovered_to_def by (metis x)
qed

text \<open>The schedule of loads: the first round waits until the head is visible, later ones see it.\<close>

definition head_visible :: "(nat \<Rightarrow> nat \<Rightarrow> u64) \<Rightarrow> u64 \<Rightarrow> u64 \<Rightarrow> bool" where
  "head_visible heads tl_off hd_off \<longleftrightarrow>
     (\<exists>k. (\<forall>j < k. heads 0 j = tl_off) \<and> heads 0 k = hd_off) \<and> (\<forall>i j. heads (Suc i) j = hd_off)"

text \<open>After some rounds: \<open>m\<close> is the memory that the specification gives.\<close>

definition consumer_at ::
  "bool \<Rightarrow> 'w env \<Rightarrow> addr \<Rightarrow> addr set \<Rightarrow> addr set \<Rightarrow> addr \<Rightarrow> mem \<Rightarrow> byte list list \<Rightarrow> u64 \<Rightarrow> u64 \<Rightarrow> 'w bg \<Rightarrow> bool" where
  "consumer_at dedup E B A F lb m qs hd_off tl_off b \<longleftrightarrow>
     (\<exists>m0. bg_ready dedup B A F m0 qs hd_off tl_off b \<and> same_off (Collect (in_log B) \<union> F \<union> word_at (tail_at lb)) m0 m) \<and>
     log_base (psm_of b) = lb \<and> fresh_regions (ul (instr_of b)) = [] \<and>
     (region_table_modified (instr_of b) \<longrightarrow>
       (\<exists>w'. persist_new_region_table E (mrm (instr_of b), world (instr_of b)) = Inr (SUCCESS, w')))"

lemma consumer_round:
  assumes app: "application B S A F X skip cmd app prog" and X: "X = Collect (in_log B) \<union> F \<union> word_at (tail_at lb)"
    and at: "consumer_at dedup E B A F lb m (e # qs) hd_off tl_off b" and e: "cmd e"
    and heads: "\<forall>j < k. heads j = tl_off" "heads k = hd_off"
    and hm: "dedup \<longrightarrow> hm < 0xFFFFFFFF"
    and mgr: "mrm_recover mops (mrm_clear_new_region_table mops mgr) = Some (Inr mgr1)"
      "\<forall>a \<in> A. mrm_does_manage mops mgr1 a"
      "mrm_recover mops (mrm_commit_new_region_table mops mgr) = Some (Inr mgr2)"
  defines "m' \<equiv> app_effect (app m e) m"
  shows "\<exists>nt b4 b5. bg_execute E C (app_handler dedup skip prog) heads tl_off b = Some (Inr (nt, b4)) \<and>
     (\<forall>img. crash_during (psm_mem (psm_of b)) (psm_mem (psm_of b4)) img \<longrightarrow>
        recovered_to X (tail_at lb) m tl_off img (restart dedup B hm h0 mops mgr img) \<or>
        recovered_to X (tail_at lb) m' nt img (restart dedup B hm h0 mops mgr img)) \<and>
     bg_consume dedup E C (app_handler dedup skip prog) heads tl_off b = Some (Inr (nt, b5)) \<and>
     consumer_at dedup E B A F lb m' qs hd_off nt b5"
proof -
  let ?ops = "app (bg_mem b) e" and ?a = "tail_at lb" and ?r = "restart dedup B hm h0 mops mgr"
  obtain m0 where ready: "bg_ready dedup B A F m0 (e # qs) hd_off tl_off b" and m0: "same_off X m0 m"
    and lb: "log_base (psm_of b) = lb" and fr: "fresh_regions (ul (instr_of b)) = []"
    and reg: "region_table_modified (instr_of b) \<longrightarrow>
      (\<exists>w'. persist_new_region_table E (mrm (instr_of b), world (instr_of b)) = Inr (SUCCESS, w'))"
    using at unfolding consumer_at_def X by blast
  have ap: "log_apart B A F lb" and tl: "load_u64 m0 ?a = tl_off" using ready lb by (auto simp: bg_ready_def)
  have "same_off X (bg_mem b) m0" using bg_ready_mem [OF ready] by (simp add: same_off_def X)
  then have bm: "same_off X (bg_mem b) m" using m0 by (rule same_off_trans)
  have eff: "same_off X (app_effect ?ops (bg_mem b)) m'"
    unfolding m'_def using application.command_effect [OF app e bm] .
  have prog: "\<forall>a. rd (bg_mem b) a (length e) = e \<longrightarrow> prog (bg_mem b) a = (length e, ?ops)"
    using application.handler [OF app e] by blast
  define fresh where "fresh = ranges_set (fold fresh_after ?ops [])"
  obtain nt b4 b5 where r: "bg_execute E C (app_handler dedup skip prog) heads tl_off b = Some (Inr (nt, b4))"
    "\<And>img. crash_during (psm_mem (psm_of b)) (psm_mem (psm_of b4)) img \<Longrightarrow>
       all_or_nothing B ?a m0 F (app_effect ?ops (bg_mem b)) ((- F \<union> fresh) - word_at ?a) nt mgr1 mgr2 img (?r img)"
    "bg_consume dedup E C (app_handler dedup skip prog) heads tl_off b = Some (Inr (nt, b5))"
    "bg_ready dedup B A (F - fresh) (wr ?a (le_bytes 8 nt) (app_effect ?ops (bg_mem b))) qs hd_off nt b5"
    "log_base (psm_of b5) = lb" "fresh_regions (ul (instr_of b5)) = []" "\<not> region_table_modified (instr_of b5)"
    using command_round [where k = k and heads = heads and prog = prog, OF ready heads prog application.ops_unprotected [OF app e]
        application.ops_ok [OF app e] _ application.ops_room [OF app e] reg hm mgr, of skip]
      application.ops_tracked [OF app e] unfolding fr lb fresh_def by blast
  have "same_off X (wr ?a (le_bytes 8 nt) (app_effect ?ops (bg_mem b))) m'"
    using eff by (auto simp: same_off_def X wr_def simp del: le_bytes.simps)
  moreover have "bg_ready dedup B A F (wr ?a (le_bytes 8 nt) (app_effect ?ops (bg_mem b))) qs hd_off nt b5"
    using bg_ready_mono [OF r(4)] ap r(5) by simp
  ultimately have "consumer_at dedup E B A F lb m' qs hd_off nt b5"
    using r(5-7) unfolding consumer_at_def X by blast
  moreover have "recovered_to X ?a m tl_off img (?r img) \<or> recovered_to X ?a m' nt img (?r img)"
    if "crash_during (psm_mem (psm_of b)) (psm_mem (psm_of b4)) img" for img
    using all_or_nothing_recovered [OF r(2) [OF that], of X m m'] m0 eff tl by (auto simp: X)
  ultimately show ?thesis using r(1,3) by blast
qed

lemma head_visible_round:
  assumes "head_visible heads tl_off hd_off" and "n = 0 \<longrightarrow> tl_off' = tl_off"
  obtains k where "\<forall>j < k. heads n j = tl_off'" "heads n k = hd_off"
  using assms that [of 0] by (cases n) (auto simp: head_visible_def)

text \<open>The next round, after \<open>n\<close> of them.\<close>

lemma consumer_next:
  assumes app: "application B S A F X skip cmd app prog" and X: "X = Collect (in_log B) \<union> F \<union> word_at (tail_at lb)"
    and cmds: "\<forall>e \<in> set qs. cmd e"
    and heads: "head_visible heads tl_off hd_off" and hm: "dedup \<longrightarrow> hm < (0xFFFFFFFF :: u64)"
    and mgr: "mrm_recover mops (mrm_clear_new_region_table mops mgr) = Some (Inr mgr1)"
      "\<forall>a \<in> A. mrm_does_manage mops mgr1 a"
      "mrm_recover mops (mrm_commit_new_region_table mops mgr) = Some (Inr mgr2)"
    and at: "consumer_at dedup E B A F lb (run_commands app (take n qs) m) (drop n qs) hd_off tl' b'" "n = 0 \<longrightarrow> tl' = tl_off"
    and n: "n < length qs"
  shows "\<exists>nt b4 b5. bg_execute E C (app_handler dedup skip prog) (heads n) tl' b' = Some (Inr (nt, b4)) \<and>
     (\<forall>img. crash_during (psm_mem (psm_of b')) (psm_mem (psm_of b4)) img \<longrightarrow>
        recovered_to X (tail_at lb) (run_commands app (take n qs) m) tl' img (restart dedup B hm h0 mops mgr img) \<or>
        recovered_to X (tail_at lb) (run_commands app (take (Suc n) qs) m) nt img (restart dedup B hm h0 mops mgr img)) \<and>
     bg_consume dedup E C (app_handler dedup skip prog) (heads n) tl' b' = Some (Inr (nt, b5)) \<and>
     consumer_at dedup E B A F lb (run_commands app (take (Suc n) qs) m) (drop (Suc n) qs) hd_off nt b5"
proof -
  let ?m = "run_commands app (take n qs) m" and ?e = "qs ! n"
  obtain k where k: "\<forall>j < k. heads n j = tl'" "heads n k = hd_off" using head_visible_round [OF heads at(2)] .
  have d: "drop n qs = ?e # drop (Suc n) qs" "take (Suc n) qs = take n qs @ [?e]" "cmd ?e"
    using n cmds by (simp_all add: Cons_nth_drop_Suc take_Suc_conv_app_nth)
  have at': "consumer_at dedup E B A F lb ?m (?e # drop (Suc n) qs) hd_off tl' b'" using at(1) by (simp only: d(1))
  show ?thesis
    using consumer_round [where heads = "heads n" and k = k, OF app X at' d(3) k hm mgr]
    unfolding d(2) run_commands_append run_commands.simps by blast
qed

lemma consumer_rounds:
  fixes mops :: "'m mrm_ops"
  assumes app: "application B S A F X skip cmd app prog" and X: "X = Collect (in_log B) \<union> F \<union> word_at (tail_at lb)"
    and cmds: "\<forall>e \<in> set qs. cmd e"
    and heads: "head_visible heads tl_off hd_off" and hm: "dedup \<longrightarrow> hm < (0xFFFFFFFF :: u64)"
    and mgr: "mrm_recover mops (mrm_clear_new_region_table mops mgr) = Some (Inr mgr1)"
      "\<forall>a \<in> A. mrm_does_manage mops mgr1 a"
      "mrm_recover mops (mrm_commit_new_region_table mops mgr) = Some (Inr mgr2)"
    and at: "consumer_at dedup E B A F lb m qs hd_off tl_off b"
  shows "n \<le> length qs \<Longrightarrow> \<exists>tl' b'. run_rounds dedup E C (app_handler dedup skip prog) heads n tl_off b = Some (Inr (tl', b')) \<and>
     consumer_at dedup E B A F lb (run_commands app (take n qs) m) (drop n qs) hd_off tl' b' \<and> (n = 0 \<longrightarrow> tl' = tl_off)"
proof (induction n)
  case 0
  then show ?case using at by simp
next
  case (Suc n)
  obtain tl' b' where r: "run_rounds dedup E C (app_handler dedup skip prog) heads n tl_off b = Some (Inr (tl', b'))"
    "consumer_at dedup E B A F lb (run_commands app (take n qs) m) (drop n qs) hd_off tl' b'" "n = 0 \<longrightarrow> tl' = tl_off"
    using Suc by auto
  have n: "n < length qs" using Suc.prems by simp
  obtain nt b5 where "bg_consume dedup E C (app_handler dedup skip prog) (heads n) tl' b' = Some (Inr (nt, b5))"
    "consumer_at dedup E B A F lb (run_commands app (take (Suc n) qs) m) (drop (Suc n) qs) hd_off nt b5"
    using consumer_next [where heads = heads, OF app X cmds heads hm mgr r(2,3) n] by blast
  then show ?case using r(1) by (auto simp del: take_Suc drop_Suc)
qed

text \<open>
  C1. The log is executed in order, each command exactly once. Take a state in which the operation
  log holds the commands \<open>qs\<close>, over a durable memory and with an empty undo log, and an application
  that meets its contract. For every \<open>n\<close>, the loop returns from \<open>n\<close> rounds, and what is durable then is what running the
  first \<open>n\<close> commands one after another on the memory gives, with the rest of the commands still in the log. If the power fails in
  the next round, up to the end of \<open>update_tail\<close>, a restart ends, with exactly the first \<open>n\<close> commands executed and the tail in
  front of the next one, or with exactly the first \<open>n + 1\<close> and the tail behind it. This is up to \<open>X\<close>: the undo log, the
  word of the tail, and the memory \<open>F\<close> that need not be restored.
\<close>

theorem log_executed_in_order:
  assumes app: "application B S A F X skip cmd app prog" and X: "X = Collect (in_log B) \<union> F \<union> word_at (tail_at lb)"
    and cmds: "\<forall>e \<in> set qs. cmd e"
    and heads: "head_visible heads tl_off hd_off" and hm: "dedup \<longrightarrow> hm < (0xFFFFFFFF :: u64)"
    and mgr: "mrm_recover mops (mrm_clear_new_region_table mops mgr) = Some (Inr mgr1)"
      "\<forall>a \<in> A. mrm_does_manage mops mgr1 a"
      "mrm_recover mops (mrm_commit_new_region_table mops mgr) = Some (Inr mgr2)"
    and at: "consumer_at dedup E B A F lb (bg_mem b) qs hd_off tl_off b" and n: "n \<le> length qs"
  shows "\<exists>tl' b'. run_rounds dedup E C (app_handler dedup skip prog) heads n tl_off b = Some (Inr (tl', b')) \<and>
     consumer_at dedup E B A F lb (run_commands app (take n qs) (bg_mem b)) (drop n qs) hd_off tl' b' \<and>
     (n < length qs \<longrightarrow> (\<exists>nt b4. bg_execute E C (app_handler dedup skip prog) (heads n) tl' b' = Some (Inr (nt, b4)) \<and>
        (\<forall>img. crash_during (psm_mem (psm_of b')) (psm_mem (psm_of b4)) img \<longrightarrow>
           recovered_to X (tail_at lb) (run_commands app (take n qs) (bg_mem b)) tl' img (restart dedup B hm h0 mops mgr img) \<or>
           recovered_to X (tail_at lb) (run_commands app (take (Suc n) qs) (bg_mem b)) nt img (restart dedup B hm h0 mops mgr img))))"
proof -
  obtain tl' b' where r: "run_rounds dedup E C (app_handler dedup skip prog) heads n tl_off b = Some (Inr (tl', b'))"
    "consumer_at dedup E B A F lb (run_commands app (take n qs) (bg_mem b)) (drop n qs) hd_off tl' b'" "n = 0 \<longrightarrow> tl' = tl_off"
    using consumer_rounds [where heads = heads, OF app X cmds heads hm mgr at n] by blast
  show ?thesis
    using r(1,2) consumer_next [where heads = heads, OF app X cmds heads hm mgr r(2,3)] by blast
qed

text \<open>Two commands of one byte, each stored into the same three bytes of memory.\<close>

abbreviation two_commands :: mem where
  "two_commands \<equiv> (\<lambda>_. 0)(0x50000080 := 1, 0x500000C0 := 2)"

abbreviation byte_app :: "mem \<Rightarrow> byte list \<Rightarrow> app_op list" where
  "byte_app m e \<equiv> [AppStore 0x40000000 [hd e, 2, 3] 0x7000000000000100]"

abbreviation byte_prog :: "mem \<Rightarrow> addr \<Rightarrow> nat \<times> app_op list" where
  "byte_prog m a \<equiv> (1, [AppStore 0x40000000 [m a, 2, 3] 0x7000000000000100])"

definition two_bg :: "unit bg" where
  "two_bg = one_bg\<lparr>psm_of := (psm_of one_bg)\<lparr>psm_mem := boot two_commands\<rparr>,
     instr_of := (instr_of one_bg)\<lparr>ul := recovered_log 65536 0 (\<lambda>_. 0) two_commands\<rparr>\<rparr>"

lemma two_bg_simps [simp]:
  "mode (psm_of two_bg) = PSM_MODE_UNDO" "psm_mem (psm_of two_bg) = boot two_commands" "log_base (psm_of two_bg) = 0x50000000"
  "ul (instr_of two_bg) = recovered_log 65536 0 (\<lambda>_. 0) two_commands" "region_table_modified (instr_of two_bg) = False"
  by (simp_all add: two_bg_def)

lemma two_log_apart: "log_apart 65536 {x. x < 0x48000000} {x. 0x7000000000000000 \<le> x} 0x50000000"
  using one_bg_ready by (simp add: bg_ready_def unprotected_def)

lemma two_bg_ready:
  "bg_ready False 65536 {x. x < 0x48000000} {x. 0x7000000000000000 \<le> x} two_commands [[1], [2]] 128 0 two_bg"
proof (rule bg_readyI [where t = 0 and h = 128])
  show "log_state False 65536 {x. x < 0x48000000} two_commands {x. 0x7000000000000000 \<le> x} 0 []
      (recovered_log 65536 0 (\<lambda>_. 0) two_commands)"
    by (rule log_state_boot [OF demo_log]) (auto simp: in_log_def UNDO_NUM_ENTRIES_def)
  show "load_u64 two_commands (tail_at 0x50000000) = 0"
    by (simp add: load_u64_def rd_def upt_rec)
  show "chain two_commands (buf_at 0x50000000) 0 [[1], [2]] 128"
    by (simp add: entry_ok_def round64_def pad_def span_def stored_at_def rd_def)
qed (simp_all add: base_ok_def two_log_apart)

lemma two_app:
  "application 65536 0x7000000000000000 {x. x < 0x48000000} {x. 0x7000000000000000 \<le> x} X True
     (\<lambda>e. length e = 1) byte_app byte_prog"
proof unfold_locales
  fix e :: "byte list" and m m' :: mem and a :: addr
  assume e: "length e = 1"
  show "byte_prog m a = (length e, byte_app m e)" if "rd m a (length e) = e"
    using that e by (cases e) (simp_all add: rd_def)
  show "\<forall>p \<in> set (byte_app m e). op_ok 65536 0x7000000000000000 p"
    using demo_ops_ok(1) by (simp add: window_ok_def)
  have "undo_block x < 0x48000000" if "unat (x - 0x40000000) < 3" for x
    using that window_iff [of "0x40000000" 3 x] by (auto simp: word_less_nat_alt unat_undo_block)
  then show "tracked {x. x < 0x48000000} True [] (byte_app m e)" by (simp add: store_tracked_def)
  show "Suc (sum_list (map op_blocks (byte_app m e))) < UNDO_NUM_ENTRIES"
    by (simp add: blocks_of_def UNDO_NUM_ENTRIES_def)
  show "same_off X (app_effect (byte_app m e) m) (app_effect (byte_app m' e) m')" if "same_off X m m'"
    using that by (rule same_off_app_effect)
qed (simp_all add: unprotected_def)

theorem log_executed_in_order_witness:
  "\<exists>tl' b'. run_rounds False one_env demo_criu (app_handler False True byte_prog) (\<lambda>_ _. 128) 2 0 two_bg = Some (Inr (tl', b')) \<and>
     consumer_at False one_env 65536 {x. x < 0x48000000} {x. 0x7000000000000000 \<le> x} 0x50000000
       (wr 0x40000000 [2, 2, 3] (wr 0x40000000 [1, 2, 3] two_commands)) [] 128 tl' b'"
proof -
  have "consumer_at False one_env 65536 {x. x < 0x48000000} {x. 0x7000000000000000 \<le> x} 0x50000000 (bg_mem two_bg) [[1], [2]] 128 0 two_bg"
    unfolding consumer_at_def by (intro conjI exI [of _ two_commands] two_bg_ready) (simp_all add: same_off_def)
  then show ?thesis
    using log_executed_in_order [OF two_app refl, where qs = "[[1], [2]]" and heads = "\<lambda>_ _. 128" and tl_off = 0 and hd_off = 128
        and dedup = False and hm = 0 and mops = demo_mops and mgr = "()" and n = 2 and b = two_bg and E = one_env and C = demo_criu]
    by (simp add: head_visible_def numeral_2_eq_2) blast
qed

end
