(* ===== verification/Musl_Strings.thy ===== *)
theory Musl_Strings
  imports Psm_Log
begin

text \<open>
  The string functions of \<^verbatim>\<open>src/src/undo/my_libc/musl/\<close> that the background library links instead of libc:
  \<^verbatim>\<open>strlen.c\<close>, \<^verbatim>\<open>strcpy.c\<close>, \<^verbatim>\<open>strncpy.c\<close>, \<^verbatim>\<open>strcmp.c\<close>. They advance to an aligned address byte by byte and then
  look at eight bytes at a time. The theorems compare them with the byte loop and with lists of bytes.
\<close>

section \<open>A zero byte in a word\<close>

definition ONES :: u64 where "ONES = (- 1) div 255"

definition HIGHS :: u64 where "HIGHS = ONES * (255 div 2 + 1)"

definition HASZERO :: "u64 \<Rightarrow> u64" where
  "HASZERO x = (x - ONES) AND NOT x AND HIGHS"

text \<open>The same constants for a shorter sequence of bytes.\<close>

fun rep_byte :: "u64 \<Rightarrow> nat \<Rightarrow> u64" where
  "rep_byte c 0 = 0"
| "rep_byte c (Suc n) = c + 256 * rep_byte c n"

lemma ONES_rep: "ONES = rep_byte 1 8"
  by code_simp

lemma HIGHS_rep: "HIGHS = rep_byte 128 8"
  by code_simp

lemma low_byte_bits:
  assumes "c < (256 :: u64)"
  shows "bit (c + 256 * y) i \<longleftrightarrow> (if i < 8 then bit c i else i < 64 \<and> bit y (i - 8))"
proof -
  have "take_bit 8 c = c" using assms by (simp add: word_eq_iff_unat unsigned_take_bit_eq word_less_nat_alt take_bit_nat_eq_self)
  then have c: "bit c j \<longleftrightarrow> j < 8 \<and> bit c j" for j by (metis bit_take_bit_iff)
  have y: "256 * y = push_bit 8 y" by (simp add: push_bit_eq_mult mult.commute)
  have "c + push_bit 8 y = c OR push_bit 8 y"
  proof (rule disjunctive_add)
    show "\<not> bit c j \<or> \<not> bit (push_bit 8 y) j" for j using c [of j] by (auto simp: bit_simps)
  qed
  then show ?thesis using c [of i] by (auto simp: y bit_simps)
qed

lemma unat_byte_u64 [simp]: "unat (ucast (b :: byte) :: u64) = unat b"
  by (simp add: unsigned_ucast_eq take_bit_nat_eq_self order.strict_trans [OF unsigned_less [of b]])

lemma unat_byte_less: "unat (b :: byte) < 256"
  by (rule order.strict_trans2 [OF unsigned_less]) simp

lemma byte_u64_less: "ucast (b :: byte) < (256 :: u64)"
  using unat_byte_less [of b] by (simp add: word_less_nat_alt)

lemma le_word_Cons: "(le_word (b # bs) :: u64) = ucast b + 256 * le_word bs"
proof -
  have "ucast b < (256 :: u64)" by (rule byte_u64_less)
  then show ?thesis by (intro bit_word_eqI) (auto simp: low_byte_bits bit_simps dest: bit_imp_le_length)
qed


text \<open>The test on a sequence of bytes, from the lowest one up: no byte below the first zero byte borrows.\<close>

definition zero_test :: "byte list \<Rightarrow> u64" where
  "zero_test bs = (le_word bs - rep_byte 1 (length bs)) AND NOT (le_word bs) AND rep_byte 128 (length bs)"

lemma rep_high_bits: "n \<le> 8 \<Longrightarrow> bit (rep_byte 128 n) i \<longleftrightarrow> i mod 8 = 7 \<and> i < 8 * n"
proof (induction n arbitrary: i)
  case (Suc n)
  have "(128 :: u64) = 2 ^ 7" by simp
  then have b: "bit (128 :: u64) i \<longleftrightarrow> i = 7" by (simp only: bit_exp_iff) auto
  show ?case
  proof (cases "i < 8")
    case True
    have "bit (rep_byte 128 (Suc n)) i \<longleftrightarrow> bit (128 :: u64) i" using True by (simp add: low_byte_bits)
    then show ?thesis unfolding b using True by auto
  next
    case False
    then obtain j where "i = j + 8" using le_Suc_ex [of 8 i] by (auto simp: add.commute)
    then have "bit (rep_byte 128 (Suc n)) i \<longleftrightarrow> j + 8 < 64 \<and> bit (rep_byte 128 n) j" by (simp add: low_byte_bits)
    then show ?thesis using Suc.IH [of j] Suc.prems \<open>i = j + 8\<close> by auto
  qed
qed simp

lemma high_bit_byte: "bit b 7 \<longleftrightarrow> 128 \<le> unat b" for b :: byte
proof -
  have "bit b 7 \<longleftrightarrow> bit (unat b) 7" by (simp add: bit_unsigned_iff)
  also have "\<dots> \<longleftrightarrow> odd (unat b div 128)" by (simp add: bit_iff_odd)
  finally have "bit b 7 \<longleftrightarrow> odd (unat b div 128)" .
  moreover have "unat b div 128 < 2" using unat_byte_less [of b] by simp
  ultimately show ?thesis by (auto simp: less_2_cases_iff)
qed


lemma some_bit: "w \<noteq> 0 \<longleftrightarrow> (\<exists>i. bit w i)" for w :: u64
proof -
  have "w = 0" if "\<And>i. \<not> bit w i" using that by (intro bit_word_eqI) simp
  then show ?thesis by auto
qed

lemma zero_test_Cons:
  assumes len: "length bs < 8"
  shows "zero_test (b # bs) \<noteq> 0 \<longleftrightarrow> b = 0 \<or> zero_test bs \<noteq> 0"
proof -
  let ?y = "le_word bs - rep_byte 1 (length bs)" and ?x = "le_word (b # bs) :: u64" and ?H = "rep_byte 128 (Suc (length bs))"
  have H: "bit ?H i \<longleftrightarrow> i mod 8 = 7 \<and> i < 8 * Suc (length bs)" for i using rep_high_bits [of "Suc (length bs)" i] len by simp
  have x: "bit ?x i \<longleftrightarrow> (if i < 8 then bit b i else i < 64 \<and> bit (le_word bs :: u64) (i - 8))" for i
    unfolding le_word_Cons by (simp add: low_byte_bits byte_u64_less bit_simps)
  have z: "zero_test (b # bs) = (?x - rep_byte 1 (Suc (length bs))) AND NOT ?x AND ?H" by (simp add: zero_test_def)
  show ?thesis
  proof (cases "b = 0")
    case True
    have "?x - rep_byte 1 (Suc (length bs)) = 255 + 256 * (?y - 1)" unfolding le_word_Cons by (simp add: True algebra_simps)
    moreover have "bit (255 + 256 * (?y - 1)) 7" unfolding low_byte_bits [of 255, simplified] by simp
    ultimately have "bit (?x - rep_byte 1 (Suc (length bs))) 7" by metis
    then have "bit (zero_test (b # bs)) 7"
      using x [of 7] H [of 7] True unfolding z by (simp add: bit_and_iff bit_not_iff del: rep_byte.simps le_word.simps)
    then show ?thesis using True by auto
  next
    case False
    then have b: "unat (b - 1) = unat b - 1" and c: "ucast b - 1 = (ucast (b - 1) :: u64)"
      by (simp_all add: unat_minus_one word_eq_iff_unat unat_sub_le)
    have d: "bit (?x - rep_byte 1 (Suc (length bs))) i \<longleftrightarrow> (if i < 8 then bit (b - 1) i else i < 64 \<and> bit ?y (i - 8))" for i
    proof -
      have e: "?x - rep_byte 1 (Suc (length bs)) = ucast (b - 1) + 256 * ?y" unfolding le_word_Cons by (simp add: c [symmetric] algebra_simps)
      show ?thesis unfolding e low_byte_bits [OF byte_u64_less] by (simp add: bit_simps)
    qed
    have "bit (zero_test (b # bs)) i \<longleftrightarrow> 8 \<le> i \<and> bit (zero_test bs) (i - 8)" for i
    proof (cases "i < 8")
      case True
      have "\<not> (bit (b - 1) 7 \<and> \<not> bit b 7)" unfolding high_bit_byte b by linarith
      then show ?thesis using True d [of i] x [of i] H [of i] unfolding z by (auto simp: bit_and_iff bit_not_iff simp del: rep_byte.simps le_word.simps)
    next
      case False
      then obtain j where j: "i = j + 8" using le_Suc_ex [of 8 i] by (auto simp: add.commute)
      have "bit (rep_byte 128 (length bs)) j \<longleftrightarrow> j mod 8 = 7 \<and> j < 8 * length bs" using rep_high_bits len by simp
      then show ?thesis using d [of i] x [of i] H [of i] len unfolding z zero_test_def j by (auto simp: bit_and_iff bit_not_iff simp del: rep_byte.simps le_word.simps)
    qed
    then have "(\<exists>i. bit (zero_test (b # bs)) i) \<longleftrightarrow> (\<exists>i. bit (zero_test bs) i)" by (metis add_diff_cancel_right' le_add2)
    then show ?thesis using False unfolding some_bit by simp
  qed
qed


lemma zero_test_iff: "length bs \<le> 8 \<Longrightarrow> zero_test bs \<noteq> 0 \<longleftrightarrow> 0 \<in> set bs"
  by (induction bs) (auto simp: zero_test_Cons zero_test_def [of "[]"])

lemma HASZERO_iff: "HASZERO (load_u64 m a) \<noteq> 0 \<longleftrightarrow> 0 \<in> set (rd m a 8)"
proof -
  have "HASZERO (load_u64 m a) = zero_test (rd m a 8)"
    by (simp add: HASZERO_def zero_test_def load_u64_def ONES_rep HIGHS_rep del: rep_byte.simps)
  then show ?thesis using zero_test_iff [of "rd m a 8"] by simp
qed

section \<open>strlen\<close>

text \<open>The byte loop, which is also the whole function where \<^verbatim>\<open>__GNUC__\<close> is not defined.\<close>

partial_function (option) byte_scan :: "mem \<Rightarrow> addr \<Rightarrow> addr option" where
  "byte_scan m s = (if m s = 0 then Some s else byte_scan m (s + 1))"

text \<open>The loop up to an aligned address: \<open>Inl\<close> where it returns, \<open>Inr\<close> where it goes on.\<close>

lemma unat_Suc_mod_8: "unat (s + 1 :: u64) mod 8 = (unat s + 1) mod 8"
proof -
  have "unat (s + 1) mod 8 = (unat s + 1) mod 18446744073709551616 mod 8" by (simp add: unat_word_ariths)
  then show ?thesis by (simp add: mod_mod_cancel)
qed

definition to_align :: "addr \<Rightarrow> nat" where
  "to_align s = (8 - unat s mod 8) mod 8"

lemma to_align_step [termination_simp]: "0 < unat s mod 8 \<Longrightarrow> to_align (s + 1) < to_align s"
  using mod_Suc [of "unat s" 8] by (auto simp: to_align_def unat_Suc_mod_8)

function align_scan :: "mem \<Rightarrow> addr \<Rightarrow> addr + addr" where
  "align_scan m s = (if unat s mod 8 = 0 then Inr s else if m s = 0 then Inl s else align_scan m (s + 1))"
  by pat_completeness auto

termination
  by (relation "measure (\<lambda>(m, s). to_align s)") (simp_all add: to_align_step)

declare align_scan.simps [simp del]

partial_function (option) word_scan :: "mem \<Rightarrow> addr \<Rightarrow> addr option" where
  "word_scan m w = (if HASZERO (load_u64 m w) \<noteq> 0 then Some w else word_scan m (w + 8))"

definition strlen :: "mem \<Rightarrow> addr \<Rightarrow> u64 option" where
  "strlen m a =
     (case align_scan m a of
        Inl s \<Rightarrow> Some (s - a)
      | Inr s \<Rightarrow> Option.bind (word_scan m s) (\<lambda>w. map_option (\<lambda>t. t - a) (byte_scan m w)))"

subsection \<open>Correctness\<close>

lemma byte_scan_skip: "\<forall>i < n. m (s + of_nat i) \<noteq> 0 \<Longrightarrow> byte_scan m s = byte_scan m (s + of_nat n)"
proof (induction n arbitrary: s)
  case (Suc n)
  have "m s \<noteq> 0" using Suc.prems [rule_format, of 0] by simp
  then have "byte_scan m s = byte_scan m (s + 1)" by (subst byte_scan.simps) simp
  also have "\<dots> = byte_scan m (s + 1 + of_nat n)"
    using Suc.prems [rule_format, of "Suc i" for i] by (intro Suc.IH) (simp add: add.assoc)
  finally show ?case by (simp add: add.assoc)
qed simp

lemma align_scan_byte_scan:
  "(\<forall>t. align_scan m s = Inl t \<longrightarrow> byte_scan m s = Some t) \<and> (\<forall>t. align_scan m s = Inr t \<longrightarrow> byte_scan m s = byte_scan m t)"
proof (induction m s rule: align_scan.induct)
  case (1 m s)
  consider "unat s mod 8 = 0" | "unat s mod 8 \<noteq> 0" "m s = 0" | "unat s mod 8 \<noteq> 0" "m s \<noteq> 0" by blast
  then show ?case
  proof cases
    case 2
    then show ?thesis by (subst byte_scan.simps) (simp add: align_scan.simps)
  next
    case 3
    have "align_scan m s = align_scan m (s + 1)" by (subst align_scan.simps) (simp add: 3)
    moreover have "byte_scan m s = byte_scan m (s + 1)" by (subst byte_scan.simps) (simp add: 3)
    ultimately show ?thesis using 1 3 by presburger
  qed (simp add: align_scan.simps)
qed

lemma no_zero_in_word: "HASZERO (load_u64 m w) = 0 \<Longrightarrow> i < 8 \<Longrightarrow> m (w + of_nat i) \<noteq> 0"
  using HASZERO_iff [of m w] by (auto simp: rd_def)

lemma word_scan_Some:
  assumes "word_scan m w = Some t"
  shows "byte_scan m w = byte_scan m t"
proof (rule word_scan.raw_induct [where P = "\<lambda>m w t. byte_scan m w = byte_scan m t", OF _ assms])
  fix f m w t
  assume IH: "\<And>m w t. f m w = Some t \<Longrightarrow> byte_scan m w = byte_scan m t"
    and s: "(if HASZERO (load_u64 m w) \<noteq> 0 then Some w else f m (w + 8)) = Some t"
  show "byte_scan m w = byte_scan m t"
  proof (cases "HASZERO (load_u64 m w) = 0")
    case True
    then have "byte_scan m (w + 8) = byte_scan m t" using IH s by simp
    then show ?thesis using byte_scan_skip [of 8 m w] no_zero_in_word [OF True] by simp
  qed (use s in simp)
qed

lemma byte_scan_Some:
  assumes "byte_scan m s = Some t"
  shows "\<exists>n. m (s + of_nat n) = 0"
proof (rule byte_scan.raw_induct [where P = "\<lambda>m s t. \<exists>n. m (s + of_nat n) = 0", OF _ assms])
  fix f m s t
  assume IH: "\<And>m s t. f m s = Some t \<Longrightarrow> \<exists>n. m (s + of_nat n) = 0"
    and s: "(if m s = 0 then Some s else f m (s + 1)) = Some t"
  show "\<exists>n. m (s + of_nat n) = 0"
  proof (cases "m s = 0")
    case False
    then obtain n where "m (s + 1 + of_nat n) = 0" using IH s by fastforce
    then show ?thesis by (intro exI [of _ "Suc n"]) (simp add: add.assoc)
  qed (intro exI [of _ 0], simp)
qed

lemma word_scan_ends: "m (w + of_nat n) = 0 \<Longrightarrow> \<exists>t. word_scan m w = Some t"
proof (induction n arbitrary: w rule: less_induct)
  case (less n)
  show ?case
  proof (cases "HASZERO (load_u64 m w) = 0")
    case True
    then have n: "8 \<le> n" using no_zero_in_word [OF True, of n] less.prems by (cases "n < 8") auto
    then have "m (w + 8 + of_nat (n - 8)) = 0" using less.prems by (simp add: of_nat_diff)
    then obtain t where "word_scan m (w + 8) = Some t" using less.IH [of "n - 8"] n by fastforce
    then show ?thesis using True by (subst word_scan.simps) simp
  qed (subst word_scan.simps, simp)
qed

lemma strlen_byte_loop: "strlen m a = map_option (\<lambda>t. t - a) (byte_scan m a)"
proof (cases "align_scan m a")
  case (Inl t)
  then show ?thesis using align_scan_byte_scan [of m a] by (simp add: strlen_def)
next
  case (Inr s)
  then have s: "byte_scan m a = byte_scan m s" using align_scan_byte_scan [of m a] by simp
  show ?thesis
  proof (cases "word_scan m s")
    case None
    then have "byte_scan m s = None" using byte_scan_Some word_scan_ends by (metis not_None_eq option.distinct(1))
    then show ?thesis by (simp add: strlen_def Inr None s)
  next
    case (Some w)
    then show ?thesis using word_scan_Some [OF Some] by (simp add: strlen_def Inr s)
  qed
qed

text \<open>
  C36. \<open>strlen\<close>, with its aligned words and its test for a zero byte in a word, returns for every memory and every
  address what the byte loop returns: the distance of the first zero byte. It does not return if there is none.
\<close>

theorem strlen_equals_byte_loop:
  "strlen m a = map_option (\<lambda>t. t - a) (byte_scan m a) \<and>
   strlen m a = (if \<exists>n. m (a + of_nat n) = 0 then Some (of_nat (LEAST n. m (a + of_nat n) = 0)) else None)"
proof (cases "\<exists>n. m (a + of_nat n) = 0")
  case True
  let ?n = "LEAST n. m (a + of_nat n) = 0"
  have "m (a + of_nat ?n) = 0" using True by (rule LeastI_ex)
  moreover have "byte_scan m a = byte_scan m (a + of_nat ?n)" by (rule byte_scan_skip) (auto dest: not_less_Least)
  ultimately have "byte_scan m a = Some (a + of_nat ?n)" by (simp add: byte_scan.simps)
  then show ?thesis using True by (simp add: strlen_byte_loop)
next
  case False
  then have "byte_scan m a = None" using byte_scan_Some by fastforce
  then show ?thesis unfolding strlen_byte_loop using False by simp
qed

end
