(* ===== verification/Musl_Copy.thy ===== *)
theory Musl_Copy
  imports Musl_Strings
begin

text \<open>
  Copying and comparing strings: \<^verbatim>\<open>strcpy.c\<close>, \<^verbatim>\<open>strncpy.c\<close> and \<^verbatim>\<open>strcmp.c\<close> of \<^verbatim>\<open>src/src/undo/my_libc/musl/\<close>. The pointers
  are \<^verbatim>\<open>restrict\<close>: the theorems assume that source and destination do not overlap.
\<close>

section \<open>Strings in memory\<close>

definition str_at :: "mem \<Rightarrow> addr \<Rightarrow> byte list \<Rightarrow> bool" where
  "str_at m s bs \<longleftrightarrow> rd m s (length bs) = bs \<and> 0 \<notin> set bs \<and> m (s + of_nat (length bs)) = 0"

definition apart :: "addr \<Rightarrow> addr \<Rightarrow> nat \<Rightarrow> bool" where
  "apart d s n \<longleftrightarrow> n < 2 ^ 64 \<and> (\<forall>i < n. \<forall>j < n. d + of_nat i \<noteq> s + of_nat j)"

lemma str_at_Cons: "str_at m s (b # bs) \<longleftrightarrow> m s = b \<and> b \<noteq> 0 \<and> str_at m (s + 1) bs"
proof -
  have "rd m s (Suc (length bs)) = m s # rd m (s + 1) (length bs)" using rd_append [of m s 1 "length bs"] by (simp add: rd_def)
  then show ?thesis by (auto simp: str_at_def add.assoc)
qed

lemma strlen_string:
  assumes "str_at m s bs"
  shows "strlen m s = Some (of_nat (length bs))"
proof -
  have "\<forall>i < length bs. m (s + of_nat i) \<noteq> 0"
    using assms nth_rd [of _ "length bs" m s] unfolding str_at_def by (metis nth_mem)
  then have "byte_scan m s = byte_scan m (s + of_nat (length bs))" by (rule byte_scan_skip)
  also have "\<dots> = Some (s + of_nat (length bs))" using assms by (subst byte_scan.simps) (simp add: str_at_def)
  finally show ?thesis by (simp add: strlen_byte_loop)
qed

lemma wr_append:
  assumes "length xs + length ys < 2 ^ 64"
  shows "wr a (xs @ ys) m = wr (a + of_nat (length xs)) ys (wr a xs m)"
proof
  fix x
  have "unat (x - a) < length xs + length ys \<longleftrightarrow>
      unat (x - a) < length xs \<or> unat (x - (a + of_nat (length xs))) < length ys"
    using assms by (intro window_split) simp
  moreover have "unat (x - (a + of_nat (length xs))) = unat (x - a) - length xs" if "length xs \<le> unat (x - a)"
    using that assms by (simp add: unat_window_shift)
  moreover have "length ys \<le> unat (x - (a + of_nat (length xs)))" if "unat (x - a) < length xs"
    using that assms by (simp add: unat_window_shift)
  ultimately show "wr a (xs @ ys) m x = wr (a + of_nat (length xs)) ys (wr a xs m) x"
    by (auto simp: wr_def nth_append)
qed

text \<open>What a copy leaves of the source.\<close>

lemma apart_source:
  assumes "apart d s n" and "length bs \<le> n" and "j < n"
  shows "wr d bs m (s + of_nat j) = m (s + of_nat j)"
proof (rule wr_out, rule ccontr)
  assume "\<not> length bs \<le> unat (s + of_nat j - d)"
  then have "unat (s + of_nat j - d) < n" using assms(2) by simp
  then have "d + of_nat (unat (s + of_nat j - d)) \<noteq> s + of_nat j" using assms(1,3) unfolding apart_def by blast
  then show False by simp
qed

lemma apart_shift: "apart d s n \<Longrightarrow> k \<le> n \<Longrightarrow> apart (d + of_nat k) (s + of_nat k) (n - k)"
  unfolding apart_def by (metis (no_types, lifting) add.assoc diff_le_self le_less_trans less_diff_conv add.commute of_nat_add)

lemma apart_rest: "apart d s (Suc n) \<Longrightarrow> k \<le> n \<Longrightarrow> apart (d + of_nat k) (s + of_nat k) (Suc (n - k))"
  using apart_shift [of d s "Suc n" k] by (simp add: Suc_diff_le)

text \<open>After \<open>k\<close> bytes.\<close>

definition copied :: "mem \<Rightarrow> addr \<Rightarrow> addr \<Rightarrow> byte list \<Rightarrow> nat \<Rightarrow> mem \<Rightarrow> addr \<Rightarrow> addr \<Rightarrow> bool" where
  "copied m d s bs k m' d' s' \<longleftrightarrow> k \<le> length bs \<and> m' = wr d (take k bs) m \<and> d' = d + of_nat k \<and> s' = s + of_nat k"

lemma copied_trans:
  assumes "copied m d s bs k m' d' s'" and "copied m' d' s' (drop k bs) j m'' d'' s''" and "length bs < 2 ^ 64"
  shows "copied m d s bs (k + j) m'' d'' s''"
proof -
  have "take (k + j) bs = take k bs @ take j (drop k bs)" by (rule take_add)
  then show ?thesis using assms wr_append [of "take k bs" "take j (drop k bs)" d m]
    by (auto simp: copied_def min_def add.assoc)
qed

lemma copied_string:
  assumes "copied m d s bs k m' d' s'" and "str_at m s bs" and "apart d s (Suc (length bs))"
  shows "str_at m' s' (drop k bs)"
proof -
  have "m' (s + of_nat j) = m (s + of_nat j)" if "j \<le> length bs" for j
    using assms(1,3) that apart_source [of d s "Suc (length bs)" "take k bs" j m] by (simp add: copied_def)
  then have "str_at m' s bs" using assms(2) rd_cong [of "length bs" m' s m] by (simp add: str_at_def)
  then have "rd m' s (length (take k bs @ drop k bs)) = take k bs @ drop k bs" "m' (s + of_nat (length bs)) = 0" "0 \<notin> set bs"
    by (simp_all add: str_at_def)
  moreover have "length (take k bs) = k" "k \<le> length bs" using assms(1) by (auto simp: copied_def)
  ultimately show ?thesis using rd_split(2) [of m' s "take k bs" "drop k bs"] assms(1)
    by (auto simp: str_at_def copied_def add.assoc dest: in_set_dropD simp flip: of_nat_add)
qed

section \<open>strcpy\<close>

partial_function (option) stp_bytes :: "mem \<Rightarrow> addr \<Rightarrow> addr \<Rightarrow> (mem \<times> addr) option" where
  "stp_bytes m d s = (let m' = m(d := m s) in if m s = 0 then Some (m', d) else stp_bytes m' (d + 1) (s + 1))"

function stp_align :: "mem \<Rightarrow> addr \<Rightarrow> addr \<Rightarrow> (mem \<times> addr) + (mem \<times> addr \<times> addr)" where
  "stp_align m d s =
     (if unat s mod 8 = 0 then Inr (m, d, s)
      else let m' = m(d := m s) in if m s = 0 then Inl (m', d) else stp_align m' (d + 1) (s + 1))"
  by pat_completeness auto

termination
  by (relation "measure (\<lambda>(m, d, s). to_align s)") (simp_all add: to_align_step)

declare stp_align.simps [simp del]

partial_function (option) stp_words :: "mem \<Rightarrow> addr \<Rightarrow> addr \<Rightarrow> (mem \<times> addr \<times> addr) option" where
  "stp_words m wd ws =
     (if HASZERO (load_u64 m ws) \<noteq> 0 then Some (m, wd, ws)
      else stp_words (wr wd (le_bytes 8 (load_u64 m ws)) m) (wd + 8) (ws + 8))"

definition stpcpy :: "mem \<Rightarrow> addr \<Rightarrow> addr \<Rightarrow> (mem \<times> addr) option" where
  "stpcpy m d s =
     (if unat s mod 8 = unat d mod 8
      then case stp_align m d s of
             Inl r \<Rightarrow> Some r
           | Inr (m', d', s') \<Rightarrow> Option.bind (stp_words m' d' s') (\<lambda>(m'', wd, ws). stp_bytes m'' wd ws)
      else stp_bytes m d s)"

definition strcpy :: "mem \<Rightarrow> addr \<Rightarrow> addr \<Rightarrow> (mem \<times> addr) option" where
  "strcpy m dest src = map_option (\<lambda>(m', _). (m', dest)) (stpcpy m dest src)"

subsection \<open>Correctness\<close>

lemma stp_bytes_string:
  "str_at m s bs \<Longrightarrow> apart d s (Suc (length bs)) \<Longrightarrow>
   stp_bytes m d s = Some (wr d (bs @ [0]) m, d + of_nat (length bs))"
proof (induction bs arbitrary: m d s)
  case Nil
  then show ?case by (subst stp_bytes.simps) (simp add: str_at_def wr_single)
next
  case (Cons b bs)
  have c: "copied m d s (b # bs) 1 (m(d := b)) (d + 1) (s + 1)" by (simp add: copied_def wr_single)
  have "str_at (m(d := b)) (s + 1) bs" using copied_string [OF c Cons.prems] by simp
  moreover have "apart (d + 1) (s + 1) (Suc (length bs))" using apart_shift [OF Cons.prems(2), of 1] by simp
  ultimately have "stp_bytes (m(d := b)) (d + 1) (s + 1) = Some (wr (d + 1) (bs @ [0]) (m(d := b)), d + 1 + of_nat (length bs))"
    by (rule Cons.IH)
  moreover have "m s = b" "b \<noteq> 0" using Cons.prems(1) by (simp_all add: str_at_Cons)
  moreover have "wr d (b # (bs @ [0])) m = wr (d + 1) (bs @ [0]) (m(d := b))"
    using Cons.prems(2) by (subst wr_Cons) (simp_all add: apart_def wr_single)
  ultimately show ?case by (subst stp_bytes.simps) (simp add: add.assoc)
qed

lemma copied_0: "copied m d s bs 0 m d s"
  by (simp add: copied_def)

lemma stp_align_string:
  assumes "str_at m s bs" and "apart d s (Suc (length bs))"
  shows "stp_align m d s = Inl (wr d (bs @ [0]) m, d + of_nat (length bs)) \<or>
     (\<exists>k m' d' s'. stp_align m d s = Inr (m', d', s') \<and> copied m d s bs k m' d' s')"
  using assms
proof (induction bs arbitrary: m d s)
  case Nil
  then show ?case by (subst (1 2) stp_align.simps) (auto simp: str_at_def wr_single intro: exI [of _ 0] copied_0)
next
  case (Cons b bs)
  show ?case
  proof (cases "unat s mod 8 = 0")
    case True
    then show ?thesis by (subst (1 2) stp_align.simps) (auto intro: exI [of _ 0] copied_0)
  next
    case False
    have b: "m s = b" "b \<noteq> 0" using Cons.prems(1) by (simp_all add: str_at_Cons)
    define m1 where "m1 = m(d := b)"
    have r: "stp_align m d s = stp_align m1 (d + 1) (s + 1)" by (subst stp_align.simps) (simp add: False b m1_def)
    have c: "copied m d s (b # bs) 1 m1 (d + 1) (s + 1)" by (simp add: copied_def wr_single m1_def)
    have "str_at m1 (s + 1) bs" using copied_string [OF c Cons.prems] by simp
    moreover have "apart (d + 1) (s + 1) (Suc (length bs))" using apart_shift [OF Cons.prems(2), of 1] by simp
    ultimately have IH: "stp_align m1 (d + 1) (s + 1) = Inl (wr (d + 1) (bs @ [0]) m1, d + 1 + of_nat (length bs)) \<or>
        (\<exists>k m' d' s'. stp_align m1 (d + 1) (s + 1) = Inr (m', d', s') \<and> copied m1 (d + 1) (s + 1) bs k m' d' s')"
      by (rule Cons.IH)
    have w: "wr d ((b # bs) @ [0]) m = wr (d + 1) (bs @ [0]) m1"
      using Cons.prems(2) wr_Cons [of "bs @ [0]" d b m] by (simp add: apart_def wr_single m1_def)
    have "length (b # bs) < 2 ^ 64" using Cons.prems(2) by (simp add: apart_def)
    then have t: "copied m1 (d + 1) (s + 1) bs k m' d' s' \<Longrightarrow> copied m d s (b # bs) (1 + k) m' d' s'" for k m' d' s'
      using copied_trans [OF c] by simp
    have l: "d + of_nat (length (b # bs)) = d + 1 + of_nat (length bs)" by (simp add: add.assoc)
    show ?thesis unfolding r w l using IH t by blast
  qed
qed

lemma le_word_bits: "bit (le_word bs :: u64) i \<Longrightarrow> i < 8 * length bs"
proof (induction bs arbitrary: i)
  case (Cons b bs)
  then have "bit b i \<and> i < 8 \<or> 8 \<le> i \<and> bit (le_word bs :: u64) (i - 8)"
    unfolding le_word_Cons low_byte_bits [OF byte_u64_less] by (auto simp: bit_simps split: if_splits)
  then show ?case using Cons.IH [of "i - 8"] by auto
qed simp

lemma le_bytes_le_word: "length bs = n \<Longrightarrow> n \<le> 8 \<Longrightarrow> le_bytes n (le_word bs :: u64) = bs"
proof (induction bs arbitrary: n)
  case (Cons b bs)
  then obtain k where n: "n = Suc k" "length bs = k" by auto
  have "ucast (le_word (b # bs) :: u64) = b" by (intro bit_word_eqI) (auto simp: bit_simps)
  moreover have "take_bit 56 (le_word bs :: u64) = le_word bs"
    using le_word_bits [of bs] Cons.prems n by (intro bit_word_eqI) (fastforce simp: bit_simps)
  moreover have "drop_bit 8 (le_word (b # bs) :: u64) = take_bit 56 (le_word bs)"
    by (intro bit_word_eqI) (auto simp: bit_simps dest: bit_imp_le_length)
  ultimately show ?case using Cons n by simp
qed simp

lemma load_bytes: "le_bytes 8 (load_u64 m a) = rd m a 8"
  unfolding load_u64_def by (rule le_bytes_le_word) simp_all

text \<open>A word without a zero byte lies inside the string.\<close>

lemma word_in_string:
  assumes "str_at m s bs" and "HASZERO (load_u64 m s) = 0"
  shows "8 \<le> length bs" and "rd m s 8 = take 8 bs"
proof -
  show len: "8 \<le> length bs"
    using no_zero_in_word [OF assms(2), of "length bs"] assms(1) by (auto simp: str_at_def not_le [symmetric])
  have "rd m s (length (take 8 bs @ drop 8 bs)) = take 8 bs @ drop 8 bs" using assms(1) by (simp add: str_at_def)
  from rd_split(1) [OF this] len show "rd m s 8 = take 8 bs" by (simp add: min_absorb2)
qed

lemma stp_words_string:
  "str_at m s bs \<Longrightarrow> apart d s (Suc (length bs)) \<Longrightarrow>
   \<exists>k m' d' s'. stp_words m d s = Some (m', d', s') \<and> copied m d s bs k m' d' s'"
proof (induction bs arbitrary: m d s rule: length_induct)
  case (1 bs)
  show ?case
  proof (cases "HASZERO (load_u64 m s) = 0")
    case True
    note w = word_in_string [OF "1.prems"(1) True]
    have c: "copied m d s bs 8 (wr d (rd m s 8) m) (d + 8) (s + 8)" using w by (simp add: copied_def)
    have "str_at (wr d (rd m s 8) m) (s + 8) (drop 8 bs)" by (rule copied_string [OF c "1.prems"])
    moreover have "apart (d + 8) (s + 8) (Suc (length (drop 8 bs)))"
      using apart_rest [OF "1.prems"(2), of 8] w(1) by simp
    moreover have "length (drop 8 bs) < length bs" using w(1) by simp
    ultimately obtain k m' d' s' where "stp_words (wr d (rd m s 8) m) (d + 8) (s + 8) = Some (m', d', s')"
      "copied (wr d (rd m s 8) m) (d + 8) (s + 8) (drop 8 bs) k m' d' s'" using "1.IH" by metis
    moreover from this have "copied m d s bs (8 + k) m' d' s'"
      using copied_trans [OF c] "1.prems"(2) by (simp add: apart_def)
    ultimately show ?thesis using True by (subst stp_words.simps) (auto simp: load_bytes)
  next
    case False
    then show ?thesis by (subst stp_words.simps) (auto intro: exI [of _ 0] copied_0)
  qed
qed

text \<open>The rest after \<open>k\<close> bytes, with the terminating zero.\<close>

lemma copied_rest:
  assumes "copied m d s bs k m' d' s'" and "str_at m s bs" and "apart d s (Suc (length bs))"
  shows "stp_bytes m' d' s' = Some (wr d (bs @ [0]) m, d + of_nat (length bs))"
proof -
  have k: "k \<le> length bs" "d' = d + of_nat k" "s' = s + of_nat k" "m' = wr d (take k bs) m" using assms(1) by (auto simp: copied_def)
  have "apart d' s' (Suc (length (drop k bs)))" using apart_rest [OF assms(3), of k] k by simp
  from stp_bytes_string [OF copied_string [OF assms] this]
  have "stp_bytes m' d' s' = Some (wr d' (drop k bs @ [0]) m', d' + of_nat (length bs - k))" by simp
  moreover have "wr d (bs @ [0]) m = wr d' (drop k bs @ [0]) m'"
    using wr_append [of "take k bs" "drop k bs @ [0]" d m] k assms(3) by (simp add: apart_def min_absorb2 flip: append_assoc)
  moreover have "d' + of_nat (length bs - k) = d + of_nat (length bs)" using k by (simp add: add.assoc flip: of_nat_add)
  ultimately show ?thesis by simp
qed

lemma stpcpy_string:
  assumes "str_at m s bs" and "apart d s (Suc (length bs))"
  shows "stpcpy m d s = Some (wr d (bs @ [0]) m, d + of_nat (length bs))"
proof (cases "unat s mod 8 = unat d mod 8")
  case False
  then show ?thesis using stp_bytes_string [OF assms] by (simp add: stpcpy_def)
next
  case True
  from stp_align_string [OF assms] consider
      "stp_align m d s = Inl (wr d (bs @ [0]) m, d + of_nat (length bs))"
    | k m' d' s' where "stp_align m d s = Inr (m', d', s')" "copied m d s bs k m' d' s'" by blast
  then show ?thesis
  proof cases
    case 1
    then show ?thesis using True by (simp add: stpcpy_def)
  next
    case 2
    have "k \<le> length bs" using 2(2) by (simp add: copied_def)
    then have "apart d' s' (Suc (length (drop k bs)))"
      using apart_rest [OF assms(2), of k] 2(2) by (simp add: copied_def)
    then obtain j m'' d'' s'' where w: "stp_words m' d' s' = Some (m'', d'', s'')" "copied m' d' s' (drop k bs) j m'' d'' s''"
      using stp_words_string [OF copied_string [OF 2(2) assms]] by blast
    have "length bs < 2 ^ 64" using assms(2) by (simp add: apart_def)
    from copied_rest [OF copied_trans [OF 2(2) w(2) this] assms] show ?thesis
      using True 2(1) w(1) by (simp add: stpcpy_def)
  qed
qed

section \<open>strncpy\<close>

text \<open>The loops end in the state in which they leave off: memory, destination, source and count.\<close>

function ncopy_align :: "mem \<Rightarrow> addr \<Rightarrow> addr \<Rightarrow> u64 \<Rightarrow> mem \<times> addr \<times> addr \<times> u64" where
  "ncopy_align m d s n =
     (if s AND 7 = 0 \<or> n = 0 then (m, d, s, n)
      else let m' = m(d := m s) in if m s = 0 then (m', d, s, n) else ncopy_align m' (d + 1) (s + 1) (n - 1))"
  by pat_completeness auto

termination
  by (relation "measure (\<lambda>(m, d, s, n). unat n)") (simp_all add: unat_minus_one unat_gt_0)

function ncopy_words :: "mem \<Rightarrow> addr \<Rightarrow> addr \<Rightarrow> u64 \<Rightarrow> mem \<times> addr \<times> addr \<times> u64" where
  "ncopy_words m wd ws n =
     (if 8 \<le> n \<and> HASZERO (load_u64 m ws) = 0
      then ncopy_words (wr wd (le_bytes 8 (load_u64 m ws)) m) (wd + 8) (ws + 8) (n - 8)
      else (m, wd, ws, n))"
  by pat_completeness auto

termination
  by (relation "measure (\<lambda>(m, wd, ws, n). unat n)") (simp_all add: unat_sub_le word_le_nat_alt)

function ncopy_bytes :: "mem \<Rightarrow> addr \<Rightarrow> addr \<Rightarrow> u64 \<Rightarrow> mem \<times> addr \<times> addr \<times> u64" where
  "ncopy_bytes m d s n =
     (if n = 0 then (m, d, s, n)
      else let m' = m(d := m s) in if m s = 0 then (m', d, s, n) else ncopy_bytes m' (d + 1) (s + 1) (n - 1))"
  by pat_completeness auto

termination
  by (relation "measure (\<lambda>(m, d, s, n). unat n)") (simp_all add: unat_minus_one unat_gt_0)

declare ncopy_align.simps [simp del] ncopy_words.simps [simp del] ncopy_bytes.simps [simp del]

text \<open>\<open>memset\<close> at the label \<^verbatim>\<open>tail\<close> fills what is left of the count.\<close>

definition stpncpy :: "mem \<Rightarrow> addr \<Rightarrow> addr \<Rightarrow> u64 \<Rightarrow> mem \<times> addr" where
  "stpncpy m d s n =
     (let (m', d', s', n') =
        (if s AND 7 = d AND 7
         then let (m1, d1, s1, n1) = ncopy_align m d s n in
              if n1 = 0 \<or> m1 s1 = 0 then (m1, d1, s1, n1)
              else let (m2, d2, s2, n2) = ncopy_words m1 d1 s1 n1 in ncopy_bytes m2 d2 s2 n2
         else ncopy_bytes m d s n)
      in (wr d' (replicate (unat n') 0) m', d'))"

definition strncpy :: "mem \<Rightarrow> addr \<Rightarrow> addr \<Rightarrow> u64 \<Rightarrow> mem \<times> addr" where
  "strncpy m d s n = (let (m', _) = stpncpy m d s n in (m', d))"

subsection \<open>Correctness\<close>

fun fill :: "byte list \<Rightarrow> byte list" where
  "fill [] = []"
| "fill (b # bs) = (if b = 0 then replicate (Suc (length bs)) 0 else b # fill bs)"

lemma length_fill [simp]: "length (fill bs) = length bs"
  by (induction bs) auto

text \<open>The memory that is to come out, from any state of the loops.\<close>

definition outcome :: "mem \<times> addr \<times> addr \<times> u64 \<Rightarrow> mem" where
  "outcome x = (case x of (m, d, s, n) \<Rightarrow> wr d (fill (rd m s (unat n))) m)"

lemma rd_Suc: "rd m s (Suc n) = m s # rd m (s + 1) n"
  using rd_append [of m s 1 n] by (simp add: rd_def)

lemma apart_rd:
  assumes "apart d s n" and "length bs \<le> n" and "j + k \<le> n"
  shows "rd (wr d bs m) (s + of_nat j) k = rd m (s + of_nat j) k"
  using apart_source [OF assms(1,2)] assms(3) by (intro rd_cong) (simp add: add.assoc flip: of_nat_add)

lemma outcome_step:
  assumes "apart d s (unat n)" and "n \<noteq> 0" and "m s \<noteq> 0"
  shows "outcome (m(d := m s), d + 1, s + 1, n - 1) = outcome (m, d, s, n)"
proof -
  obtain k where k: "unat n = Suc k" using assms(2) by (metis not0_implies_Suc unat_eq_zero)
  then have n1: "unat (n - 1) = k" using assms(2) by (simp add: unat_minus_one)
  have "rd (m(d := m s)) (s + 1) k = rd m (s + 1) k" using apart_rd [OF assms(1), of "[m s]" 1 k m] k by (simp add: wr_single)
  moreover have "wr d (m s # fill (rd m (s + 1) k)) m = wr (d + 1) (fill (rd m (s + 1) k)) (m(d := m s))"
    using k unat_u64_less [of n] by (subst wr_Cons) (simp_all add: wr_single)
  ultimately show ?thesis using assms(3) by (simp add: outcome_def k n1 rd_Suc)
qed

lemma apart_step: "apart d s (unat n) \<Longrightarrow> n \<noteq> 0 \<Longrightarrow> apart (d + 1) (s + 1) (unat (n - 1))"
  using apart_shift [of d s "unat n" 1] by (simp add: unat_minus_one unat_gt_0 Suc_le_eq)

lemma outcome_end: "n = 0 \<or> m s = 0 \<Longrightarrow> outcome (m, d, s, n) = wr d (replicate (unat n) 0) m"
  by (cases "unat n") (auto simp: outcome_def rd_Suc simp del: replicate_Suc)

lemma outcome_zero:
  assumes "apart d s (unat n)" and "n \<noteq> 0" and "m s = 0"
  shows "outcome (m(d := m s), d, s, n) = outcome (m, d, s, n)" and "(m(d := m s)) s = 0"
proof -
  show z: "(m(d := m s)) s = 0" using assms(3) by simp
  have "wr d (replicate (unat n) 0) (m(d := 0)) = wr d (replicate (unat n) 0) m"
    using assms(2) by (auto simp: wr_def unat_gt_0)
  then show "outcome (m(d := m s), d, s, n) = outcome (m, d, s, n)"
    using z assms(3) by (simp add: outcome_end)
qed

lemma outcome_steps:
  assumes "apart d s (unat n)" and "k \<le> unat n" and "\<And>i. i < k \<Longrightarrow> m (s + of_nat i) \<noteq> 0"
  shows "outcome (wr d (rd m s k) m, d + of_nat k, s + of_nat k, n - of_nat k) = outcome (m, d, s, n)"
  using assms
proof (induction k arbitrary: m d s n)
  case (Suc k)
  define m1 where "m1 = m(d := m s)"
  have n: "n \<noteq> 0" using Suc.prems(2) by auto
  have s: "m s \<noteq> 0" using Suc.prems(3) [of 0] by simp
  have src: "m1 (s + of_nat j) = m (s + of_nat j)" if "j < unat n" for j
    using apart_source [OF Suc.prems(1), of "[m s]" j m] Suc.prems(2) that by (simp add: m1_def wr_single)
  have "m1 (s + 1 + of_nat i) \<noteq> 0" if "i < k" for i
    using src [of "Suc i"] Suc.prems(2) Suc.prems(3) [of "Suc i"] that by (simp add: add.assoc)
  moreover have "k \<le> unat (n - 1)" using Suc.prems(2) n by (simp add: unat_minus_one)
  ultimately have "outcome (wr (d + 1) (rd m1 (s + 1) k) m1, d + 1 + of_nat k, s + 1 + of_nat k, n - 1 - of_nat k)
      = outcome (m1, d + 1, s + 1, n - 1)"
    using apart_step [OF Suc.prems(1) n] by (intro Suc.IH)
  moreover have "rd m1 (s + 1) k = rd m (s + 1) k"
    using src [of "Suc i" for i] Suc.prems(2) by (intro rd_cong) (simp add: add.assoc)
  moreover have "wr d (m s # rd m (s + 1) k) m = wr (d + 1) (rd m (s + 1) k) m1"
    using Suc.prems(2) unat_u64_less [of n] by (subst wr_Cons) (simp_all add: wr_single m1_def)
  ultimately show ?case
    using outcome_step [of d s n m] Suc.prems(1) n s by (simp add: rd_Suc m1_def add.assoc diff_diff_eq)
qed simp

text \<open>A loop keeps what is to come out and the distance of the pointers.\<close>

definition keeps :: "mem \<times> addr \<times> addr \<times> u64 \<Rightarrow> mem \<times> addr \<times> addr \<times> u64 \<Rightarrow> bool" where
  "keeps x y \<longleftrightarrow> outcome y = outcome x \<and> (case y of (m, d, s, n) \<Rightarrow> apart d s (unat n))"

lemma ncopy_align_keeps: "apart d s (unat n) \<Longrightarrow> keeps (m, d, s, n) (ncopy_align m d s n)"
proof (induction m d s n rule: ncopy_align.induct)
  case (1 m d s n)
  show ?case
  proof (cases "s AND 7 = 0 \<or> n = 0 \<or> m s = 0")
    case True
    then show ?thesis using "1.prems" outcome_zero(1) [OF "1.prems"]
      by (subst ncopy_align.simps) (auto simp: keeps_def)
  next
    case False
    then have c: "\<not> (s AND 7 = 0 \<or> n = 0)" "m s \<noteq> 0" "n \<noteq> 0" "s AND 7 \<noteq> 0" by auto
    have "ncopy_align m d s n = ncopy_align (m(d := m s)) (d + 1) (s + 1) (n - 1)"
      by (subst ncopy_align.simps) (simp add: c)
    then show ?thesis using "1.IH" [OF c(1) refl c(2) apart_step [OF "1.prems" c(3)]] outcome_step [of d s n m] "1.prems" c
      by (simp add: keeps_def del: fun_upd_apply)
  qed
qed

lemma ncopy_bytes_keeps:
  "apart d s (unat n) \<Longrightarrow> keeps (m, d, s, n) (ncopy_bytes m d s n) \<and>
     (case ncopy_bytes m d s n of (m', d', s', n') \<Rightarrow> n' = 0 \<or> m' s' = 0)"
proof (induction m d s n rule: ncopy_bytes.induct)
  case (1 m d s n)
  show ?case
  proof (cases "n = 0 \<or> m s = 0")
    case True
    then show ?thesis using "1.prems" outcome_zero [OF "1.prems"]
      by (subst (1 2) ncopy_bytes.simps) (auto simp: keeps_def)
  next
    case False
    then have c: "n \<noteq> 0" "m s \<noteq> 0" by auto
    have "ncopy_bytes m d s n = ncopy_bytes (m(d := m s)) (d + 1) (s + 1) (n - 1)"
      by (subst ncopy_bytes.simps) (simp add: c)
    then show ?thesis using "1.IH" [OF c(1) refl c(2) apart_step [OF "1.prems" c(1)]] outcome_step [of d s n m] "1.prems" c
      by (simp add: keeps_def del: fun_upd_apply)
  qed
qed

lemma ncopy_words_keeps: "apart d s (unat n) \<Longrightarrow> keeps (m, d, s, n) (ncopy_words m d s n)"
proof (induction m d s n rule: ncopy_words.induct)
  case (1 m d s n)
  show ?case
  proof (cases "8 \<le> n \<and> HASZERO (load_u64 m s) = 0")
    case True
    then have n: "8 \<le> unat n" "unat (n - 8) = unat n - 8" by (simp_all add: word_le_nat_alt unat_sub_le)
    have "apart (d + 8) (s + 8) (unat (n - 8))" using apart_shift [OF "1.prems" n(1)] n(2) by simp
    with "1.IH" [OF True] have "keeps (wr d (rd m s 8) m, d + 8, s + 8, n - 8)
        (ncopy_words (wr d (rd m s 8) m) (d + 8) (s + 8) (n - 8))" by (simp only: load_bytes)
    moreover have "outcome (wr d (rd m s 8) m, d + 8, s + 8, n - 8) = outcome (m, d, s, n)"
      using outcome_steps [OF "1.prems" n(1), of m] no_zero_in_word True by simp
    ultimately show ?thesis using True by (subst ncopy_words.simps) (simp add: keeps_def load_bytes del: le_bytes.simps)
  next
    case False
    then have "ncopy_words m d s n = (m, d, s, n)" by (subst ncopy_words.simps) (rule if_not_P)
    then show ?thesis using "1.prems" by (simp add: keeps_def)
  qed
qed

lemma stpncpy_outcome:
  assumes ap: "apart d s (unat n)"
  shows "fst (stpncpy m d s n) = outcome (m, d, s, n)"
proof -
  obtain m1 d1 s1 n1 where a: "ncopy_align m d s n = (m1, d1, s1, n1)" by (metis prod_cases4)
  have ka: "outcome (m1, d1, s1, n1) = outcome (m, d, s, n)" "apart d1 s1 (unat n1)"
    using ncopy_align_keeps [OF ap, of m] by (auto simp: keeps_def a)
  obtain m2 d2 s2 n2 where w: "ncopy_words m1 d1 s1 n1 = (m2, d2, s2, n2)" by (metis prod_cases4)
  have kw: "outcome (m2, d2, s2, n2) = outcome (m, d, s, n)" "apart d2 s2 (unat n2)"
    using ncopy_words_keeps [OF ka(2), of m1] ka(1) by (auto simp: keeps_def w)
  have b: "(case ncopy_bytes m0 d0 s0 n0 of (m', d', s', n') \<Rightarrow> wr d' (replicate (unat n') 0) m') = outcome (m0, d0, s0, n0)"
    if "apart d0 s0 (unat n0)" for m0 d0 s0 n0
    using ncopy_bytes_keeps [OF that, of m0] by (auto simp: keeps_def outcome_end split: prod.splits)
  show ?thesis
    using b [OF kw(2), of m2] b [OF ap, of m] ka(1) kw(1) outcome_end [of n1 m1 s1 d1]
    by (auto simp: stpncpy_def a w split: prod.splits)
qed

section \<open>strcmp\<close>

partial_function (option) strcmp :: "mem \<Rightarrow> addr \<Rightarrow> addr \<Rightarrow> int option" where
  "strcmp m l r =
     (if m l = m r \<and> m l \<noteq> 0 then strcmp m (l + 1) (r + 1)
      else Some (uint (m l) - uint (m r)))"

lemma byte_pos: "b \<noteq> 0 \<Longrightarrow> 0 < uint (b :: byte)" and byte_zero: "uint (b :: byte) = 0 \<longleftrightarrow> b = 0"
  using uint_0_iff [of b] uint_ge_0 [of b] by (simp_all add: order_less_le del: uint_ge_0)

lemma strcmp_strings:
  "str_at m l xs \<Longrightarrow> str_at m r ys \<Longrightarrow>
   \<exists>v. strcmp m l r = Some v \<and> (v = 0 \<longleftrightarrow> xs = ys) \<and> (v < 0 \<longleftrightarrow> (xs, ys) \<in> lexord {(a, b). a < b})"
proof (induction xs arbitrary: ys l r)
  case Nil
  then show ?case
    by (cases ys) (subst strcmp.simps, auto simp: str_at_def [of m l] str_at_def [of m r "[]"] str_at_Cons byte_pos byte_zero)+
next
  case (Cons x xs)
  have x: "m l = x" "x \<noteq> 0" "str_at m (l + 1) xs" using Cons.prems(1) by (simp_all add: str_at_Cons)
  show ?case
  proof (cases ys)
    case Nil
    then show ?thesis using x Cons.prems(2) by (subst strcmp.simps) (use byte_pos [of x] in \<open>simp add: str_at_def [of m r]\<close>)
  next
    case (Cons y ys')
    then have y: "m r = y" "y \<noteq> 0" "str_at m (r + 1) ys'" using Cons.prems(2) by (simp_all add: str_at_Cons)
    show ?thesis
    proof (cases "x = y")
      case True
      then have "strcmp m l r = strcmp m (l + 1) (r + 1)" using x y by (subst strcmp.simps) simp
      then show ?thesis using Cons.IH [OF x(3) y(3)] True Cons by simp
    next
      case False
      then have "strcmp m l r = Some (uint x - uint y)" using x y by (subst strcmp.simps) simp
      then show ?thesis using False Cons by (auto simp: word_less_def word_uint_eq_iff)
    qed
  qed
qed

section \<open>The contracts\<close>

text \<open>
  C37. \<open>strcpy\<close> returns for every string, whatever the alignment of the two pointers, and copies exactly the string
  and its terminating zero; the rest of the memory is as it was.
\<close>

theorem strcpy_correct:
  assumes "str_at m src bs" and "apart dest src (Suc (length bs))"
  shows "strcpy m dest src = Some (wr dest (bs @ [0]) m, dest)"
  using stpcpy_string [OF assms] by (simp add: strcpy_def)

abbreviation demo_string :: mem where
  "demo_string \<equiv> wr 0x1003 [65, 66, 67, 68, 69, 70, 71, 72, 73, 74, 75, 76, 77, 78, 0, 99] (\<lambda>_. 255)"

lemma demo_string_at: "str_at demo_string 0x1003 [65, 66, 67, 68, 69, 70, 71, 72, 73, 74, 75, 76, 77, 78]"
  by (simp add: str_at_def rd_def wr_def upt_rec)

lemma apart_far:
  assumes "unat s + n \<le> unat d" and "unat d + n \<le> 2 ^ 64" and "n < 2 ^ 64"
  shows "apart d s n"
  unfolding apart_def
proof (intro conjI allI impI)
  fix i j
  assume "i < n" "j < n"
  then have "unat (d + of_nat i) = unat d + i" "unat (s + of_nat j) = unat s + j"
    using assms by (simp_all add: unat_add_of_nat)
  then show "d + of_nat i \<noteq> s + of_nat j" using assms(1) \<open>j < n\<close> by (metis add_lessD1 leD nat_add_left_cancel_less order_le_less_trans)
qed (use assms in simp)

theorem strcpy_correct_witness:
  "strcpy demo_string 0x200B 0x1003 =
     Some (wr 0x200B [65, 66, 67, 68, 69, 70, 71, 72, 73, 74, 75, 76, 77, 78, 0] demo_string, 0x200B)"
  using strcpy_correct [OF demo_string_at apart_far, of "0x200B"] by simp

text \<open>
  C38. \<open>strncpy\<close> writes exactly \<open>n\<close> bytes: those of the source up to its first zero byte, and zeros behind
  them; the source need not be terminated. It returns the destination.
\<close>

theorem strncpy_correct:
  assumes "apart d s (unat n)"
  shows "strncpy m d s n = (wr d (fill (rd m s (unat n))) m, d)"
  using stpncpy_outcome [OF assms, of m] by (auto simp: strncpy_def outcome_def split: prod.splits)

theorem strncpy_correct_witness:
  "strncpy demo_string 0x2010 0x1003 16 =
     (wr 0x2010 [65, 66, 67, 68, 69, 70, 71, 72, 73, 74, 75, 76, 77, 78, 0, 0] demo_string, 0x2010)"
  using strncpy_correct [OF apart_far, of "0x1003" 16 "0x2010" demo_string] by (simp add: rd_def wr_def upt_rec)

text \<open>
  C39. \<open>strcmp\<close> of two strings returns; the result is zero exactly for equal strings and negative exactly when the
  first is smaller in the lexicographic order of unsigned bytes.
\<close>

theorem strcmp_correct:
  assumes "str_at m l xs" and "str_at m r ys"
  shows "\<exists>v. strcmp m l r = Some v \<and> (v = 0 \<longleftrightarrow> xs = ys) \<and> (v < 0 \<longleftrightarrow> (xs, ys) \<in> lexord {(a, b). a < b})"
  using assms by (rule strcmp_strings)

theorem strcmp_correct_witness: "\<exists>v. strcmp (wr 0x1000 [65, 200, 0, 65, 66, 67, 0] (\<lambda>_. 255)) 0x1000 0x1003 = Some v \<and> 0 < v"
proof -
  let ?m = "wr 0x1000 [65, 200, 0, 65, 66, 67, 0] (\<lambda>_. 255) :: mem"
  have "str_at ?m 0x1000 [65, 200]" "str_at ?m 0x1003 [65, 66, 67]" by (simp_all add: str_at_def rd_def wr_def upt_rec)
  from strcmp_correct [OF this] show ?thesis by (fastforce simp: not_less order.order_iff_strict)
qed

end
