(* ===== verification/Dir_Iter.thy ===== *)
theory Dir_Iter
  imports My_Libc
begin

text \<open>
  \<^verbatim>\<open>src/src/undo/mem_region/dir_iter.h\<close>: \<open>iterate_dir\<close> calls a function on every entry of a directory. The function
  is a parameter of the template. Entries are read from the buffer that \<^verbatim>\<open>getdents\<close> fills; a read behind the end
  of the buffer is undefined. What the code relies on of \<^verbatim>\<open>getdents\<close> is the hypothesis \<open>lists_dir\<close>.
\<close>

section \<open>Directory entries in the buffer\<close>

type_synonym name = "byte list"

text \<open>\<^verbatim>\<open>struct linux_dirent\<close>: \<open>d_reclen\<close> is at offset 16, \<open>d_name\<close> at offset 18, up to a zero byte.\<close>

definition d_reclen :: "byte list \<Rightarrow> nat \<Rightarrow> nat option" where
  "d_reclen buf p = (if p + 18 \<le> length buf then Some (unat (buf ! (p + 16)) + 256 * unat (buf ! (p + 17))) else None)"

definition d_name :: "byte list \<Rightarrow> nat \<Rightarrow> name option" where
  "d_name buf p =
     (let s = takeWhile (\<lambda>b. b \<noteq> 0) (drop (p + 18) buf)
      in if p + 18 + length s < length buf then Some s else None)"

section \<open>The loops\<close>

text \<open>The loop over one buffer: \<open>Some ret\<close> where it leaves the function with the result of \<open>f\<close>.\<close>

partial_function (option) dents_loop ::
  "(int \<Rightarrow> name \<Rightarrow> 'w \<Rightarrow> int \<times> 'w) \<Rightarrow> int \<Rightarrow> byte list \<Rightarrow> nat \<Rightarrow> nat \<Rightarrow> 'w \<Rightarrow> (int option \<times> 'w) result option" where
  "dents_loop f dirfd buf nread bpos w =
     (if bpos < nread
      then case (d_name buf bpos, d_reclen buf bpos) of
             (Some s, Some n) \<Rightarrow>
               (case f dirfd s w of (ret, w') \<Rightarrow>
                  if ret \<noteq> 0 then Some (Inr (Some ret, w')) else dents_loop f dirfd buf nread (bpos + n) w')
           | _ \<Rightarrow> Some (Inl (Undefined ''buf''))
      else Some (Inr (None, w)))"

partial_function (option) dir_loop ::
  "'w kernel \<Rightarrow> (int \<Rightarrow> name \<Rightarrow> 'w \<Rightarrow> int \<times> 'w) \<Rightarrow> int \<Rightarrow> byte list \<Rightarrow> 'w \<Rightarrow> (int \<times> 'w) result option" where
  "dir_loop k f dirfd buf w =
     (case my_getdents k dirfd (Out 1024) 1024 w of ((nread, bs), w1) \<Rightarrow>
        let buf' = bs @ drop (length bs) buf in
        if nread < 0 then Some (Inr (- nread, snd (my_close k dirfd w1)))
        else if nread = 0 then Some (Inr (0, snd (my_close k dirfd w1)))
        else case dents_loop f dirfd buf' (nat nread) 0 w1 of
               None \<Rightarrow> None
             | Some (Inl e) \<Rightarrow> Some (Inl e)
             | Some (Inr (Some ret, w2)) \<Rightarrow> Some (Inr (ret, snd (my_close k dirfd w2)))
             | Some (Inr (None, w2)) \<Rightarrow> dir_loop k f dirfd buf' w2)"

text \<open>\<open>buf\<close> is what the 1024 bytes on the stack hold before the first call.\<close>

definition iterate_dir ::
  "'w kernel \<Rightarrow> (int \<Rightarrow> name \<Rightarrow> 'w \<Rightarrow> int \<times> 'w) \<Rightarrow> string \<Rightarrow> byte list \<Rightarrow> 'w \<Rightarrow> (int \<times> 'w) result option" where
  "iterate_dir k f path buf w =
     (case my_open k path O_DIRECTORY 0 w of (dirfd, w1) \<Rightarrow>
        if dirfd < 0 then Some (Inr (- dirfd, w1)) else dir_loop k f dirfd buf w1)"

section \<open>What getdents does\<close>

text \<open>The bytes of one entry, and of several.\<close>

definition dirent :: "name \<Rightarrow> byte list \<Rightarrow> bool" where
  "dirent s r \<longleftrightarrow> 0 \<notin> set s \<and> 18 + length s < length r \<and> d_reclen r 0 = Some (length r) \<and> take (Suc (length s)) (drop 18 r) = s @ [0]"

text \<open>
  \<open>dents w\<close> are the names that the descriptor still has to deliver. A call fails and changes nothing, or fills the buffer with
  the entries of the next names, at least one unless none is left. \<open>f\<close> works on other
  descriptors; \<open>calls w\<close> records the names it was called with, and the other calls do not change this record.
\<close>

definition lists_dir :: "'w kernel \<Rightarrow> int \<Rightarrow> ('w \<Rightarrow> name list) \<Rightarrow> ('w \<Rightarrow> name list) \<Rightarrow> bool" where
  "lists_dir k dirfd dents calls \<longleftrightarrow> (\<forall>w r bs w'. my_getdents k dirfd (Out 1024) 1024 w = ((r, bs), w') \<longrightarrow>
     calls w' = calls w \<and>
     (r < 0 \<and> dents w' = dents w \<or>
      (\<exists>ss rs. dents w = ss @ dents w' \<and> list_all2 dirent ss rs \<and> bs = concat rs \<and> r = int (length bs) \<and> length bs \<le> 1024 \<and>
        (ss = [] \<longrightarrow> dents w = []))))"

definition records_calls :: "(int \<Rightarrow> name \<Rightarrow> 'w \<Rightarrow> int \<times> 'w) \<Rightarrow> int \<Rightarrow> ('w \<Rightarrow> name list) \<Rightarrow> ('w \<Rightarrow> name list) \<Rightarrow> bool" where
  "records_calls f dirfd dents calls \<longleftrightarrow>
     (\<forall>s w. dents (snd (f dirfd s w)) = dents w \<and> calls (snd (f dirfd s w)) = calls w @ [s])"

section \<open>Correctness\<close>

lemma dirent_read:
  assumes "dirent s r" and "buf = pre @ r @ rest" and "p = length pre"
  shows "d_name buf p = Some s" and "d_reclen buf p = Some (length r)"
proof -
  have l: "18 + length s < length r" and t: "take (Suc (length s)) (drop 18 r) = s @ [0]" and nz: "0 \<notin> set s"
    and n: "d_reclen r 0 = Some (length r)" using assms(1) by (auto simp: dirent_def)
  have "drop (p + 18) buf = s @ 0 # drop (Suc (length s)) (drop 18 r) @ rest"
    using append_take_drop_id [of "Suc (length s)" "drop 18 r"] l unfolding t by (simp add: assms(2,3))
  moreover have "takeWhile (\<lambda>b. b \<noteq> 0) (s @ 0 # ys) = s" for ys using nz by (subst takeWhile_append2) auto
  ultimately show "d_name buf p = Some s" using l by (simp add: d_name_def assms(2,3))
  show "d_reclen buf p = Some (length r)"
    using n l by (simp add: d_reclen_def assms(2,3) nth_append split: if_splits)
qed

lemma dents_loop_correct:
  assumes f: "records_calls f dirfd dents calls" and "list_all2 dirent ss rs"
    and "buf = pre @ concat rs @ rest" and "nread = length (pre @ concat rs)"
  shows "\<exists>r w' vs vs'. dents_loop f dirfd buf nread (length pre) w = Some (Inr (r, w')) \<and> ss = vs @ vs' \<and>
     calls w' = calls w @ vs \<and> dents w' = dents w \<and> (r = None \<longrightarrow> vs' = []) \<and> (\<forall>ret. r = Some ret \<longrightarrow> ret \<noteq> 0)"
  using assms(2-4)
proof (induction arbitrary: pre w rule: list_all2_induct)
  case Nil
  then show ?case by (subst dents_loop.simps) simp
next
  case (Cons s ss r rs)
  let ?bp = "length pre"
  have b: "buf = pre @ r @ (concat rs @ rest)" using Cons.prems(1) by simp
  note d = dirent_read [OF Cons.hyps(1) b refl]
  have lt: "?bp < nread" using Cons.hyps(1) Cons.prems(2) by (auto simp: dirent_def)
  obtain ret w1 where fw: "f dirfd s w = (ret, w1)" by (cases "f dirfd s w")
  have w1: "dents w1 = dents w" "calls w1 = calls w @ [s]" using f fw by (auto simp: records_calls_def dest: spec2 [of _ s w])
  show ?case
  proof (cases "ret = 0")
    case False
    then have "dents_loop f dirfd buf nread ?bp w = Some (Inr (Some ret, w1))" by (subst dents_loop.simps) (simp add: lt d fw)
    then show ?thesis using w1 False by (intro exI [of _ "Some ret"] exI [of _ w1] exI [of _ "[s]"] exI [of _ ss]) simp
  next
    case True
    then have step: "dents_loop f dirfd buf nread ?bp w = dents_loop f dirfd buf nread (length (pre @ r)) w1"
      by (subst dents_loop.simps) (simp add: lt d fw)
    obtain r' w' vs vs' where "dents_loop f dirfd buf nread (length (pre @ r)) w1 = Some (Inr (r', w'))" "ss = vs @ vs'"
      "calls w' = calls w1 @ vs" "dents w' = dents w1" "r' = None \<longrightarrow> vs' = []" "\<forall>ret. r' = Some ret \<longrightarrow> ret \<noteq> 0"
      using Cons.IH [of "pre @ r" w1] Cons.prems by auto
    then show ?thesis unfolding step using w1 by (intro exI [of _ r'] exI [of _ w'] exI [of _ "s # vs"] exI [of _ vs']) simp
  qed
qed

lemma dir_loop_correct:
  assumes k: "lists_dir k dirfd dents calls" and f: "records_calls f dirfd dents calls"
  shows "\<exists>ret w' vs vs'. dir_loop k f dirfd buf w = Some (Inr (ret, snd (my_close k dirfd w'))) \<and>
     dents w = vs @ vs' \<and> calls w' = calls w @ vs \<and> (ret = 0 \<longrightarrow> vs' = [])"
proof (induction "length (dents w)" arbitrary: w buf rule: less_induct)
  case less
  obtain nread bs w1 where g: "my_getdents k dirfd (Out 1024) 1024 w = ((nread, bs), w1)" by (metis prod.exhaust)
  have c1: "calls w1 = calls w" and "nread < 0 \<and> dents w1 = dents w \<or>
      (\<exists>ss rs. dents w = ss @ dents w1 \<and> list_all2 dirent ss rs \<and> bs = concat rs \<and> nread = int (length bs) \<and> length bs \<le> 1024 \<and>
        (ss = [] \<longrightarrow> dents w = []))"
    using k g unfolding lists_dir_def by blast+
  then consider "nread < 0"
    | ss rs where "dents w = ss @ dents w1" "list_all2 dirent ss rs" "bs = concat rs" "nread = int (length bs)" "ss = [] \<longrightarrow> dents w = []"
    by blast
  then show ?case
  proof cases
    case 1
    then have "dir_loop k f dirfd buf w = Some (Inr (- nread, snd (my_close k dirfd w1)))" by (subst dir_loop.simps) (simp add: g)
    then show ?thesis using 1 c1 by (intro exI [of _ "- nread"] exI [of _ w1] exI [of _ "[]"] exI [of _ "dents w"]) simp
  next
    case 2
    show ?thesis
    proof (cases "ss = []")
      case True
      then have "dir_loop k f dirfd buf w = Some (Inr (0, snd (my_close k dirfd w1)))" using 2 by (subst dir_loop.simps) (simp add: g)
      then show ?thesis using True 2(5) c1 by (intro exI [of _ 0] exI [of _ w1] exI [of _ "[]"]) simp
    next
      case False
      then have pos: "0 < nread" using 2(2-4) by (cases ss; cases rs) (auto simp: dirent_def)
      let ?buf = "bs @ drop (length bs) buf"
      obtain r w2 vs vs' where l: "dents_loop f dirfd ?buf (length bs) 0 w1 = Some (Inr (r, w2))" "ss = vs @ vs'"
        "calls w2 = calls w1 @ vs" "dents w2 = dents w1" "r = None \<longrightarrow> vs' = []" "\<forall>ret. r = Some ret \<longrightarrow> ret \<noteq> 0"
        using dents_loop_correct [OF f 2(2), of ?buf "[]" "drop (length bs) buf" "length bs" w1] 2(3) by auto
      show ?thesis
      proof (cases r)
        case (Some ret)
        then have "dir_loop k f dirfd buf w = Some (Inr (ret, snd (my_close k dirfd w2)))"
          using pos l(1) 2(4) by (subst dir_loop.simps) (simp add: g)
        then show ?thesis using Some l 2(1) c1
          by (intro exI [of _ ret] exI [of _ w2] exI [of _ vs] exI [of _ "vs' @ dents w1"]) simp
      next
        case None
        then have step: "dir_loop k f dirfd buf w = dir_loop k f dirfd ?buf w2"
          using pos l(1) 2(4) by (subst dir_loop.simps) (simp add: g)
        have "length (dents w2) < length (dents w)" using False 2(1) l(4) by simp
        from less [OF this, of ?buf] obtain ret w' us us' where
          "dir_loop k f dirfd ?buf w2 = Some (Inr (ret, snd (my_close k dirfd w')))" "dents w2 = us @ us'"
          "calls w' = calls w2 @ us" "ret = 0 \<longrightarrow> us' = []" by blast
        then show ?thesis unfolding step using None l 2(1) c1
          by (intro exI [of _ ret] exI [of _ w'] exI [of _ "ss @ us"] exI [of _ us']) simp
      qed
    qed
  qed
qed

text \<open>
  C40. \<open>iterate_dir\<close> returns, for every directory and every function \<open>f\<close>. If the directory cannot be opened \<open>f\<close> is not called
  and the error is returned. Otherwise \<open>f\<close> is called on a prefix of the entries, each once and in order, and the last thing done is to
  close the directory; the result is 0 only if \<open>f\<close> has been called on every entry.
\<close>

theorem iterate_dir_visits:
  assumes opened: "my_open k path O_DIRECTORY 0 w = (dirfd, w1)"
    and k: "0 \<le> dirfd \<longrightarrow> lists_dir k dirfd dents calls" and f: "0 \<le> dirfd \<longrightarrow> records_calls f dirfd dents calls"
  shows "if dirfd < 0 then iterate_dir k f path buf w = Some (Inr (- dirfd, w1))
     else \<exists>ret w' vs vs'. iterate_dir k f path buf w = Some (Inr (ret, snd (my_close k dirfd w'))) \<and>
       dents w1 = vs @ vs' \<and> calls w' = calls w1 @ vs \<and> (ret = 0 \<longrightarrow> vs' = [])"
  using dir_loop_correct [of k dirfd dents calls f buf w1] k f by (simp add: iterate_dir_def opened)

text \<open>A kernel with a directory of two names, delivered one at a time, and a function that counts its calls.\<close>

type_synonym dsim = "name list \<times> name list"

definition dir_record :: "name \<Rightarrow> byte list" where
  "dir_record s = replicate 16 0 @ [of_nat (20 + length s), 0] @ s @ [0, 8]"

definition dir_kernel :: "dsim kernel" where
  "dir_kernel rg w =
     (if rg RAX = Some (Num 78)
      then case fst w of
             [] \<Rightarrow> ((0, []), w)
           | s # ss \<Rightarrow> if length s < 200 \<and> 0 \<notin> set s then ((of_nat (20 + length s), dir_record s), (ss, snd w)) else ((- 5, []), w)
      else if rg RAX = Some (Num 2) then ((3, []), ([[97], [98, 99]], snd w)) else ((0, []), w))"

lemma dir_kernel_dirent:
  assumes "length s < 200" and "0 \<notin> set s"
  shows "dirent s (dir_record s)"
proof -
  have "unat (of_nat (20 + length s) :: byte) = 20 + length s"
    using assms(1) by (simp only: unat_of_nat) simp
  then show ?thesis using assms(2) by (simp add: dirent_def dir_record_def d_reclen_def nth_append)
qed

lemma dir_kernel_getdents:
  "my_getdents dir_kernel fd (Out 1024) 1024 w =
     (case fst w of
        [] \<Rightarrow> ((0, []), w)
      | s # ss \<Rightarrow> if length s < 200 \<and> 0 \<notin> set s then ((int (20 + length s), dir_record s), (ss, snd w)) else ((- 5, []), w))"
proof -
  have "to_int (of_nat (20 + length s)) = int (20 + length s)" if "length s < 200" for s :: name
    using that to_int_of [of "int (20 + length s)"] by (simp add: int32_def)
  moreover have "to_int (- 5) = - 5" using to_int_of [of "- 5"] by (simp add: int32_def)
  moreover have "to_int 0 = 0" using to_int_of [of 0] by simp
  ultimately show ?thesis by (simp add: my_getdents_def syscall_def syscall_regs_def dir_kernel_def split: list.split if_split) auto
qed

lemma dir_kernel_lists: "lists_dir dir_kernel fd fst snd"
  unfolding lists_dir_def dir_kernel_getdents
proof (intro allI impI)
  fix w w' :: dsim and r bs
  assume g: "(case fst w of [] \<Rightarrow> ((0, []), w)
      | s # ss \<Rightarrow> if length s < 200 \<and> 0 \<notin> set s then ((int (20 + length s), dir_record s), (ss, snd w)) else ((- 5, []), w)) = ((r, bs), w')"
  have len: "length (dir_record s) = 20 + length s" for s by (simp add: dir_record_def)
  show "snd w' = snd w \<and> (r < 0 \<and> fst w' = fst w \<or>
      (\<exists>ss rs. fst w = ss @ fst w' \<and> list_all2 dirent ss rs \<and> bs = concat rs \<and> r = int (length bs) \<and> length bs \<le> 1024 \<and>
        (ss = [] \<longrightarrow> fst w = [])))"
  proof (cases "fst w")
    case (Cons s ss)
    show ?thesis
    proof (cases "length s < 200 \<and> 0 \<notin> set s")
      case True
      then have "list_all2 dirent [s] [dir_record s]" using dir_kernel_dirent by simp
      moreover have "r = int (20 + length s)" "bs = concat [dir_record s]" "w' = (ss, snd w)" using g Cons True by auto
      ultimately show ?thesis using True len [of s]
        by (intro conjI disjI2 exI [of _ "[s]"] exI [of _ "[dir_record s]"]) (simp_all add: Cons)
    qed (use g Cons in auto)
  qed (use g in auto)
qed

theorem iterate_dir_visits_witness:
  "\<exists>ret w' vs vs'. iterate_dir dir_kernel (\<lambda>_ s w. (0, (fst w, snd w @ [s]))) ''d'' (replicate 1024 0) ([], []) =
       Some (Inr (ret, snd (my_close dir_kernel 3 w'))) \<and> [[97], [98, 99]] = vs @ vs' \<and> snd w' = [] @ vs \<and> (ret = 0 \<longrightarrow> vs' = [])"
proof -
  let ?f = "\<lambda>(_ :: int) s w. (0 :: int, (fst w :: name list, snd w @ [s]))"
  have "to_int 3 = 3" using to_int_of [of 3] by simp
  then have "my_open dir_kernel ''d'' O_DIRECTORY 0 ([], []) = (3, ([[97], [98, 99]], []))"
    by (simp add: my_open_def syscall_def syscall_regs_def dir_kernel_def)
  from iterate_dir_visits [OF this, where dents = fst and calls = snd and f = ?f and buf = "replicate 1024 0"] show ?thesis
    using dir_kernel_lists [of 3] by (simp add: records_calls_def)
qed

end
