(* ===== verification/Membench.thy ===== *)
theory Membench
  imports Foreground Consumer
begin

text \<open>
  The programs of \<^verbatim>\<open>src/bench/\<close>, the clients of the library that are part of the repository:
  \<^verbatim>\<open>membench_dedup.cc\<close>, \<^verbatim>\<open>membench_stack.cc\<close> and \<^verbatim>\<open>membench_batch.cc\<close>. Each pushes operations that
  double blocks of 32 bytes, and has a consume function that carries them out; \<^verbatim>\<open>membench_dedup\<close> also runs the
  operations directly (\<open>baseline\<close>). Clocks and output are left out. \<open>stoul\<close> is \<^verbatim>\<open>std::stoul\<close>, \<open>None\<close> where it
  throws. While the foreground runs, the background goes on: \<open>bgp n\<close> is what it does to the log before the
  operation is pushed that \<open>n\<close> others follow.
\<close>

section \<open>Blocks\<close>

definition WRITES_PER_OP :: nat where "WRITES_PER_OP = 1024"

definition MEM_SIZE_B :: u64 where "MEM_SIZE_B = push_bit 30 1"

definition NUM_BLOCKS :: u64 where "NUM_BLOCKS = MEM_SIZE_B div 32"

text \<open>The four lanes of a \<^verbatim>\<open>__m256i\<close>, and \<^verbatim>\<open>_mm256_add_epi64\<close>.\<close>

definition lane :: "byte list \<Rightarrow> nat \<Rightarrow> u64" where
  "lane v i = le_word (take 8 (drop (8 * i) v))"

definition add_epi64 :: "byte list \<Rightarrow> byte list \<Rightarrow> byte list" where
  "add_epi64 x y = concat (map (\<lambda>i. le_bytes 8 (lane x i + lane y i)) [0..<4])"

text \<open>One iteration: load, add, store, and with \<open>persistent\<close> write the line back.\<close>

definition double_block :: "bool \<Rightarrow> addr \<Rightarrow> pmem \<Rightarrow> pmem" where
  "double_block persistent p P =
     (let val = rd (cur P) p 32; P1 = store_bytes p (add_epi64 val val) P
      in if persistent then pmem_drain (pmem_flush p P1) else P1)"

section \<open>membench_dedup\<close>

definition dedup_run_op :: "bool \<Rightarrow> nat \<Rightarrow> addr \<Rightarrow> u64 \<Rightarrow> pmem \<Rightarrow> u64 \<times> pmem" where
  "dedup_run_op persistent locs mem offset P =
     ((offset + of_nat locs) mod NUM_BLOCKS,
      fold (\<lambda>i. fold (\<lambda>j. double_block persistent (mem + 32 * offset + 32 * of_nat j)) [0..<locs])
        [0..<WRITES_PER_OP div locs] P)"

fun baseline_loop :: "(u64 \<Rightarrow> pmem \<Rightarrow> u64 \<times> pmem) \<Rightarrow> nat \<Rightarrow> u64 \<Rightarrow> pmem \<Rightarrow> u64 \<times> pmem" where
  "baseline_loop f 0 offset P = (offset, P)"
| "baseline_loop f (Suc n) offset P = (case f offset P of (offset', P') \<Rightarrow> baseline_loop f n offset' P')"

definition dedup_warmup :: nat where "dedup_warmup = unat (PSM_LOG_SIZE_B div 64 * 4)"

text \<open>\<open>exit (1)\<close> is \<open>Inl 1\<close>.\<close>

definition baseline_run ::
  "'w libs \<Rightarrow> bool \<Rightarrow> nat \<Rightarrow> string \<Rightarrow> nat \<Rightarrow> pmem \<Rightarrow> 'w \<Rightarrow> (int + pmem) \<times> 'w" where
  "baseline_run L persistent locs md num_ops P w =
     (let go = (\<lambda>mem w. let (offset, P1) = baseline_loop (dedup_run_op persistent locs mem) dedup_warmup 0 P;
                            (_, P2) = baseline_loop (dedup_run_op persistent locs mem) num_ops offset P1 in (Inr P2, w))
      in if md = ''dram''
         then case libc_mmap (lib_kernel L) 0 MEM_SIZE_B RW (or (or MAP_ANONYMOUS MAP_PRIVATE) 32768) (- 1) 0 w of ((mem, _), w1) \<Rightarrow>
                if mem = MAP_FAILED then (Inl 1, w1) else go mem w1
         else if md = ''pm'' \<or> md = ''pm-no-persist''
         then case pmem_map_file L ''/mnt/pmem1/foo'' MEM_SIZE_B w of ((mem, is_pmem, _), w1) \<Rightarrow>
                if mem = 0 then (Inl 1, w1) else if \<not> is_pmem then (Inl 1, w1) else go mem w1
         else (Inl 1, w))"

text \<open>\<open>op_t\<close>, with \<open>unused = 1\<close>.\<close>

definition dedup_op :: "u64 \<Rightarrow> byte list" where
  "dedup_op offset = le_bytes 8 (1 :: u64) @ le_bytes 8 offset"

definition dedup_consume :: "nat \<Rightarrow> addr \<Rightarrow> addr \<Rightarrow> pmem \<Rightarrow> (int \<times> pmem) result option" where
  "dedup_consume locs mem p P =
     (let op = rd (cur P) p 16; offset = le_word (drop 8 op) in Some (Inr (16, snd (dedup_run_op False locs mem offset P))))"

text \<open>The loop that all three programs have: \<open>op\<close> is the operation at an offset, \<open>next\<close> the next offset.\<close>

fun push_loop ::
  "(nat \<Rightarrow> psm \<Rightarrow> psm) \<Rightarrow> (u64 \<Rightarrow> byte list) \<Rightarrow> (u64 \<Rightarrow> u64) \<Rightarrow> nat \<Rightarrow> u64 \<Rightarrow> psm \<Rightarrow> (u64 \<times> psm) result option" where
  "push_loop bgp op next 0 offset s = Some (Inr (offset, s))"
| "push_loop bgp op next (Suc n) offset s =
     (let s0 = bgp n s in
      bind_ro (psm_reserve (\<lambda>_. tail s0) (of_nat (length (op offset))) s0) (\<lambda>(p, s1).
        bind_ro (psm_commit False (s1\<lparr>psm_mem := store_bytes p (op offset) (psm_mem s1)\<rparr>)) (\<lambda>s2.
          push_loop bgp op next n (next offset) s2)))"

definition dedup_run_loop :: "(nat \<Rightarrow> psm \<Rightarrow> psm) \<Rightarrow> nat \<Rightarrow> nat \<Rightarrow> u64 \<Rightarrow> psm \<Rightarrow> (u64 \<times> psm) result option" where
  "dedup_run_loop bgp locs num_ops offset s =
     push_loop bgp dedup_op (\<lambda>offset. (offset + of_nat locs) mod NUM_BLOCKS) num_ops offset s"

text \<open>
  How \<open>run\<close> ends: it leaves the process, becomes the background process in \<open>psm_init\<close>, or returns with
  the log. The memory of the benchmark is anonymous, so the state of the application in \<open>psm_init\<close> is \<open>pmem\<close>.
\<close>

datatype bench_end = Exit int | Background | Finished psm

definition bench_config :: "(addr \<Rightarrow> pmem \<Rightarrow> (int \<times> pmem) result option) \<Rightarrow> pmem psm_config" where
  "bench_config consume_f =
     \<lparr>use_sga = False, pin_core = 27, consume_func = Some consume_f, cfg_mode = PSM_MODE_UNDO,
      cfg_pmem_path = ''/mnt/pmem1/bench'', cfg_criu_service_path = ''/tmp/criu_service.socket'',
      cfg_imgs_dir = [], cfg_service_path = [], cfg_log_path = None\<rparr>"

text \<open>\<open>run\<close> of the three programs: \<open>loop\<close> is their \<open>run_loop\<close>, first for the warm-up and then for the measurement.\<close>

definition bench_run ::
  "'w libs \<Rightarrow> (addr \<Rightarrow> addr \<Rightarrow> pmem \<Rightarrow> (int \<times> pmem) result option) \<Rightarrow> (nat \<Rightarrow> u64 \<Rightarrow> psm \<Rightarrow> (u64 \<times> psm) result option) \<Rightarrow>
   nat \<Rightarrow> nat \<Rightarrow> int \<Rightarrow> pmem \<Rightarrow> 'w \<Rightarrow> bench_end result option" where
  "bench_run L consume_f loop warmup num_ops junk P w =
     (case libc_mmap (lib_kernel L) 0 MEM_SIZE_B RW (or (or MAP_ANONYMOUS MAP_PRIVATE) 32768) (- 1) 0 w of ((mem, _), w1) \<Rightarrow>
        if mem = MAP_FAILED then Some (Inr (Exit 1))
        else bind_ro (psm_init L (Some (bench_config (consume_f mem))) cur junk P w1 P) (\<lambda>(out, fgo, _).
          case (out, fgo) of
            (RunsBackground, _) \<Rightarrow> Some (Inr Background)
          | (Returned ret, Some g) \<Rightarrow>
              if ret \<noteq> 0 then Some (Inr (Exit 1))
              else bind_ro (loop warmup 0 (fg_psm g)) (\<lambda>(offset, s1).
                     bind_ro (loop num_ops offset s1) (\<lambda>(_, s2). Some (Inr (Finished s2))))
          | (Returned ret, None) \<Rightarrow> Some (Inr (Exit 1))))"

definition dedup_run ::
  "'w libs \<Rightarrow> (nat \<Rightarrow> psm \<Rightarrow> psm) \<Rightarrow> nat \<Rightarrow> nat \<Rightarrow> int \<Rightarrow> pmem \<Rightarrow> 'w \<Rightarrow> bench_end result option" where
  "dedup_run L bgp locs num_ops junk P w =
     bench_run L (dedup_consume locs) (dedup_run_loop bgp locs) dedup_warmup num_ops junk P w"

text \<open>\<open>actual_main\<close> and \<open>main\<close>. The number of operations is rounded up; \<open>size_t\<close> wraps.\<close>

definition num_ops_of :: "u64 \<Rightarrow> nat" where
  "num_ops_of rounds = unat ((rounds + of_nat WRITES_PER_OP - 1) div of_nat WRITES_PER_OP)"

definition dedup_actual_main ::
  "'w libs \<Rightarrow> (nat \<Rightarrow> psm \<Rightarrow> psm) \<Rightarrow> bool \<Rightarrow> nat \<Rightarrow> string \<Rightarrow> u64 \<Rightarrow> int \<Rightarrow> pmem \<Rightarrow> 'w \<Rightarrow> (bench_end + int + pmem) result option" where
  "dedup_actual_main L bgp persistent locs md rounds junk P w =
     (let num_ops = num_ops_of rounds in
      if md = ''psm''
      then bind_ro (dedup_run L bgp locs num_ops junk P w) (\<lambda>e. Some (Inr (Inl e)))
      else Some (Inr (Inr (fst (baseline_run L persistent locs md num_ops P w)))))"

definition dedup_locs :: "nat list" where
  "dedup_locs = [1, 2, 4, 8, 16, 32, 64, 128, 256, 512, 1024]"

definition dedup_main ::
  "'w libs \<Rightarrow> (string \<Rightarrow> u64 option) \<Rightarrow> (nat \<Rightarrow> psm \<Rightarrow> psm) \<Rightarrow> string list \<Rightarrow> int \<Rightarrow> pmem \<Rightarrow> 'w \<Rightarrow> (bench_end + int + pmem) result option" where
  "dedup_main L stoul bgp argv junk P w =
     (let w0 = (case pin_thread_to_core (lib_kernel L) 26 w of Inr (_, w') \<Rightarrow> w' | Inl _ \<Rightarrow> w) in
      case argv of
        [_, md, a2, a3] \<Rightarrow>
          (case (stoul a2, stoul a3) of
             (Some rounds, Some locs) \<Rightarrow>
               if unat locs \<in> set dedup_locs then dedup_actual_main L bgp (md = ''pm'') (unat locs) md rounds junk P w0
               else Some (Inr (Inl (Exit 1)))
           | _ \<Rightarrow> Some (Inl Abort))
      | _ \<Rightarrow> Some (Inr (Inl (Exit 1))))"

section \<open>membench_stack\<close>

text \<open>\<open>local\<close> is the address of the array on the stack.\<close>

definition stack_run_op :: "addr \<Rightarrow> addr \<Rightarrow> u64 \<Rightarrow> nat \<Rightarrow> pmem \<Rightarrow> u64 \<times> pmem" where
  "stack_run_op local mem offset stack_writes P =
     (let P1 = fold (\<lambda>i. double_block False (local + 32 * of_nat i)) [0..<stack_writes] P;
          P2 = fold (\<lambda>i. double_block False (mem + 32 * offset + 32 * of_nat i)) [0..<WRITES_PER_OP - stack_writes] P1
      in (scast (cur P2 local), P2))"

definition stack_op :: "u64 \<Rightarrow> u64 \<Rightarrow> byte list" where
  "stack_op stack_writes offset = le_bytes 8 (1 :: u64) @ le_bytes 8 stack_writes @ le_bytes 8 offset"

definition stack_consume :: "addr \<Rightarrow> addr \<Rightarrow> addr \<Rightarrow> pmem \<Rightarrow> (int \<times> pmem) result option" where
  "stack_consume local mem p P =
     (let offset = load_u64 (cur P) (p + 16); stack_writes = load_u64 (cur P) (p + 8)
      in Some (Inr (24, snd (stack_run_op local mem offset (unat stack_writes) P))))"

definition stack_run_loop :: "(nat \<Rightarrow> psm \<Rightarrow> psm) \<Rightarrow> u64 \<Rightarrow> nat \<Rightarrow> u64 \<Rightarrow> psm \<Rightarrow> (u64 \<times> psm) result option" where
  "stack_run_loop bgp stack_writes num_ops offset s =
     push_loop bgp (stack_op stack_writes) (\<lambda>offset. (offset + of_nat WRITES_PER_OP) mod NUM_BLOCKS) num_ops offset s"

definition stack_run ::
  "'w libs \<Rightarrow> (nat \<Rightarrow> psm \<Rightarrow> psm) \<Rightarrow> addr \<Rightarrow> nat \<Rightarrow> u64 \<Rightarrow> int \<Rightarrow> pmem \<Rightarrow> 'w \<Rightarrow> bench_end result option" where
  "stack_run L bgp local num_ops stack_writes junk P w =
     bench_run L (stack_consume local) (stack_run_loop bgp stack_writes) (unat (PSM_LOG_SIZE_B div 64 * 4)) num_ops junk P w"

definition stack_main ::
  "'w libs \<Rightarrow> (string \<Rightarrow> u64 option) \<Rightarrow> (nat \<Rightarrow> psm \<Rightarrow> psm) \<Rightarrow> addr \<Rightarrow> string list \<Rightarrow> int \<Rightarrow> pmem \<Rightarrow> 'w \<Rightarrow> bench_end result option" where
  "stack_main L stoul bgp local argv junk P w =
     (let w0 = (case pin_thread_to_core (lib_kernel L) 26 w of Inr (_, w') \<Rightarrow> w' | Inl _ \<Rightarrow> w) in
      case argv of
        [_, a1, a2] \<Rightarrow>
          (case (stoul a1, stoul a2) of
             (Some rounds, Some stack_writes) \<Rightarrow>
               if stack_writes > of_nat WRITES_PER_OP then Some (Inr (Exit 1))
               else stack_run L bgp local (num_ops_of rounds) stack_writes junk P w0
           | _ \<Rightarrow> Some (Inl Abort))
      | _ \<Rightarrow> Some (Inr (Exit 1)))"

section \<open>membench_batch\<close>

definition batch_run_op :: "addr \<Rightarrow> u64 \<Rightarrow> pmem \<Rightarrow> pmem" where
  "batch_run_op mem offset P =
     fold (\<lambda>i. double_block False (mem + 32 * ((offset + of_nat i) mod NUM_BLOCKS))) [0..<WRITES_PER_OP] P"

definition batch_consume :: "addr \<Rightarrow> addr \<Rightarrow> pmem \<Rightarrow> (int \<times> pmem) result option" where
  "batch_consume mem p P = (let offset = load_u64 (cur P) (p + 8) in Some (Inr (16, batch_run_op mem offset P)))"

definition batch_run_loop :: "(nat \<Rightarrow> psm \<Rightarrow> psm) \<Rightarrow> u64 \<Rightarrow> nat \<Rightarrow> u64 \<Rightarrow> psm \<Rightarrow> (u64 \<times> psm) result option" where
  "batch_run_loop bgp advance num_ops offset s =
     push_loop bgp dedup_op (\<lambda>offset. (offset + advance) mod NUM_BLOCKS) num_ops offset s"

definition batch_run ::
  "'w libs \<Rightarrow> (nat \<Rightarrow> psm \<Rightarrow> psm) \<Rightarrow> nat \<Rightarrow> u64 \<Rightarrow> int \<Rightarrow> pmem \<Rightarrow> 'w \<Rightarrow> bench_end result option" where
  "batch_run L bgp num_ops advance junk P w =
     bench_run L batch_consume (batch_run_loop bgp advance) (unat (PSM_LOG_SIZE_B div 64 * 2)) num_ops junk P w"

definition batch_main ::
  "'w libs \<Rightarrow> (string \<Rightarrow> u64 option) \<Rightarrow> (nat \<Rightarrow> psm \<Rightarrow> psm) \<Rightarrow> string list \<Rightarrow> int \<Rightarrow> pmem \<Rightarrow> 'w \<Rightarrow> bench_end result option" where
  "batch_main L stoul bgp argv junk P w =
     (let w0 = (case pin_thread_to_core (lib_kernel L) 26 w of Inr (_, w') \<Rightarrow> w' | Inl _ \<Rightarrow> w) in
      case argv of
        [_, a1, a2] \<Rightarrow>
          (case (stoul a1, stoul a2) of
             (Some rounds, Some advance) \<Rightarrow>
               if advance > of_nat WRITES_PER_OP then Some (Inr (Exit 1))
               else if advance AND (advance - 1) \<noteq> 0 then Some (Inr (Exit 1))
               else batch_run L bgp (num_ops_of rounds) advance junk P w0
           | _ \<Rightarrow> Some (Inl Abort))
      | _ \<Rightarrow> Some (Inr (Exit 1)))"

end
