(* ===== verification/Membench_Props.thy ===== *)
theory Membench_Props
  imports Membench Psm_Props
begin

text \<open>
  The benchmarks are correct clients: their loops fill the operation log without loss, their operations stay inside
  their memory, their consume functions meet the contract \<open>application\<close> of the background process, and so what the background
  computes is what the direct run computes.
\<close>

section \<open>Filling the log\<close>

text \<open>Operations that take one line of the log each.\<close>

definition line_ops :: "byte list set" where
  "line_ops = {e. e \<noteq> [] \<and> hd e \<noteq> 0 \<and> length e \<le> 64}"

lemma line_ops_ok: "e \<in> line_ops \<Longrightarrow> entry_ok e" "e \<in> line_ops \<Longrightarrow> round64 (length e) = 64"
proof -
  assume e: "e \<in> line_ops"
  then have l: "0 < length e" "length e \<le> 64" by (auto simp: line_ops_def)
  then have "(length e + 63) div 64 = 1" unfolding div_eq_iff_nat [of 64, simplified] by linarith
  then show r: "round64 (length e) = 64" by (simp add: round64_def)
  show "entry_ok e" using e r by (simp add: line_ops_def entry_ok_def)
qed

lemma line_span:
  assumes "e \<in> line_ops" and "t mod 64 = 0"
  shows "span t e = 64"
proof -
  obtain k where k: "t mod RING = 64 * k" using mod_ring_64 [OF assms(2)] by (metis mod_eq_0_iff_dvd dvd_def)
  have "t mod RING < RING" by simp
  then have "k < 16384" unfolding k by simp
  then have "t mod RING + 64 \<le> RING" unfolding k by simp
  then show ?thesis using line_ops_ok(2) [OF assms(1)] by (simp add: span_def pad_def)
qed

lemma chain_lines:
  "chain m b t qs h \<Longrightarrow> set qs \<subseteq> line_ops \<Longrightarrow> t mod 64 = 0 \<Longrightarrow> h = t + 64 * length qs"
proof (induction qs arbitrary: t)
  case (Cons e qs)
  have s: "span t e = 64" using Cons.prems(2,3) by (intro line_span) auto
  have "(t + 64) mod 64 = 0" using Cons.prems(3) by simp
  then show ?case using Cons.IH [of "t + 64"] Cons.prems s by simp
qed simp

text \<open>The background takes entries from the front, and at least one from a log that is full.\<close>

definition bg_takes :: "(nat \<Rightarrow> psm \<Rightarrow> psm) \<Rightarrow> bool" where
  "bg_takes bgp \<longleftrightarrow> (\<forall>n s qs. ring_state line_ops s qs [] \<longrightarrow>
     (\<exists>outs qs'. qs = outs @ qs' \<and> ring_state line_ops (bgp n s) qs' [] \<and> length qs' < 16383))"

lemma ring_state_counters:
  assumes "ring_state line_ops s qs []"
  obtains lt t l where "counters lt t l l s" "l = t + 64 * length qs" "base_ok (log_base s)" "t mod 64 = 0"
proof -
  obtain lt t h l where c: "counters lt t h l s" "chain (cur (psm_mem s)) (buf_at (log_base s)) t qs h" "h = l"
    "base_ok (log_base s)" "set qs \<subseteq> line_ops"
    using assms by (auto simp: ring_state_def ring_rep_def)
  have "t mod 64 = 0" using c(1) by (simp add: counters_def)
  with that [of lt t l] chain_lines [OF c(2,5)] c show thesis by simp
qed

lemma push_step:
  assumes st: "ring_state line_ops s qs []" and room: "length qs < 16383" and e: "e \<in> line_ops"
  shows "\<exists>p s1 s2. psm_reserve (\<lambda>_. tail s) (of_nat (length e)) s = Some (Inr (p, s1)) \<and>
     psm_commit False (s1\<lparr>psm_mem := store_bytes p e (psm_mem s1)\<rparr>) = Some (Inr s2) \<and> ring_state line_ops s2 (qs @ [e]) []"
proof -
  obtain lt t l where c: "counters lt t l l s" "l = t + 64 * length qs" "base_ok (log_base s)" "t mod 64 = 0"
    using ring_state_counters [OF st] .
  have "l mod 64 = 0" using c(1) by (simp add: counters_def)
  then have fit: "l + span l e < t + RING" using line_span [OF e, of l] c(2) room by simp
  note cp = demo_copies
  obtain res where "psm_push store_bytes (\<lambda>_. tail s) e s = Some res"
    using psm_push_returns [OF c(1,3) line_ops_ok(1) [OF e] fit] by blast
  then obtain s' where p: "psm_push store_bytes (\<lambda>_. tail s) e s = Some (Inr s')" "ring_rep s' qs [e]" "wf_pm (psm_mem s')"
    using psm_push_some [OF _ line_ops_ok(1) [OF e] cp] st by (fastforce simp: ring_state_def)
  then obtain d s1 where "psm_reserve (\<lambda>_. tail s) (of_nat (length e)) s = Some (Inr (d, s1))"
    "s' = s1\<lparr>psm_mem := store_bytes d e (psm_mem s1)\<rparr>" by (auto simp: psm_push_def bind_ro_Inr)
  moreover obtain s2 where "psm_commit False s' = Some (Inr s2)" "ring_rep s2 (qs @ [e]) []" "wf_pm (psm_mem s2)"
    using psm_commit_correct [OF p(2,3), of False] by blast
  ultimately show ?thesis using st e by (auto simp: ring_state_def)
qed

text \<open>The offsets that a loop goes through.\<close>

fun offsets :: "(u64 \<Rightarrow> u64) \<Rightarrow> nat \<Rightarrow> u64 \<Rightarrow> u64 list" where
  "offsets next 0 off = []"
| "offsets next (Suc n) off = off # offsets next n (next off)"

lemma push_loop_fills:
  assumes bg: "bg_takes bgp" and op: "\<And>off. op off \<in> line_ops" and st: "ring_state line_ops s qs []"
  shows "\<exists>s' outs qs'. push_loop bgp op next n offset s = Some (Inr ((next ^^ n) offset, s')) \<and>
     qs @ map op (offsets next n offset) = outs @ qs' \<and> ring_state line_ops s' qs' []"
  using st
proof (induction n arbitrary: offset s qs)
  case 0
  then show ?case by (intro exI [of _ s] exI [of _ "[]"] exI [of _ qs]) simp
next
  case (Suc n)
  let ?s0 = "bgp n s" and ?e = "op offset"
  obtain outs0 qs0 where b: "qs = outs0 @ qs0" "ring_state line_ops ?s0 qs0 []" "length qs0 < 16383"
    using bg Suc.prems unfolding bg_takes_def by blast
  obtain p s1 s2 where r: "psm_reserve (\<lambda>_. tail ?s0) (of_nat (length ?e)) ?s0 = Some (Inr (p, s1))"
    "psm_commit False (s1\<lparr>psm_mem := store_bytes p ?e (psm_mem s1)\<rparr>) = Some (Inr s2)" "ring_state line_ops s2 (qs0 @ [?e]) []"
    using push_step [OF b(2,3) op] by blast
  obtain s' outs qs' where "push_loop bgp op next n (next offset) s2 = Some (Inr ((next ^^ n) (next offset), s'))"
    "(qs0 @ [?e]) @ map op (offsets next n (next offset)) = outs @ qs'" "ring_state line_ops s' qs' []" using Suc.IH [OF r(3)] by blast
  then show ?case using b(1) r(1,2)
    by (intro exI [of _ s'] exI [of _ "outs0 @ outs"] exI [of _ qs']) (simp add: funpow_swap1)
qed

section \<open>Doubling blocks under instrumentation\<close>

text \<open>The stores that doubling the blocks at \<open>ps\<close> makes, one after another.\<close>

fun double_stores :: "u64 \<Rightarrow> addr list \<Rightarrow> mem \<Rightarrow> app_op list" where
  "double_stores rsp [] m = []"
| "double_stores rsp (p # ps) m =
     (let bs = add_epi64 (rd m p 32) (rd m p 32) in AppStore p bs rsp # double_stores rsp ps (wr p bs m))"

lemma length_add_epi64 [simp]: "length (add_epi64 x y) = 32"
  by (simp add: add_epi64_def upt_rec)

lemma double_stores_effect:
  "app_effect (double_stores rsp ps (cur P)) (cur P) = cur (fold (double_block False) ps P)"
proof (induction ps arbitrary: P)
  case (Cons p ps)
  let ?bs = "add_epi64 (rd (cur P) p 32) (rd (cur P) p 32)"
  have "cur (double_block False p P) = wr p ?bs (cur P)" by (simp add: double_block_def Let_def)
  then show ?case using Cons [of "double_block False p P"] by (simp add: Let_def)
qed simp

text \<open>A block that the undo log covers, or one on the stack, which the instrumentation skips.\<close>

definition block_ok :: "addr \<Rightarrow> addr set \<Rightarrow> addr set \<Rightarrow> bool \<Rightarrow> u64 \<Rightarrow> addr \<Rightarrow> bool" where
  "block_ok B A X skip rsp p \<longleftrightarrow> window_ok B p 32 \<and> unat p mod 32 = 0 \<and>
     (skip \<and> rsp - 128 \<le> p \<and> (\<forall>x. unat (x - p) < 32 \<longrightarrow> x \<in> X) \<or> (\<forall>x. unat (x - p) < 32 \<longrightarrow> x \<notin> X \<and> undo_block x \<in> A))"

lemma double_stores_same_off:
  "\<forall>p \<in> set ps. block_ok B A X skip rsp p \<Longrightarrow> same_off X m m' \<Longrightarrow>
   same_off X (app_effect (double_stores rsp ps m) m) (app_effect (double_stores rsp ps m') m')"
proof (induction ps arbitrary: m m')
  case (Cons p ps)
  let ?bs = "\<lambda>m. add_epi64 (rd m p 32) (rd m p 32)"
  have "same_off X (wr p (?bs m) m) (wr p (?bs m') m')"
  proof (cases "\<forall>x. unat (x - p) < 32 \<longrightarrow> x \<in> X")
    case True
    then show ?thesis using Cons.prems(2) by (auto simp: same_off_def wr_def)
  next
    case False
    then have out: "x \<notin> X" if "unat (x - p) < 32" for x using Cons.prems(1) that by (auto simp: block_ok_def)
    have "rd m p 32 = rd m' p 32"
      using Cons.prems(2) out by (intro rd_cong) (simp add: same_off_def unat_of_nat_small)
    then show ?thesis using Cons.prems(2) by (auto simp: same_off_def wr_def)
  qed
  then show ?case using Cons.IH Cons.prems(1) by (simp add: Let_def)
qed simp

lemma double_stores_ops:
  assumes "\<forall>p \<in> set ps. block_ok B A X skip rsp p" and "S \<le> rsp - 128"
  shows "\<forall>q \<in> set (double_stores rsp ps m). op_ok B S q" and "tracked A skip v (double_stores rsp ps m)"
    and "sum_list (map op_blocks (double_stores rsp ps m)) = length ps" and "unprotected S (double_stores rsp ps m) = {x. S \<le> x}"
  using assms(1)
proof (induction ps arbitrary: m)
  case (Cons p ps)
  {
    case 1
    then show ?case using Cons.IH(1) assms(2) by (simp add: Let_def block_ok_def)
  next
    case 2
    then have "store_tracked A skip v p 32 rsp" by (auto simp: block_ok_def store_tracked_def)
    then show ?case using 2 Cons.IH(2) by (simp add: Let_def)
  next
    case 3
    have "unat p mod 32 = 0" using 3 by (simp add: block_ok_def)
    then have "blocks_of p 32 = 1" by (auto simp: blocks_of_def)
    then show ?case using 3 Cons.IH(3) by (simp add: Let_def)
  next
    case 4
    then show ?case using Cons.IH(4) by (simp add: Let_def unprotected_def)
  }
qed (simp_all add: unprotected_def)

text \<open>Commands that double up to \<open>WRITES_PER_OP\<close> blocks make an application.\<close>

lemma doubling_application:
  assumes ps: "\<And>e. cmd e \<Longrightarrow> \<forall>p \<in> set (ps e). block_ok B A X skip rsp p" "\<And>e. cmd e \<Longrightarrow> length (ps e) = WRITES_PER_OP"
    and S: "S \<le> rsp - 128" "{x. S \<le> x} \<subseteq> F"
    and prog: "\<And>e m a. cmd e \<Longrightarrow> rd m a (length e) = e \<Longrightarrow> prog m a = (length e, double_stores rsp (ps e) m)"
  shows "application B S A F X skip cmd (\<lambda>m e. double_stores rsp (ps e) m) prog"
proof unfold_locales
  fix e m m' a
  assume e: "cmd e"
  note o = double_stores_ops [OF ps(1) [OF e] S(1)]
  show "prog m a = (length e, double_stores rsp (ps e) m)" if "rd m a (length e) = e" using prog [OF e that] .
  show "\<forall>p \<in> set (double_stores rsp (ps e) m). op_ok B S p" by (rule o(1))
  show "tracked A skip [] (double_stores rsp (ps e) m)" by (rule o(2))
  show "Suc (sum_list (map op_blocks (double_stores rsp (ps e) m))) < UNDO_NUM_ENTRIES"
    unfolding o(3) ps(2) [OF e] by (simp add: WRITES_PER_OP_def UNDO_NUM_ENTRIES_def)
  show "unprotected S (double_stores rsp (ps e) m) \<subseteq> F" unfolding o(4) by (rule S(2))
  show "same_off X (app_effect (double_stores rsp (ps e) m) m) (app_effect (double_stores rsp (ps e) m') m')" if "same_off X m m'"
    by (rule double_stores_same_off [OF ps(1) [OF e] that])
qed

section \<open>The memory of a benchmark\<close>

text \<open>
  The memory that \<open>mmap\<close> returned lies outside the undo log and \<open>X\<close>, its blocks are tracked, and the stack above \<open>S\<close> need not be restored.
\<close>

definition mem_layout :: "addr \<Rightarrow> u64 \<Rightarrow> addr set \<Rightarrow> addr set \<Rightarrow> addr set \<Rightarrow> u64 \<Rightarrow> addr \<Rightarrow> bool" where
  "mem_layout B S A F X rsp mem \<longleftrightarrow>
     unat mem mod 32 = 0 \<and> 32 \<le> unat mem \<and> unat mem + 2 ^ 30 + 32 \<le> 2 ^ 64 \<and> S \<le> rsp - 128 \<and> {x. S \<le> x} \<subseteq> F \<and>
     (\<forall>x. unat (x - mem) < 2 ^ 30 \<longrightarrow> \<not> in_log B x \<and> x \<notin> X \<and> undo_block x \<in> A)"

lemma NUM_BLOCKS_nat [simp]: "NUM_BLOCKS = 33554432" "unat NUM_BLOCKS = 33554432"
  by (simp_all add: NUM_BLOCKS_def MEM_SIZE_B_def push_bit_of_1)

lemma block_in_mem:
  assumes l: "mem_layout B S A F X rsp mem" and i: "i < 33554432"
  shows "block_ok B A X skip rsp (mem + 32 * of_nat i)"
proof -
  let ?p = "mem + 32 * of_nat i"
  have m: "unat mem mod 32 = 0" "32 \<le> unat mem" "unat mem + 1073741824 + 32 \<le> 18446744073709551616"
    and c: "\<And>x. unat (x - mem) < 1073741824 \<Longrightarrow> \<not> in_log B x \<and> x \<notin> X \<and> undo_block x \<in> A"
    using l by (auto simp: mem_layout_def)
  have p: "unat ?p = unat mem + 32 * i" using unat_add_of_nat [of mem "32 * i"] m(3) i by simp
  have w: "unat (x - mem) < 1073741824" if "unat (x - ?p) < 32" for x
    using that window_iff [of ?p 32 x] window_iff [of mem 1073741824 x] p m(3) i by simp
  have "off_log B ?p 32" unfolding off_log_def using w c by blast
  then have "window_ok B ?p 32" using p m i by (simp add: window_ok_def)
  moreover have "unat ?p mod 32 = 0" using p m(1) by (simp add: mod_add_eq [symmetric])
  ultimately show ?thesis using w c unfolding block_ok_def by blast
qed

lemma block_index: "mem + 32 * offset + 32 * of_nat j = mem + 32 * of_nat (unat offset + j)" for mem offset :: u64
  by (simp add: algebra_simps)

subsection \<open>membench_dedup\<close>

definition dedup_addrs :: "nat \<Rightarrow> addr \<Rightarrow> u64 \<Rightarrow> addr list" where
  "dedup_addrs locs mem offset =
     concat (replicate (WRITES_PER_OP div locs) (map (\<lambda>j. mem + 32 * offset + 32 * of_nat j) [0..<locs]))"

text \<open>What the consume function does under instrumentation.\<close>

definition dedup_prog :: "u64 \<Rightarrow> nat \<Rightarrow> addr \<Rightarrow> mem \<Rightarrow> addr \<Rightarrow> nat \<times> app_op list" where
  "dedup_prog rsp locs mem m p = (16, double_stores rsp (dedup_addrs locs mem (le_word (drop 8 (rd m p 16)))) m)"

definition dedup_cmd :: "nat \<Rightarrow> byte list \<Rightarrow> bool" where
  "dedup_cmd locs e \<longleftrightarrow> length e = 16 \<and> unat (le_word (drop 8 e) :: u64) + locs \<le> 33554432"

definition dedup_app :: "u64 \<Rightarrow> nat \<Rightarrow> addr \<Rightarrow> mem \<Rightarrow> byte list \<Rightarrow> app_op list" where
  "dedup_app rsp locs mem m e = double_stores rsp (dedup_addrs locs mem (le_word (drop 8 e))) m"

lemma fold_repeat: "fold (\<lambda>i. fold g xs) [0..<n] s = fold g (concat (replicate n xs)) s"
proof (induction n)
  case (Suc n)
  have "concat (replicate (Suc n) xs) = concat (replicate n xs) @ xs" by (induction n) simp_all
  then show ?case using Suc by (simp del: replicate_Suc)
qed simp

lemma dedup_run_op_addrs:
  "dedup_run_op persistent locs mem offset P =
     ((offset + of_nat locs) mod NUM_BLOCKS, fold (double_block persistent) (dedup_addrs locs mem offset) P)"
  unfolding dedup_run_op_def dedup_addrs_def fold_repeat [symmetric] by (simp add: fold_map comp_def)

lemma dedup_prog_consume:
  assumes "dedup_prog rsp locs mem (cur P) p = (n, ops)"
  shows "\<exists>P'. dedup_consume locs mem p P = Some (Inr (int n, P')) \<and> cur P' = app_effect ops (cur P)"
  using assms double_stores_effect by (auto simp: dedup_prog_def dedup_consume_def dedup_run_op_addrs Let_def)

lemma dedup_locs_dvd: "locs \<in> set dedup_locs \<Longrightarrow> 0 < locs \<and> WRITES_PER_OP div locs * locs = WRITES_PER_OP \<and> locs dvd 33554432"
  by (auto simp: dedup_locs_def WRITES_PER_OP_def)

lemma dedup_application:
  assumes l: "mem_layout B S A F X rsp mem" and locs: "locs \<in> set dedup_locs"
  shows "application B S A F X skip (dedup_cmd locs) (dedup_app rsp locs mem) (dedup_prog rsp locs mem)"
  unfolding dedup_app_def
proof (rule doubling_application)
  show "\<forall>p \<in> set (dedup_addrs locs mem (le_word (drop 8 e))). block_ok B A X skip rsp p" if "dedup_cmd locs e" for e
    using that block_in_mem [OF l] by (auto simp: dedup_addrs_def dedup_cmd_def block_index simp del: of_nat_add)
  show "length (dedup_addrs locs mem (le_word (drop 8 e))) = WRITES_PER_OP" for e
    using dedup_locs_dvd [OF locs] by (simp add: dedup_addrs_def length_concat sum_list_replicate)
  show "S \<le> rsp - 128" "{x. S \<le> x} \<subseteq> F" using l by (auto simp: mem_layout_def)
qed (auto simp: dedup_prog_def dedup_cmd_def)

subsection \<open>membench_batch\<close>

definition batch_addrs :: "addr \<Rightarrow> u64 \<Rightarrow> addr list" where
  "batch_addrs mem offset = map (\<lambda>i. mem + 32 * ((offset + of_nat i) mod NUM_BLOCKS)) [0..<WRITES_PER_OP]"

definition batch_prog :: "u64 \<Rightarrow> addr \<Rightarrow> mem \<Rightarrow> addr \<Rightarrow> nat \<times> app_op list" where
  "batch_prog rsp mem m p = (16, double_stores rsp (batch_addrs mem (load_u64 m (p + 8))) m)"

definition batch_app :: "u64 \<Rightarrow> addr \<Rightarrow> mem \<Rightarrow> byte list \<Rightarrow> app_op list" where
  "batch_app rsp mem m e = double_stores rsp (batch_addrs mem (le_word (drop 8 e))) m"

lemma batch_prog_consume:
  assumes "batch_prog rsp mem (cur P) p = (n, ops)"
  shows "\<exists>P'. batch_consume mem p P = Some (Inr (int n, P')) \<and> cur P' = app_effect ops (cur P)"
  using assms double_stores_effect
  by (auto simp: batch_prog_def batch_consume_def batch_run_op_def batch_addrs_def fold_map comp_def Let_def)

text \<open>A field of an operation, read where the operation lies.\<close>

lemma load_field:
  assumes "rd m p n = e" and "k + 8 \<le> n"
  shows "load_u64 m (p + of_nat k) = le_word (take 8 (drop k e))"
proof -
  have "take 8 (drop k e) = rd m (p + of_nat k) 8"
    unfolding assms(1) [symmetric] using assms(2) by (intro nth_equalityI) (simp_all add: rd_def algebra_simps)
  then show ?thesis by (simp add: load_u64_def)
qed

lemma batch_application:
  assumes l: "mem_layout B S A F X rsp mem"
  shows "application B S A F X skip (\<lambda>e. length e = 16) (batch_app rsp mem) (batch_prog rsp mem)"
  unfolding batch_app_def
proof (rule doubling_application)
  show "\<forall>p \<in> set (batch_addrs mem (le_word (drop 8 e))). block_ok B A X skip rsp p" for e
  proof -
    have "block_ok B A X skip rsp (mem + 32 * (off mod NUM_BLOCKS))" for off :: u64
    proof -
      have "unat (off mod NUM_BLOCKS) < 33554432" by (simp add: unat_mod)
      from block_in_mem [OF l this] show ?thesis by simp
    qed
    then show ?thesis unfolding batch_addrs_def by auto
  qed
  show "length (batch_addrs mem (le_word (drop 8 e))) = WRITES_PER_OP" for e by (simp add: batch_addrs_def)
  show "S \<le> rsp - 128" "{x. S \<le> x} \<subseteq> F" using l by (auto simp: mem_layout_def)
next
  fix e m a
  assume "length e = 16" "rd m a (length e) = e"
  then show "batch_prog rsp mem m a = (length e, double_stores rsp (batch_addrs mem (le_word (drop 8 e))) m)"
    using load_field [of m a 16 e 8] by (simp add: batch_prog_def)
qed

subsection \<open>membench_stack\<close>

text \<open>The array on the stack lies above the red zone, in memory that need not be restored.\<close>

definition stack_layout :: "addr \<Rightarrow> addr set \<Rightarrow> u64 \<Rightarrow> addr \<Rightarrow> bool" where
  "stack_layout B X rsp local \<longleftrightarrow>
     unat local mod 32 = 0 \<and> 32 \<le> unat local \<and> unat local + 32768 + 32 \<le> 2 ^ 64 \<and> rsp - 128 \<le> local \<and>
     (\<forall>x. unat (x - local) < 32768 \<longrightarrow> \<not> in_log B x \<and> x \<in> X)"

definition stack_addrs :: "addr \<Rightarrow> addr \<Rightarrow> u64 \<Rightarrow> nat \<Rightarrow> addr list" where
  "stack_addrs local mem offset stack_writes =
     map (\<lambda>i. local + 32 * of_nat i) [0..<stack_writes] @ map (\<lambda>i. mem + 32 * offset + 32 * of_nat i) [0..<WRITES_PER_OP - stack_writes]"

definition stack_cmd :: "byte list \<Rightarrow> bool" where
  "stack_cmd e \<longleftrightarrow> length e = 24 \<and> unat (le_word (take 8 (drop 8 e)) :: u64) \<le> WRITES_PER_OP \<and>
     unat (le_word (take 8 (drop 16 e)) :: u64) + WRITES_PER_OP \<le> 33554432"

definition stack_app :: "u64 \<Rightarrow> addr \<Rightarrow> addr \<Rightarrow> mem \<Rightarrow> byte list \<Rightarrow> app_op list" where
  "stack_app rsp local mem m e =
     double_stores rsp (stack_addrs local mem (le_word (take 8 (drop 16 e))) (unat (le_word (take 8 (drop 8 e)) :: u64))) m"

definition stack_prog :: "u64 \<Rightarrow> addr \<Rightarrow> addr \<Rightarrow> mem \<Rightarrow> addr \<Rightarrow> nat \<times> app_op list" where
  "stack_prog rsp local mem m p =
     (24, double_stores rsp (stack_addrs local mem (load_u64 m (p + 16)) (unat (load_u64 m (p + 8)))) m)"

lemma stack_prog_consume:
  assumes "stack_prog rsp local mem (cur P) p = (n, ops)"
  shows "\<exists>P'. stack_consume local mem p P = Some (Inr (int n, P')) \<and> cur P' = app_effect ops (cur P)"
  using assms double_stores_effect
  by (auto simp: stack_prog_def stack_consume_def stack_run_op_def stack_addrs_def fold_map comp_def Let_def)

lemma block_in_stack:
  assumes l: "stack_layout B X rsp local" and i: "i < 1024"
  shows "block_ok B A X True rsp (local + 32 * of_nat i)"
proof -
  let ?p = "local + 32 * of_nat i"
  have m: "unat local mod 32 = 0" "32 \<le> unat local" "unat local + 32768 + 32 \<le> 18446744073709551616" "rsp - 128 \<le> local"
    and c: "\<And>x. unat (x - local) < 32768 \<Longrightarrow> \<not> in_log B x \<and> x \<in> X"
    using l by (auto simp: stack_layout_def)
  have p: "unat ?p = unat local + 32 * i" using unat_add_of_nat [of local "32 * i"] m(3) i by simp
  have w: "unat (x - local) < 32768" if "unat (x - ?p) < 32" for x
    using that window_iff [of ?p 32 x] window_iff [of local 32768 x] p m(3) i by simp
  have "off_log B ?p 32" unfolding off_log_def using w c by blast
  then have "window_ok B ?p 32" using p m i by (simp add: window_ok_def)
  moreover have "unat ?p mod 32 = 0" using p m(1) by (simp add: mod_add_eq [symmetric])
  moreover have "rsp - 128 \<le> ?p" using m(4) p by (simp add: word_le_nat_alt)
  ultimately show ?thesis using w c unfolding block_ok_def by blast
qed

lemma stack_application:
  assumes l: "mem_layout B S A F X rsp mem" and st: "stack_layout B X rsp local"
  shows "application B S A F X True stack_cmd (stack_app rsp local mem) (stack_prog rsp local mem)"
  unfolding stack_app_def
proof (rule doubling_application)
  show "\<forall>p \<in> set (stack_addrs local mem (le_word (take 8 (drop 16 e))) (unat (le_word (take 8 (drop 8 e)) :: u64))).
      block_ok B A X True rsp p" if "stack_cmd e" for e
    using that block_in_mem [OF l] block_in_stack [OF st]
    by (auto simp: stack_addrs_def stack_cmd_def block_index WRITES_PER_OP_def simp del: of_nat_add)
  show "length (stack_addrs local mem (le_word (take 8 (drop 16 e))) (unat (le_word (take 8 (drop 8 e)) :: u64))) = WRITES_PER_OP"
    if "stack_cmd e" for e
    using that by (simp add: stack_addrs_def stack_cmd_def)
  show "S \<le> rsp - 128" "{x. S \<le> x} \<subseteq> F" using l by (auto simp: mem_layout_def)
next
  fix e m a
  assume "stack_cmd e" "rd m a (length e) = e"
  then show "stack_prog rsp local mem m a =
      (length e, double_stores rsp (stack_addrs local mem (le_word (take 8 (drop 16 e))) (unat (le_word (take 8 (drop 8 e)) :: u64))) m)"
    using load_field [of m a 24 e 8] load_field [of m a 24 e 16] by (simp add: stack_prog_def stack_cmd_def)
qed

subsection \<open>The direct run\<close>

lemma dedup_op_offset [simp]: "le_word (drop 8 (dedup_op offset)) = offset" "length (dedup_op offset) = 16"
  by (simp_all add: dedup_op_def del: le_bytes.simps)

lemma dedup_baseline:
  fixes locs
  defines "next \<equiv> \<lambda>offset :: u64. (offset + of_nat locs) mod NUM_BLOCKS"
  shows "run_commands (dedup_app rsp locs mem) (map dedup_op (offsets next n offset)) (cur P) =
     cur (snd (baseline_loop (dedup_run_op False locs mem) n offset P))"
proof (induction n arbitrary: offset P)
  case (Suc n)
  have "app_effect (dedup_app rsp locs mem (cur P) (dedup_op offset)) (cur P) = cur (snd (dedup_run_op False locs mem offset P))"
    by (simp add: dedup_app_def double_stores_effect dedup_run_op_addrs)
  then show ?case using Suc [of "next offset" "snd (dedup_run_op False locs mem offset P)"]
    by (simp add: dedup_run_op_addrs next_def)
qed simp

text \<open>Offsets stay multiples of \<open>locs\<close>, so a block never reaches over the end of the memory.\<close>

lemma dedup_offsets:
  fixes offset :: u64
  assumes locs: "locs \<in> set dedup_locs" and off: "locs dvd unat offset" "unat offset < 33554432"
  shows "\<forall>e \<in> set (map dedup_op (offsets (\<lambda>offset. (offset + of_nat locs) mod NUM_BLOCKS) n offset)). dedup_cmd locs e"
  using off
proof (induction n arbitrary: offset)
  case (Suc n)
  let ?off = "(offset + of_nat locs) mod NUM_BLOCKS"
  obtain k where k: "(33554432 :: nat) = locs * k" using dedup_locs_dvd [OF locs] by (auto simp: dvd_def)
  obtain j where j: "unat offset = locs * j" using Suc.prems(1) by (auto simp: dvd_def)
  have "locs * j < locs * k" using Suc.prems(2) by (simp only: j k [symmetric])
  then have "j < k" by simp
  then have "locs * Suc j \<le> locs * k" by (simp only: mult_le_mono2 Suc_leI)
  then have cmd: "unat offset + locs \<le> 33554432" using k j by simp
  have "unat (offset + of_nat locs) = unat offset + locs" using cmd by (intro unat_add_of_nat) simp
  then have n: "unat ?off = (unat offset + locs) mod 33554432" by (simp add: unat_mod)
  have "locs dvd unat ?off" unfolding n using Suc.prems(1) dedup_locs_dvd [OF locs] by (simp add: dvd_mod)
  moreover have "unat ?off < 33554432" unfolding n by simp
  ultimately show ?case using Suc.IH [of ?off] cmd by (simp add: dedup_cmd_def)
qed simp

subsection \<open>A process with a gigabyte of memory\<close>

text \<open>
  The undo log at 64 KiB, the memory of the benchmark at 1 GiB, the operation log above it, and the stack from \<open>0x7000000000000000\<close>.
\<close>

abbreviation bench_A :: "addr set" where "bench_A \<equiv> {x. x < 0x80000000}"

abbreviation bench_F :: "addr set" where "bench_F \<equiv> {x. 0x7000000000000000 \<le> x}"

abbreviation bench_X :: "addr set" where
  "bench_X \<equiv> Collect (in_log 65536) \<union> bench_F \<union> word_at (tail_at 0x90000000)"

lemma bench_layout: "mem_layout 65536 0x7000000000000000 bench_A bench_F bench_X 0x7000000000000100 0x40000000"
proof -
  have "\<not> in_log 65536 x \<and> x \<notin> bench_X \<and> undo_block x \<in> bench_A" if "unat (x - 0x40000000) < 2 ^ 30" for x
  proof -
    have x: "0x40000000 \<le> unat x" "unat x < 0x80000000" using that window_iff [of "0x40000000" "2 ^ 30" x] by simp_all
    have "x \<notin> word_at (tail_at 0x90000000)"
      using x window_iff [of "0x90000040" 8 x] by auto
    with x show ?thesis
      unfolding in_log_nat [OF demo_log] Un_iff mem_Collect_eq
      by (simp add: UNDO_NUM_ENTRIES_def word_less_nat_alt word_le_nat_alt unat_undo_block)
  qed
  then show ?thesis unfolding mem_layout_def by simp
qed

lemma bench_stack: "stack_layout 65536 bench_X 0x7000000000000100 0x7000000000000200"
proof -
  have "\<not> in_log 65536 x \<and> x \<in> bench_X" if "unat (x - 0x7000000000000200) < 32768" for x
    using that window_iff [of "0x7000000000000200" 32768 x] unfolding in_log_nat [OF demo_log] Un_iff mem_Collect_eq
    by (simp add: UNDO_NUM_ENTRIES_def word_le_nat_alt)
  then show ?thesis unfolding stack_layout_def by (auto simp: word_le_nat_alt)
qed

interpretation dedup_bench: application 65536 "0x7000000000000000" bench_A bench_F bench_X True
  "dedup_cmd 1024" "dedup_app 0x7000000000000100 1024 0x40000000" "dedup_prog 0x7000000000000100 1024 0x40000000"
  by (rule dedup_application [OF bench_layout]) (simp add: dedup_locs_def)

interpretation batch_bench: application 65536 "0x7000000000000000" bench_A bench_F bench_X True
  "\<lambda>e. length e = 16" "batch_app 0x7000000000000100 0x40000000" "batch_prog 0x7000000000000100 0x40000000"
  by (rule batch_application [OF bench_layout])

interpretation stack_bench: application 65536 "0x7000000000000000" bench_A bench_F bench_X True
  stack_cmd "stack_app 0x7000000000000100 0x7000000000000200 0x40000000" "stack_prog 0x7000000000000100 0x7000000000000200 0x40000000"
  by (rule stack_application [OF bench_layout bench_stack])

text \<open>Two operations of \<open>membench_dedup\<close> with 1024 locations in the log.\<close>

abbreviation two_ops :: mem where
  "two_ops \<equiv> (\<lambda>_. 0)(0x90000080 := 1, 0x900000C0 := 1, 0x900000C9 := 4)"

definition bench_bg :: "unit bg" where
  "bench_bg = two_bg\<lparr>psm_of := (psm_of two_bg)\<lparr>psm_mem := boot two_ops, log_base := 0x90000000\<rparr>,
     instr_of := (instr_of two_bg)\<lparr>ul := recovered_log 65536 0 (\<lambda>_. 0) two_ops\<rparr>\<rparr>"

lemma bench_bg_simps [simp]:
  "mode (psm_of bench_bg) = PSM_MODE_UNDO" "psm_mem (psm_of bench_bg) = boot two_ops" "log_base (psm_of bench_bg) = 0x90000000"
  "ul (instr_of bench_bg) = recovered_log 65536 0 (\<lambda>_. 0) two_ops" "region_table_modified (instr_of bench_bg) = False"
  by (simp_all add: bench_bg_def)

lemma bench_log_apart: "log_apart 65536 bench_A bench_F 0x90000000"
  unfolding log_apart_def in_log_nat [OF demo_log]
proof (intro allI impI)
  fix x :: u64
  assume "unat (x - 0x90000000) < 128 + RING"
  then have x: "unat x < 0x90000000 + 128 + RING" "0x90000000 \<le> unat x"
    using window_iff [of "0x90000000" "128 + RING" x] by simp_all
  have "75497472 \<le> unat x div 32" using div_le_mono [OF x(2), of 32] by simp
  with x show "\<not> (unat (65536 :: u64) \<le> unat x \<and> unat x < unat (65536 :: u64) + 64 * UNDO_NUM_ENTRIES) \<and>
      undo_block x \<notin> bench_A \<and> x \<notin> bench_F"
    by (simp add: UNDO_NUM_ENTRIES_def word_less_nat_alt word_le_nat_alt unat_undo_block)
qed

lemma bench_ops: "map dedup_op (offsets (\<lambda>off. (off + of_nat 1024) mod NUM_BLOCKS) 2 0) = [dedup_op 0, dedup_op 1024]"
  unfolding numeral_2_eq_2 offsets.simps by simp

lemma bench_bg_ready: "bg_ready False 65536 bench_A bench_F two_ops [dedup_op 0, dedup_op 1024] 128 0 bench_bg"
proof (rule bg_readyI [where t = 0 and h = 128])
  show "log_state False 65536 bench_A two_ops bench_F 0 [] (recovered_log 65536 0 (\<lambda>_. 0) two_ops)"
    by (rule log_state_boot [OF demo_log]) (auto simp: in_log_def UNDO_NUM_ENTRIES_def)
  show "load_u64 two_ops (tail_at 0x90000000) = 0"
    by (simp add: load_u64_def rd_def upt_rec)
  have "dedup_op 0 = [1, 0, 0, 0, 0, 0, 0, 0, 0, 0, 0, 0, 0, 0, 0, 0]" "dedup_op 1024 = [1, 0, 0, 0, 0, 0, 0, 0, 0, 4, 0, 0, 0, 0, 0, 0]"
    by code_simp+
  then show "chain two_ops (buf_at 0x90000000) 0 [dedup_op 0, dedup_op 1024] 128"
    by (simp add: entry_ok_def round64_def pad_def span_def stored_at_def rd_def upt_rec)
qed (simp_all add: base_ok_def bench_log_apart)

section \<open>The theorems\<close>

text \<open>
  C23. The loops of the three benchmarks lose nothing: with a background process that takes entries from the front and at least one
  from a full log, each returns, and what the background has taken and what is in the log together are the operations, in order, behind those that
  were there before.
\<close>

theorem membench_logs_operations:
  assumes bg: "bg_takes bgp" and st: "ring_state line_ops s qs []"
  shows "(\<exists>s' outs qs'. dedup_run_loop bgp locs n offset s = Some (Inr (((\<lambda>off. (off + of_nat locs) mod NUM_BLOCKS) ^^ n) offset, s')) \<and>
       qs @ map dedup_op (offsets (\<lambda>off. (off + of_nat locs) mod NUM_BLOCKS) n offset) = outs @ qs' \<and> ring_state line_ops s' qs' []) \<and>
     (\<exists>s' outs qs'. stack_run_loop bgp sw n offset s = Some (Inr (((\<lambda>off. (off + of_nat WRITES_PER_OP) mod NUM_BLOCKS) ^^ n) offset, s')) \<and>
       qs @ map (stack_op sw) (offsets (\<lambda>off. (off + of_nat WRITES_PER_OP) mod NUM_BLOCKS) n offset) = outs @ qs' \<and> ring_state line_ops s' qs' []) \<and>
     (\<exists>s' outs qs'. batch_run_loop bgp advance n offset s = Some (Inr (((\<lambda>off. (off + advance) mod NUM_BLOCKS) ^^ n) offset, s')) \<and>
       qs @ map dedup_op (offsets (\<lambda>off. (off + advance) mod NUM_BLOCKS) n offset) = outs @ qs' \<and> ring_state line_ops s' qs' [])"
proof -
  have "dedup_op off \<in> line_ops" "stack_op sw off \<in> line_ops" for off
    by (simp_all add: line_ops_def dedup_op_def stack_op_def numeral_eq_Suc)
  then show ?thesis
    unfolding dedup_run_loop_def stack_run_loop_def batch_run_loop_def
    by (intro conjI push_loop_fills [OF bg _ st])
qed

text \<open>A background process that has consumed all that was committed.\<close>

definition take_all :: "nat \<Rightarrow> psm \<Rightarrow> psm" where
  "take_all n s = update_tail (head s) s"

lemma take_all_takes: "bg_takes take_all"
  unfolding bg_takes_def
proof (intro allI impI)
  fix n s qs
  assume st: "ring_state line_ops s qs []"
  obtain lt t l where c: "counters lt t l l s" "base_ok (log_base s)" using ring_state_counters [OF st] by blast
  then have "counters lt l l l (take_all n s)" "log_base (take_all n s) = log_base s"
    by (auto simp: counters_def take_all_def update_tail_def)
  moreover have "wf_pm (psm_mem (take_all n s))" using st by (simp add: ring_state_def take_all_def update_tail_def wf_persist_word)
  ultimately have "ring_state line_ops (take_all n s) [] []" using c(2) unfolding ring_state_def ring_rep_def by force
  then show "\<exists>outs qs'. qs = outs @ qs' \<and> ring_state line_ops (take_all n s) qs' [] \<and> length qs' < 16383"
    by (intro exI [of _ qs] exI [of _ "[]"]) simp
qed

theorem membench_logs_operations_witness:
  "\<exists>s' outs qs'. dedup_run_loop take_all 1024 2 0 demo_psm = Some (Inr (2048, s')) \<and>
     [dedup_op 0, dedup_op 1024] = outs @ qs' \<and> ring_state line_ops s' qs' []"
  using conjunct1 [OF membench_logs_operations [OF take_all_takes demo_psm_state, of 1024 2 0]] unfolding bench_ops
  unfolding numeral_2_eq_2 funpow.simps by simp

text \<open>
  C11. The benchmark through the library computes what the direct run computes. When the log holds the operations of
  \<open>dedup_run_loop\<close>, the background process executes them all, and the memory is then that of the baseline loop from the
  same memory, outside the undo log, the tail and the stack.
\<close>

theorem membench_equals_baseline:
  fixes mem :: addr and mops :: "'m mrm_ops" and locs n :: nat
  defines "next \<equiv> \<lambda>offset :: u64. (offset + of_nat locs) mod NUM_BLOCKS"
  assumes lay: "mem_layout B S A F X rsp mem" and locs: "locs \<in> set dedup_locs" and off: "locs dvd unat offset" "unat offset < 33554432"
    and X: "X = Collect (in_log B) \<union> F \<union> word_at (tail_at lb)"
    and at: "consumer_at dedup E B A F lb (bg_mem b) (map dedup_op (offsets next n offset)) hd_off tl_off b"
    and heads: "head_visible heads tl_off hd_off" and hm: "dedup \<longrightarrow> hm < (0xFFFFFFFF :: u64)"
    and mgr: "mrm_recover mops (mrm_clear_new_region_table mops mgr) = Some (Inr mgr1)"
      "\<forall>a \<in> A. mrm_does_manage mops mgr1 a"
      "mrm_recover mops (mrm_commit_new_region_table mops mgr) = Some (Inr mgr2)"
  shows "\<exists>tl' b'. run_rounds dedup E C (app_handler dedup skip (dedup_prog rsp locs mem)) heads n tl_off b = Some (Inr (tl', b')) \<and>
     same_off X (bg_mem b') (cur (snd (baseline_loop (dedup_run_op False locs mem) n offset (psm_mem (psm_of b)))))"
proof -
  let ?qs = "map dedup_op (offsets next n offset)"
  have len: "length ?qs = n" by (induction n arbitrary: offset) simp_all
  have cmds: "\<forall>e \<in> set ?qs. dedup_cmd locs e" unfolding next_def by (rule dedup_offsets [OF locs off])
  obtain tl' b' where r: "run_rounds dedup E C (app_handler dedup skip (dedup_prog rsp locs mem)) heads n tl_off b = Some (Inr (tl', b'))"
    "consumer_at dedup E B A F lb (run_commands (dedup_app rsp locs mem) (take n ?qs) (bg_mem b)) (drop n ?qs) hd_off tl' b'"
    using consumer_rounds [where heads = heads, OF dedup_application [OF lay locs] X cmds heads hm mgr at, of n] len by fastforce
  obtain m0 where m0: "bg_ready dedup B A F m0 (drop n ?qs) hd_off tl' b'"
    "same_off X m0 (run_commands (dedup_app rsp locs mem) (take n ?qs) (bg_mem b))"
    using r(2) unfolding consumer_at_def X by blast
  have "same_off X (bg_mem b') m0" using bg_ready_mem [OF m0(1)] by (simp add: same_off_def X)
  from same_off_trans [OF this m0(2)] have "same_off X (bg_mem b') (run_commands (dedup_app rsp locs mem) ?qs (bg_mem b))"
    using len by simp
  then show ?thesis using r(1) dedup_baseline [of rsp locs mem n offset "psm_mem (psm_of b)"] by (auto simp: next_def)
qed

theorem membench_equals_baseline_witness:
  "\<exists>tl' b'. run_rounds False one_env demo_criu (app_handler False True (dedup_prog 0x7000000000000100 1024 0x40000000))
       (\<lambda>_ _. 128) 2 0 bench_bg = Some (Inr (tl', b')) \<and>
     same_off bench_X (bg_mem b') (cur (snd (baseline_loop (dedup_run_op False 1024 0x40000000) 2 0 (boot two_ops))))"
proof -
  have "consumer_at False one_env 65536 bench_A bench_F 0x90000000 (bg_mem bench_bg) [dedup_op 0, dedup_op 1024] 128 0 bench_bg"
    unfolding consumer_at_def by (intro conjI exI [of _ two_ops] bench_bg_ready) (simp_all add: same_off_def)
  then show ?thesis
    using membench_equals_baseline [where locs = 1024 and offset = 0 and n = 2, OF bench_layout _ _ _ refl, unfolded bench_ops,
        where heads = "\<lambda>_ _. 128" and tl_off = 0 and hd_off = 128 and dedup = False and hm = 0 and mops = demo_mops and mgr = "()"
        and b = bench_bg and E = one_env and C = demo_criu and skip = True]
    by (simp add: head_visible_def dedup_locs_def) blast
qed

end
