(* ===== verification/Spec2Isabelle.thy ===== *)
theory Spec2Isabelle
  imports Region Undo_Holes Psm_Props Region_Props Region_Foreground Instrument_Props Emitted_Code Chkpt_Props
    Background_Props Psm_Durable Foreground_Props Consumer Musl_Copy Dir_Iter Membench_Props
begin

text \<open>
  \<^bold>\<open>Persimmon: a verification development.\<close> Persimmon makes an in-memory application persistent. A
  foreground process runs the application and appends its commands to an operation log in persistent
  memory; a background process, forked from it, executes the same commands under the instrumentation of
  DynamoRIO on memory that is mapped from files in persistent memory, and an undo log makes
  each command atomic. After a power failure CRIU restores a checkpoint of the process as it was at
  start, the background rolls its memory back or keeps it, and hands it to the foreground.

  \<^bold>\<open>Parts and theories.\<close> Paths are relative to \<^verbatim>\<open>src/\<close>; a definition has the name of the
  function it translates.

  \<^item> \<open>Prelude\<close>: results (\<open>Inl\<close> is an assertion, an abort, undefined behaviour or a jump), the
    combination of results with non-termination (\<open>bind_ro\<close>), windows of addresses, reading and writing memory.
  \<^item> \<open>Pmem\<close>: \<^verbatim>\<open>src/undo/flush.h\<close> over a persistency model of cache lines. The state has, beside the
    contents, what each line may hold in the persistence domain now and after the next fence;
    \<open>crash_image\<close> and \<open>crash_during\<close> are the memories that a power failure may leave, at one
    moment and during an operation. \<open>Crash_Images\<close>: how they change along a run.
  \<^item> \<open>Memset_NT\<close>: \<^verbatim>\<open>src/undo/memset_nt_avx.cc\<close>, every non-temporal store a step.
  \<^item> \<open>Ranges\<close>, \<open>Region\<close>: \<^verbatim>\<open>src/undo/mem_region/ranges.h\<close> (the vector is a list) and \<^verbatim>\<open>common.h\<close>.
  \<^item> \<open>Addr_Hash\<close>, \<open>Undo_Log\<close>: \<^verbatim>\<open>src/undo/undo_log.h\<close>, the hash index with the inline check
    (\<open>undo_insert_fast_path\<close>) and the log. \<open>dedup\<close> is \<open>OPTIMIZE_DEDUPLICATE\<close>. \<open>Undo_Inv\<close> has the
    invariant of the log, \<open>Undo_Record\<close>, \<open>Undo_Commit\<close>, \<open>Undo_Recover\<close> that the operations keep it,
    \<open>Undo_Crash\<close> the theorems about failures, \<open>Undo_Tail\<close> the composition with the tail of the operation log, and
    \<open>Undo_Holes\<close> three executions in which a restart goes wrong.
  \<^item> \<open>Psm_Log\<close>: the operation log of \<^verbatim>\<open>src/internal.h\<close> and \<^verbatim>\<open>src/fg.cc\<close>. \<open>Psm_Queue\<close> shows that it
    implements the interface \<open>fifo_log\<close>, \<open>Psm_Props\<close> draws the conclusions, \<open>Psm_Durable\<close> shows
    that the durable log implements the same interface, with what failures leave.
    \<open>Sga\<close>: the decoder of scatter-gather messages in \<^verbatim>\<open>src/bg.cc\<close>, an instance of \<open>message_format\<close>.
  \<^item> \<open>My_Libc\<close>: \<^verbatim>\<open>src/undo/my_libc/my_libc.cc\<close>; the kernel is a function of the registers, a
    parameter everywhere. \<open>Posix\<close> states, call by call, the documented behaviour that theorems about files
    assume (\<open>posix\<close>), \<open>Posix_Sim\<close> has an executable kernel with this behaviour, which the witnesses use.
  \<^item> \<open>Mem_Region\<close>: \<^verbatim>\<open>src/undo/mem_region/mem_region.cc\<close> and \<^verbatim>\<open>fg.cc\<close>. \<open>Region_Inv\<close>: the invariant
    of the manager under every answer of the kernel; \<open>Region_Files\<close>, \<open>Region_Persist\<close>,
    \<open>Region_Props\<close>, \<open>Region_Foreground\<close>: files, tables and the transfer to the foreground under \<open>posix\<close>.
  \<^item> \<open>Instrument\<close>: the event handlers of \<^verbatim>\<open>src/undo/instrument.cc\<close>; \<open>Emitted_Code\<close> runs what they
    emit, \<open>Instrument_Props\<close> has the address space and the system calls. \<open>Client\<close>: \<open>dr_client_main\<close>,
    \<open>event_exit\<close> and the mapping of the undo log.
  \<^item> \<open>Chkpt\<close>: \<^verbatim>\<open>src/chkpt/\<close> and \<^verbatim>\<open>src/undo/initial_chkpt.cc\<close>. \<open>Chkpt_Props\<close>: what the initial checkpoint captures, through a view of the
    descriptors, the session, the options of CRIU and the dumps (\<open>kernel_observed\<close>, \<open>criu_observed\<close>).
  \<^item> \<open>Background\<close>: \<^verbatim>\<open>src/bg.cc\<close>, the consumer loop (\<open>BATCH_COMMIT\<close> is 0). \<open>Background_Props\<close>: one round.
    \<open>Consumer\<close>: any number of rounds (\<open>run_rounds\<close>) against the specification \<open>run_commands\<close>, with the contract of the
    application as the locale \<open>application\<close>.
  \<^item> \<open>Foreground\<close>: \<open>psm_init\<close> of \<^verbatim>\<open>src/fg.cc\<close> and \<^verbatim>\<open>src/undo/undo_fg.cc\<close>; \<open>setjmp\<close> splits it, and
    the second part is run again on the restored state. \<open>Foreground_Props\<close>: start, handshake, replay.
  \<^item> \<open>Musl_Strings\<close>, \<open>Musl_Copy\<close>: the C files of \<^verbatim>\<open>src/undo/my_libc/musl/\<close>, with their loops over aligned words.
    \<open>Dir_Iter\<close>: \<^verbatim>\<open>src/undo/mem_region/dir_iter.h\<close>, for any function that is called on the entries.
  \<^item> \<open>Membench\<close>: the programs of \<^verbatim>\<open>bench/\<close>, which are clients of the library; \<open>Membench_Props\<close> interprets \<open>application\<close> on
    their consume functions.

  \<^bold>\<open>What is shown.\<close> The background executes the log in order, each command exactly once: after \<open>n\<close> rounds
  the memory is what the first \<open>n\<close> commands give, and a failure in the next round leads to exactly \<open>n\<close> or exactly \<open>n + 1\<close>
  commands (\<open>log_executed_in_order\<close>, by induction from \<open>command_executed_once\<close>'s lemma \<open>command_round\<close>, which rests on the
  theorems on epochs, commit, recovery and cleanup of the undo log). A command that \<open>psm_commit\<close> has published survives, in order and byte by byte, and a batch is never
  published in part (\<open>psm_log_survives\<close>); \<open>psm_init\<close> starts from such a log (\<open>psm_init_starts_empty\<close>).
  The checkpoint that a restart begins from is taken once, detached from the terminal, and the function
  returns or jumps as this dump says (\<open>take_initial_chkpt_dump\<close>).
  At a restart the foreground receives the tail and the regions with the contents of
  their files, and nothing else of its memory changes (\<open>recovery_handshake\<close>) and executes the commands from there to the head (\<open>psm_init_replays\<close>).
  The code emitted before a store of the application calls \<open>record_write\<close> unless
  the block is logged (\<open>emitted_code_records\<close>, \<open>skipped_call_redundant\<close>). The manager's tables
  choose between the old and the new regions as the undo log does between the old and the new memory
  (\<open>region_tables_choose\<close>). The benchmarks lose no operation, and through the library they compute what the direct
  run computes (\<open>membench_logs_operations\<close>, \<open>membench_equals_baseline\<close>). The string functions agree with byte loops.
  Some theorems state what goes wrong: an entry that recovery leaves behind makes
  a later restart abort, a failure during the cleanup undoes a committed epoch, \<open>memset_movnt_avx\<close> writes a byte for length
  zero, unmapping one area forgets the others so that a committed store is lost (\<open>unmap_loses_committed_store\<close>), a reservation may
  never return, lengths are rounded modulo \<open>2 ^ 32\<close> (\<open>align_to_cache_line_size_correct\<close>), a message with too many segments overruns its array, \<open>persist_region\<close> ignores a failing \<^verbatim>\<open>fsync\<close>,
  \<open>remove_region\<close> a failing \<^verbatim>\<open>munmap\<close>, and a failing \<^verbatim>\<open>mmap\<close> of the application aborts.

  \<^bold>\<open>Bounds and fuel.\<close> No operation has fuel: loops are structural, have a measure, or are
  \<open>partial_function (option)\<close> with \<open>None\<close> for not returning, and every theorem about such a loop states
  that it returns or gives the condition. The spin loops read streams of loads (\<open>loads\<close>, \<open>heads\<close>). Sizes and addresses
  are 64-bit words and \<open>uint\<close> and \<open>int\<close> are narrowed where the code does; the counters of the ring are unbounded only
  in the abstraction (\<open>counters\<close>).

  \<^bold>\<open>Parameters and hypotheses.\<close> The kernel (\<open>posix\<close>), DynamoRIO (its map of memory, its instructions and
  its register allocator, which does not hand out a register twice), CRIU, libpmem (\<open>copies\<close>, \<open>copies_nodrain\<close>,
  \<open>maps_pages\<close>), \<open>fork\<close>, and the application's consume function, which reports the length of the
  entry it was given and, under instrumentation, makes a list of stores and mappings. Operations of the two
  processes are interleaved as a whole; the atomics carry only the head and the tail, which each
  process alone writes.

  \<^bold>\<open>Limits.\<close> \<open>command_executed_once\<close> and \<open>log_executed_in_order\<close> have failures up to \<open>update_tail\<close> of a round, and the cleanup
  only without one: a failure in the middle of the cleanup can undo a committed command (\<open>cleanup_may_undo_commit\<close>), so no such
  theorem holds for it. What the application maps within an epoch and the stack are not restored (\<open>unprotected\<close>).
  In \<open>app_handler\<close>, that is in \<open>log_executed_in_order\<close>, \<open>command_executed_once\<close> and \<open>membench_equals_baseline\<close>, the mappings of the
  application act on the undo log only; their way through \<open>event_pre_syscall\<close> and \<open>event_post_syscall\<close> to the region manager is
  the subject of \<open>syscall_interception_invariant\<close>, and the two are not composed. \<open>region_tables_choose\<close> assumes that no
  \<^verbatim>\<open>new_table.dat\<close> is left over. \<open>remove_region\<close> takes the window out of the vector of regions (\<open>managed\<close>) and, as in the code, not
  out of \<open>rs\<close>, so that \<open>does_manage\<close> stays true of it.

  \<^bold>\<open>Not modelled.\<close> \<^verbatim>\<open>src/undo/my_libc/prohibit_libc.h\<close> only defines macros that make a use of libc an error of the
  compiler; \<^verbatim>\<open>src/substitute.cc\<close> is unfinished, does not compile (its \<^verbatim>\<open>getline\<close> has no arguments) and is in no
  target; \<^verbatim>\<open>memcpy\<close>, \<^verbatim>\<open>memmove\<close> and \<^verbatim>\<open>memset\<close> of \<^verbatim>\<open>musl/\<close> are assembly; where \<open>stpncpy\<close> calls
  \<^verbatim>\<open>memset\<close> its specification stands. The assertion of \<open>memset_small_avx\<close> holds at both of its calls and is not a branch. Log output, clocks and the allocations
  of DynamoRIO are left out of the functions that make them.
\<close>

end
